(* ===== verification/Prelude.thy ===== *)
theory Prelude
  imports Main "HOL-Library.Word" "HOL-Library.Multiset" "HOL-Library.List_Lexorder"
    "HOL-Library.Char_ord"
begin

text \<open>
  Prelude of the development: the machine types the Rust sources use, the clock, decimal
  printing, hash maps and their iteration, ordered maps (\<open>BTreeMap\<close>), and the generic
  lemmas that the component theories share.

  \<^item> \<open>u8\<close>, \<open>u32\<close>, \<open>u64\<close> are words, so \<open>+\<close> and \<open>*\<close> wrap as in the release
    profile of the crates; \<open>usize\<close> lengths and counts are \<open>nat\<close>.
  \<^item> \<open>Instant\<close> and \<open>Duration\<close> are nanosecond counts (\<open>nat\<close>); \<open>elapsed\<close> saturates at
    zero as \<open>Instant::elapsed\<close> does.
  \<^item> a \<open>HashMap\<close> or \<open>DashMap\<close> is a partial map with finite domain. The order in which it
    is iterated is not specified by the library, so an operation that iterates takes the
    yielded entries as a list, related to the map by \<open>iterates\<close>.
  \<^item> a \<open>BTreeMap\<close> is its list of entries in increasing key order.
\<close>

named_theorems engine_simps \<open>unfolding of the storage engine's operations\<close>
named_theorems ring_simps \<open>unfolding of the hash ring's operations\<close>
named_theorems cluster_simps \<open>unfolding of the replication and server operations\<close>

section \<open>Machine types and the clock\<close>

type_synonym u8 = "8 word"
type_synonym u16 = "16 word"
type_synonym u32 = "32 word"
type_synonym u64 = "64 word"
type_synonym i64 = "64 word"
type_synonym usize = nat
type_synonym instant = nat
type_synonym duration = nat

abbreviation u64_max :: u64 where
  "u64_max \<equiv> - 1"

definition elapsed :: "instant \<Rightarrow> instant \<Rightarrow> duration" where
  "elapsed now start = now - start"

definition duration_from_millis :: "u64 \<Rightarrow> duration" where
  "duration_from_millis ms = unat ms * 1000000"

definition as_millis_u64 :: "duration \<Rightarrow> u64" where
  "as_millis_u64 d = of_nat (d div 1000000)"

definition as_secs :: "duration \<Rightarrow> u64" where
  "as_secs d = of_nat (d div 1000000000)"

definition saturating_add :: "u64 \<Rightarrow> u64 \<Rightarrow> u64" where
  "saturating_add a b = (if unat a + unat b < 2 ^ 64 then a + b else u64_max)"

definition saturating_mul :: "u64 \<Rightarrow> u64 \<Rightarrow> u64" where
  "saturating_mul a b = (if unat a * unat b < 2 ^ 64 then a * b else u64_max)"

lemma unat_u64_max [simp]: "unat u64_max = 2 ^ 64 - 1"
  by (simp add: unsigned_minus_1_eq_mask mask_eq_exp_minus_1)

lemma unat_u64_lt: "unat (x :: u64) < 2 ^ 64"
proof -
  have "unat x < 2 ^ LENGTH(64)" by (rule unsigned_less)
  then show ?thesis by simp
qed

lemma unat_saturating_add: "unat (saturating_add a b) = min (unat a + unat b) (2 ^ 64 - 1)"
  by (auto simp: saturating_add_def unat_word_ariths min_def)

lemma unat_saturating_mul: "unat (saturating_mul a b) = min (unat a * unat b) (2 ^ 64 - 1)"
  by (auto simp: saturating_mul_def unat_word_ariths min_def)

lemma unat_Suc_u64: "x \<noteq> u64_max \<Longrightarrow> unat (x + 1 :: u64) = unat x + 1"
proof -
  assume "x \<noteq> u64_max"
  then have "unat x \<noteq> unat u64_max" by (simp add: word_unat_eq_iff)
  with unat_u64_lt [of x] have "unat x + 1 < 2 ^ 64" by simp
  then show ?thesis by (simp add: unat_word_ariths)
qed

section \<open>Decimal printing\<close>

text \<open>What \<open>format!\<close> prints for an unsigned integer.\<close>

definition digit_char :: "nat \<Rightarrow> char" where
  "digit_char d = char_of (48 + d)"

fun show_nat :: "nat \<Rightarrow> string" where
  "show_nat n = (if n < 10 then [digit_char n] else show_nat (n div 10) @ [digit_char (n mod 10)])"

declare show_nat.simps [simp del]

abbreviation show_word :: "'a::len word \<Rightarrow> string" where
  "show_word w \<equiv> show_nat (unat w)"

text \<open>The bytes of a string literal.\<close>

definition literal_bytes :: "string \<Rightarrow> u8 list" where
  "literal_bytes s = map of_char s"

definition char_digit :: "char \<Rightarrow> nat" where
  "char_digit c = of_char c - 48"

definition read_nat :: "string \<Rightarrow> nat" where
  "read_nat s = foldl (\<lambda>acc c. acc * 10 + char_digit c) 0 s"

lemma digit_char_literals [simp]:
  "digit_char 0 = CHR ''0''" "digit_char 1 = CHR ''1''" "digit_char (Suc 0) = CHR ''1''"
  "digit_char 2 = CHR ''2''" "digit_char 3 = CHR ''3''" "digit_char 4 = CHR ''4''"
  "digit_char 5 = CHR ''5''" "digit_char 6 = CHR ''6''" "digit_char 7 = CHR ''7''"
  "digit_char 8 = CHR ''8''" "digit_char 9 = CHR ''9''"
  by (simp_all add: digit_char_def bit_Suc_0_iff char_of_def)

lemma char_digit_digit_char: "d < 10 \<Longrightarrow> char_digit (digit_char d) = d"
  by (simp add: char_digit_def digit_char_def)

lemma read_show_nat: "read_nat (show_nat n) = n"
proof (induction n rule: show_nat.induct)
  case (1 n)
  show ?case
  proof (cases "n < 10")
    case True
    then show ?thesis
      by (subst show_nat.simps) (simp add: read_nat_def char_digit_digit_char)
  next
    case False
    with "1.IH" have "foldl (\<lambda>acc c. acc * 10 + char_digit c) 0 (show_nat (n div 10)) = n div 10"
      by (simp add: read_nat_def)
    with False show ?thesis
      by (subst show_nat.simps) (simp add: read_nat_def char_digit_digit_char)
  qed
qed

lemma show_nat_inject [simp]: "show_nat m = show_nat n \<longleftrightarrow> m = n"
  by (metis read_show_nat)

lemma set_show_nat: "c \<in> set (show_nat n) \<Longrightarrow> \<exists>d < 10. c = digit_char d"
proof (induction n rule: show_nat.induct)
  case (1 n)
  show ?case
  proof (cases "n < 10")
    case True
    with "1.prems" show ?thesis by (subst (asm) show_nat.simps) auto
  next
    case False
    with "1.prems" consider "c \<in> set (show_nat (n div 10))" | "c = digit_char (n mod 10)"
      by (subst (asm) show_nat.simps) auto
    then show ?thesis
    proof cases
      case 1
      with "1.IH" False show ?thesis by simp
    next
      case 2
      moreover have "n mod 10 < 10" by simp
      ultimately show ?thesis by blast
    qed
  qed
qed

lemma no_dash: "CHR ''-'' \<notin> set (show_nat n)"
proof
  assume "CHR ''-'' \<in> set (show_nat n)"
  then obtain d where "d < 10" "CHR ''-'' = digit_char d" using set_show_nat by blast
  then have "char_digit CHR ''-'' = d" "d < 10" using char_digit_digit_char by metis+
  moreover have "char_digit CHR ''-'' = 0" by (simp add: char_digit_def)
  ultimately show False using \<open>CHR ''-'' = digit_char d\<close> by simp
qed

lemma dash_key_inject:
  "show_nat t @ ''-k'' @ show_nat i = show_nat u @ ''-k'' @ show_nat j \<longleftrightarrow> t = u \<and> i = j" (is "?eq \<longleftrightarrow> _")
proof
  assume eq: ?eq
  have "takeWhile (\<lambda>c. c \<noteq> CHR ''-'') (show_nat n @ ''-k'' @ rest) = show_nat n" for n rest
    using no_dash [of n] by (subst takeWhile_append2) auto
  with eq have "show_nat t = show_nat u" by metis
  with eq show "t = u \<and> i = j" by simp
qed simp

lemma show_nat_nonempty: "show_nat n \<noteq> []"
  by (subst show_nat.simps) simp

section \<open>Lists\<close>

text \<open>The elements of a list in order of first occurrence.\<close>

fun nub_from :: "'a set \<Rightarrow> 'a list \<Rightarrow> 'a list" where
  "nub_from seen [] = []"
| "nub_from seen (x # xs) =
     (if x \<in> seen then nub_from seen xs else x # nub_from (insert x seen) xs)"

abbreviation nub :: "'a list \<Rightarrow> 'a list" where
  "nub \<equiv> nub_from {}"

lemma set_nub_from: "set (nub_from seen xs) = set xs - seen"
  by (induction xs arbitrary: seen) auto

lemma distinct_nub_from: "distinct (nub_from seen xs)"
  by (induction xs arbitrary: seen) (auto simp: set_nub_from)

lemma nub_from_filter:
  "nub_from seen (filter P xs) = filter P (nub_from seen xs)"
proof (induction xs arbitrary: seen)
  case Nil
  then show ?case by simp
next
  case (Cons x xs)
  have skip: "\<not> P x \<Longrightarrow> filter P (nub_from (insert x seen) xs) = filter P (nub_from seen xs)" for seen
  proof (induction xs arbitrary: seen)
    case Nil
    then show ?case by simp
  next
    case (Cons y ys)
    then show ?case by (simp add: insert_commute [of y x])
  qed
  show ?case using Cons.IH skip by simp
qed

lemma nub_from_absorb: "set xs \<subseteq> seen \<Longrightarrow> nub_from seen xs = []"
  by (induction xs) auto

lemma nub_from_append: "nub_from seen (xs @ ys) = nub_from seen xs @ nub_from (seen \<union> set xs) ys"
  by (induction xs arbitrary: seen) (auto simp: insert_absorb)

text \<open>Splitting a string at a separator character, as \<open>str::split\<close> does: there is always
  at least one piece, and a trailing separator gives a trailing empty piece.\<close>

fun split_on :: "char \<Rightarrow> string \<Rightarrow> string list" where
  "split_on sep [] = [[]]"
| "split_on sep (c # cs) =
     (if c = sep then [] # split_on sep cs
      else (case split_on sep cs of [] \<Rightarrow> [[c]] | p # ps \<Rightarrow> (c # p) # ps))"

lemma split_on_nonempty: "split_on sep s \<noteq> []"
  by (induction s) (auto split: list.splits)

lemma split_on_no_sep: "sep \<notin> set s \<Longrightarrow> split_on sep s = [s]"
  by (induction s) auto

lemma split_on_append: "sep \<notin> set p \<Longrightarrow> split_on sep (p @ sep # s) = p # split_on sep s"
  by (induction p) auto

lemma foldl_perm:
  assumes comm: "\<And>s x y. x \<in> set xs \<Longrightarrow> y \<in> set xs \<Longrightarrow> f (f s x) y = f (f s y) x"
    and m: "mset xs = mset ys"
  shows "foldl f s xs = foldl f s ys"
proof -
  have "fold (\<lambda>x s. f s x) xs s = fold (\<lambda>x s. f s x) ys s"
    using m by (rule fold_permuted_eq [where P = "\<lambda>_. True"]) (simp_all add: comm)
  then show ?thesis by (simp add: foldl_conv_fold)
qed

lemma mset_concat_update:
  "i < length xss \<Longrightarrow> mset (concat (xss[i := xs])) + mset (xss ! i) = mset (concat xss) + mset xs"
proof (induction xss arbitrary: i)
  case (Cons ys xss)
  then show ?case by (cases i) (auto simp: ac_simps)
qed simp

section \<open>Hash maps and their iteration\<close>

definition iterates :: "('k \<rightharpoonup> 'v) \<Rightarrow> ('k \<times> 'v) list \<Rightarrow> bool" where
  "iterates m items \<longleftrightarrow> distinct (map fst items) \<and> map_of items = m"

lemma iteratesD:
  assumes "iterates m items"
  shows "distinct (map fst items)" "map_of items = m" "set items = {(k, v). m k = Some v}"
    "length items = card (dom m)" "finite (dom m)"
proof -
  show d: "distinct (map fst items)" and m: "map_of items = m"
    using assms by (auto simp: iterates_def)
  show "set items = {(k, v). m k = Some v}"
    using d by (auto simp flip: m)
  have "dom m = set (map fst items)"
    by (simp add: dom_map_of_conv_image_fst flip: m)
  then show "length items = card (dom m)" "finite (dom m)"
    using distinct_card [OF d] by simp_all
qed

lemma iterates_exists: "finite (dom m) \<Longrightarrow> \<exists>items. iterates m items"
proof -
  assume "finite (dom m)"
  then obtain ks where ks: "set ks = dom m" "distinct ks"
    by (metis finite_distinct_list)
  let ?items = "map (\<lambda>k. (k, the (m k))) ks"
  have "map_of ?items = m"
  proof
    fix k
    show "map_of ?items k = m k"
      using ks(1) by (auto simp: map_of_map_restrict restrict_map_def)
  qed
  moreover have "map fst ?items = ks" by (simp add: comp_def)
  ultimately have "iterates m ?items" using ks by (simp add: iterates_def)
  then show ?thesis ..
qed

section \<open>Ordered maps\<close>

text \<open>\<open>BTreeMap::insert\<close>, \<open>range(lo..)\<close> and \<open>retain\<close> on the entries in key order.\<close>

fun btm_insert :: "'k::linorder \<Rightarrow> 'v \<Rightarrow> ('k \<times> 'v) list \<Rightarrow> ('k \<times> 'v) list" where
  "btm_insert k v [] = [(k, v)]"
| "btm_insert k v ((k', v') # m) =
     (if k < k' then (k, v) # (k', v') # m
      else if k = k' then (k, v) # m
      else (k', v') # btm_insert k v m)"

definition btm_range_from :: "'k::linorder \<Rightarrow> ('k \<times> 'v) list \<Rightarrow> ('k \<times> 'v) list" where
  "btm_range_from lo m = filter (\<lambda>(k, v). lo \<le> k) m"

definition btm_retain :: "('k \<Rightarrow> 'v \<Rightarrow> bool) \<Rightarrow> ('k \<times> 'v) list \<Rightarrow> ('k \<times> 'v) list" where
  "btm_retain P m = filter (\<lambda>(k, v). P k v) m"

definition btm_ok :: "('k::linorder \<times> 'v) list \<Rightarrow> bool" where
  "btm_ok m \<longleftrightarrow> sorted_wrt (<) (map fst m)"

lemma btm_ok_Nil [simp]: "btm_ok []"
  by (simp add: btm_ok_def)

lemma btm_keys_insert: "fst ` set (btm_insert k v m) = insert k (fst ` set m)"
  by (induction k v m rule: btm_insert.induct) auto

lemma btm_ok_insert [intro]: "btm_ok m \<Longrightarrow> btm_ok (btm_insert k v m)"
proof (induction k v m rule: btm_insert.induct)
  case (2 k v k' v' m)
  have keys: "fst x \<in> insert k (fst ` set m)" if "x \<in> set (btm_insert k v m)" for x
    using that btm_keys_insert [of k v m] by (metis image_eqI)
  consider "k < k'" | "k = k'" | "k' < k" by fastforce
  then show ?case
  proof cases
    case 3
    with 2 have "sorted_wrt (<) (map fst (btm_insert k v m))"
      and "\<forall>x \<in> set m. k' < fst x" by (auto simp: btm_ok_def)
    with 3 keys show ?thesis by (fastforce simp: btm_ok_def)
  qed (use 2 in \<open>auto simp: btm_ok_def\<close>)
qed (simp add: btm_ok_def)

lemma map_of_btm_insert: "map_of (btm_insert k v m) = (map_of m)(k \<mapsto> v)"
  by (induction k v m rule: btm_insert.induct) (auto simp: fun_upd_twist)

lemma btm_ok_distinct: "btm_ok m \<Longrightarrow> distinct (map fst m)"
  by (simp add: btm_ok_def strict_sorted_iff)

lemma btm_ok_filter [intro]: "btm_ok m \<Longrightarrow> btm_ok (filter P m)"
proof (unfold btm_ok_def, induction m)
  case (Cons x m)
  then show ?case by (auto simp: sorted_wrt_append)
qed simp

lemma set_btm_insert:
  "btm_ok m \<Longrightarrow> set (btm_insert k v m) = insert (k, v) {(k', v') \<in> set m. k' \<noteq> k}"
proof -
  assume ok: "btm_ok m"
  have "(k', v') \<in> set (btm_insert k v m) \<longleftrightarrow> (k', v') \<in> insert (k, v) {(k', v') \<in> set m. k' \<noteq> k}" for k' v'
    using map_of_eq_Some_iff [OF btm_ok_distinct [OF btm_ok_insert [OF ok, of k v]], of k' v']
      map_of_eq_Some_iff [OF btm_ok_distinct [OF ok], of k' v']
    by (auto simp: map_of_btm_insert split: if_splits)
  then show ?thesis by auto
qed

lemma btm_insert_nonempty [simp]: "btm_insert k v m \<noteq> []"
  by (cases "(k, v, m)" rule: btm_insert.cases) auto

text \<open>Two ordered maps with the same lookup function are the same list.\<close>

lemma btm_ext: "btm_ok m \<Longrightarrow> btm_ok m' \<Longrightarrow> map_of m = map_of m' \<Longrightarrow> m = m'"
proof (rule map_sorted_distinct_set_unique [of fst])
  assume ok: "btm_ok m" "btm_ok m'" and eq: "map_of m = map_of m'"
  have "x \<in> set m \<longleftrightarrow> x \<in> set m'" for x
    using map_of_eq_Some_iff [OF btm_ok_distinct [OF ok(1)], of "fst x" "snd x"]
      map_of_eq_Some_iff [OF btm_ok_distinct [OF ok(2)], of "fst x" "snd x"] eq
    by simp
  then show "set m = set m'" by auto
  with btm_ok_distinct [OF ok(1)] show "inj_on fst (set m \<union> set m')"
    by (simp add: distinct_map)
  show "sorted (map fst m)" "sorted (map fst m')" "distinct (map fst m)" "distinct (map fst m')"
    using ok by (auto simp: btm_ok_def strict_sorted_iff)
qed

end
