(* ===== verification/Atomics.thy ===== *)
theory Atomics
  imports Prelude
begin

text \<open>
  The compare-and-swap loops of \<open>demos/src/bin/exo06_stats.rs\<close>,
  \<open>demos/src/bin/demo06_atomics_cas.rs\<close> and of \<open>StorageEngine::put_with_version\<close>.

  \<open>cas_loop\<close> is the loop of one thread: \<open>better\<close> is the guard of the loop (the new value
  against the value last read) and the list of events says what happens to the cell just
  before each attempt (another thread's store, or a spurious failure of the weak exchange).
  \<open>cas_step\<close> is the interleaving semantics: any number of threads run the loop on one cell,
  each load and each exchange being one atomic step. The locale \<open>cas_extremum\<close> holds the
  invariant of these interleavings once, for every guard that is a strict linear order;
  \<open>cas_max\<close> and \<open>cas_min\<close> are its two instances in the code.
\<close>

section \<open>One thread's loop\<close>

datatype cas_event = Spurious | Interfere u64

definition compare_exchange :: "u64 \<Rightarrow> u64 \<Rightarrow> u64 \<Rightarrow> (u64 + u64) \<times> u64" where
  "compare_exchange cell current new =
     (if cell = current then (Inr current, new) else (Inl cell, cell))"

function cas_loop ::
  "(u64 \<Rightarrow> u64 \<Rightarrow> bool) \<Rightarrow> u64 \<Rightarrow> u64 \<Rightarrow> u64 \<Rightarrow> cas_event list \<Rightarrow> u64" where
  "cas_loop better value current cell env =
     (if better value current then
        (case env of
           [] \<Rightarrow>
             (case compare_exchange cell current value of
                (Inr _, cell') \<Rightarrow> cell'
              | (Inl actual, cell') \<Rightarrow> cas_loop better value actual cell' [])
         | Spurious # env' \<Rightarrow> cas_loop better value cell cell env'
         | Interfere w # env' \<Rightarrow>
             (case compare_exchange w current value of
                (Inr _, cell') \<Rightarrow> cell'
              | (Inl actual, cell') \<Rightarrow> cas_loop better value actual cell' env'))
      else cell)"
  by pat_completeness auto
termination
  by (relation "measures [\<lambda>(_, _, _, _, env). length env,
                          \<lambda>(_, _, current, cell, _). if cell = current then 0 else 1]")
     (auto simp: compare_exchange_def split: if_splits)

declare cas_loop.simps [simp del]

lemma cas_loop_stop: "\<not> better value current \<Longrightarrow> cas_loop better value current cell env = cell"
  by (simp add: cas_loop.simps)

lemma cas_loop_quiet:
  "cas_loop better value cell cell [] = (if better value cell then value else cell)"
  by (simp add: cas_loop.simps compare_exchange_def)

text \<open>\<open>exo06_stats.rs\<close>: \<open>atomic_max\<close> and \<open>atomic_min\<close>; the result is the cell when the
  loop is left.\<close>

definition atomic_max :: "u64 \<Rightarrow> u64 \<Rightarrow> cas_event list \<Rightarrow> u64" where
  "atomic_max target value env = cas_loop (\<lambda>v current. v > current) value target target env"

definition atomic_min :: "u64 \<Rightarrow> u64 \<Rightarrow> cas_event list \<Rightarrow> u64" where
  "atomic_min target value env = cas_loop (\<lambda>v current. v < current) value target target env"

text \<open>\<open>demo06_atomics_cas.rs\<close>: the same operations with the test inside the loop.\<close>

definition demo06_atomic_max :: "u64 \<Rightarrow> u64 \<Rightarrow> cas_event list \<Rightarrow> u64" where
  "demo06_atomic_max current new_val env =
     cas_loop (\<lambda>new old. \<not> old \<ge> new) new_val current current env"

definition demo06_atomic_min :: "u64 \<Rightarrow> u64 \<Rightarrow> cas_event list \<Rightarrow> u64" where
  "demo06_atomic_min current new_val env =
     cas_loop (\<lambda>new old. \<not> old \<le> new) new_val current current env"

lemma atomic_max_quiet [simp]: "atomic_max target value [] = max target value"
  by (auto simp: atomic_max_def cas_loop_quiet max_def)

lemma atomic_min_quiet [simp]: "atomic_min target value [] = min target value"
  by (auto simp: atomic_min_def cas_loop_quiet min_def)

lemma demo06_atomic_max_eq: "demo06_atomic_max = atomic_max"
  by (simp add: fun_eq_iff demo06_atomic_max_def atomic_max_def not_le)

lemma demo06_atomic_min_eq: "demo06_atomic_min = atomic_min"
  by (simp add: fun_eq_iff demo06_atomic_min_def atomic_min_def not_le)

section \<open>Any number of threads on one cell\<close>

datatype cas_pc = Ready | Trying u64 | Left

record cas_sys =
  cs_cell :: u64
  cs_pcs :: "cas_pc list"

definition cas_init :: "u64 \<Rightarrow> u64 list \<Rightarrow> cas_sys" where
  "cas_init c0 vals = \<lparr>cs_cell = c0, cs_pcs = replicate (length vals) Ready\<rparr>"

inductive cas_step :: "(u64 \<Rightarrow> u64 \<Rightarrow> bool) \<Rightarrow> u64 list \<Rightarrow> cas_sys \<Rightarrow> cas_sys \<Rightarrow> bool"
  for better :: "u64 \<Rightarrow> u64 \<Rightarrow> bool" and vals :: "u64 list" where
  cas_load: "i < length (cs_pcs s) \<Longrightarrow> cs_pcs s ! i = Ready \<Longrightarrow>
    cas_step better vals s (s\<lparr>cs_pcs := (cs_pcs s)[i := Trying (cs_cell s)]\<rparr>)"
| cas_leave: "i < length (cs_pcs s) \<Longrightarrow> cs_pcs s ! i = Trying c \<Longrightarrow> \<not> better (vals ! i) c \<Longrightarrow>
    cas_step better vals s (s\<lparr>cs_pcs := (cs_pcs s)[i := Left]\<rparr>)"
| cas_win: "i < length (cs_pcs s) \<Longrightarrow> cs_pcs s ! i = Trying c \<Longrightarrow> better (vals ! i) c \<Longrightarrow>
    compare_exchange (cs_cell s) c (vals ! i) = (Inr old, cell') \<Longrightarrow>
    cas_step better vals s (s\<lparr>cs_cell := cell', cs_pcs := (cs_pcs s)[i := Left]\<rparr>)"
| cas_retry: "i < length (cs_pcs s) \<Longrightarrow> cs_pcs s ! i = Trying c \<Longrightarrow> better (vals ! i) c \<Longrightarrow>
    actual = cs_cell s \<Longrightarrow>
    cas_step better vals s (s\<lparr>cs_pcs := (cs_pcs s)[i := Trying actual]\<rparr>)"

definition all_left :: "cas_sys \<Rightarrow> bool" where
  "all_left s \<longleftrightarrow> (\<forall>pc \<in> set (cs_pcs s). pc = Left)"

fun pc_ok :: "(u64 \<Rightarrow> u64 \<Rightarrow> bool) \<Rightarrow> u64 \<Rightarrow> u64 \<Rightarrow> cas_pc \<Rightarrow> bool" where
  "pc_ok better cell v Ready = True"
| "pc_ok better cell v (Trying c) = (\<not> better c cell)"
| "pc_ok better cell v Left = (\<not> better v cell)"

definition cas_inv :: "(u64 \<Rightarrow> u64 \<Rightarrow> bool) \<Rightarrow> u64 list \<Rightarrow> u64 \<Rightarrow> cas_sys \<Rightarrow> bool" where
  "cas_inv better vals c0 s \<longleftrightarrow>
     length (cs_pcs s) = length vals \<and>
     cs_cell s \<in> insert c0 (set vals) \<and>
     \<not> better c0 (cs_cell s) \<and>
     (\<forall>i < length vals. pc_ok better (cs_cell s) (vals ! i) (cs_pcs s ! i))"

locale cas_extremum =
  fixes better :: "u64 \<Rightarrow> u64 \<Rightarrow> bool"
  assumes better_irrefl: "\<not> better a a"
    and better_trans: "better a b \<Longrightarrow> better b c \<Longrightarrow> better a c"
    and better_total: "a \<noteq> b \<Longrightarrow> better a b \<or> better b a"
begin

lemma not_better_trans: "\<not> better a b \<Longrightarrow> better c b \<Longrightarrow> \<not> better a c"
  by (metis better_trans)

lemma not_better_chain: "\<not> better a b \<Longrightarrow> \<not> better b c \<Longrightarrow> \<not> better a c"
  by (metis better_total better_trans)

lemma inv_init: "cas_inv better vals c0 (cas_init c0 vals)"
  by (simp add: cas_inv_def cas_init_def better_irrefl)

lemma inv_step:
  "cas_step better vals s t \<Longrightarrow> cas_inv better vals c0 s \<Longrightarrow> cas_inv better vals c0 t"
proof (induction rule: cas_step.induct)
  case (cas_load i s)
  then show ?case by (auto simp: cas_inv_def nth_list_update better_irrefl)
next
  case (cas_leave i s c)
  then have "\<not> better c (cs_cell s)" by (force simp: cas_inv_def)
  with cas_leave not_better_chain show ?case
    by (auto simp: cas_inv_def nth_list_update)
next
  case (cas_win i s c old cell')
  then have new: "cell' = vals ! i" "cs_cell s = c" and b: "better (vals ! i) (cs_cell s)"
    by (auto simp: compare_exchange_def split: if_splits)
  from b have keep: "\<not> better a (cs_cell s) \<Longrightarrow> \<not> better a (vals ! i)" for a
    by (rule not_better_trans [rotated])
  have "pc_ok better (cs_cell s) v pc \<Longrightarrow> pc_ok better (vals ! i) v pc" for v pc
    using keep by (cases pc) auto
  then have pc: "pc_ok better (vals ! i) (vals ! j) (cs_pcs s ! j)" if "j < length vals" for j
    using cas_win.prems that by (simp add: cas_inv_def)
  from cas_win.hyps(1) cas_win.prems keep pc show ?case
    by (auto simp: cas_inv_def nth_list_update new(1) better_irrefl)
next
  case (cas_retry i s c actual)
  then show ?case by (auto simp: cas_inv_def nth_list_update better_irrefl)
qed

lemma inv_reachable:
  "(cas_step better vals)\<^sup>*\<^sup>* (cas_init c0 vals) s \<Longrightarrow> cas_inv better vals c0 s"
  by (induction rule: rtranclp_induct) (auto intro: inv_init inv_step)

text \<open>The cell never gets worse.\<close>

lemma step_improves: "cas_step better vals s t \<Longrightarrow> \<not> better (cs_cell s) (cs_cell t)"
  by (induction rule: cas_step.induct)
     (auto simp: better_irrefl compare_exchange_def split: if_splits dest: better_trans)

lemma final_extremum:
  assumes "(cas_step better vals)\<^sup>*\<^sup>* (cas_init c0 vals) s" and "all_left s"
  shows "cs_cell s \<in> insert c0 (set vals)" "\<forall>v \<in> insert c0 (set vals). \<not> better v (cs_cell s)"
proof -
  from assms(1) have inv: "cas_inv better vals c0 s" by (rule inv_reachable)
  then show "cs_cell s \<in> insert c0 (set vals)" by (simp add: cas_inv_def)
  have "\<not> better (vals ! i) (cs_cell s)" if "i < length vals" for i
  proof -
    from inv that have "cs_pcs s ! i \<in> set (cs_pcs s)" by (simp add: cas_inv_def)
    with assms(2) have "cs_pcs s ! i = Left" by (simp add: all_left_def)
    with inv that show ?thesis by (force simp: cas_inv_def)
  qed
  with inv show "\<forall>v \<in> insert c0 (set vals). \<not> better v (cs_cell s)"
    by (auto simp: cas_inv_def in_set_conv_nth)
qed

text \<open>A thread that has not left the loop can always take a step.\<close>

lemma no_deadlock: "\<not> all_left s \<Longrightarrow> \<exists>t. cas_step better vals s t"
proof -
  assume "\<not> all_left s"
  then obtain i where i: "i < length (cs_pcs s)" "cs_pcs s ! i \<noteq> Left"
    by (auto simp: all_left_def in_set_conv_nth)
  show ?thesis
  proof (cases "cs_pcs s ! i")
    case Ready
    with i show ?thesis by (blast intro: cas_step.cas_load)
  next
    case (Trying c)
    with i show ?thesis
      by (cases "better (vals ! i) c") (blast intro: cas_step.cas_leave cas_step.cas_retry)+
  next
    case Left
    with i show ?thesis by simp
  qed
qed

end

interpretation cas_max: cas_extremum "\<lambda>v current. v > current"
  by unfold_locales auto

interpretation cas_min: cas_extremum "\<lambda>v current. v < current"
  by unfold_locales auto

lemma cas_max_final:
  assumes "(cas_step (\<lambda>v current. v > current) vals)\<^sup>*\<^sup>* (cas_init c0 vals) s" and "all_left s"
  shows "cs_cell s = Max (insert c0 (set vals))"
  using cas_max.final_extremum [OF assms] by (intro Max_eqI [symmetric]) (auto simp: not_less)

lemma cas_min_final:
  assumes "(cas_step (\<lambda>v current. v < current) vals)\<^sup>*\<^sup>* (cas_init c0 vals) s" and "all_left s"
  shows "cs_cell s = Min (insert c0 (set vals))"
  using cas_min.final_extremum [OF assms] by (intro Min_eqI [symmetric]) (auto simp: not_less)

section \<open>Properties\<close>

lemma cas_loop_env [simp]:
  "cas_loop better value c c (Spurious # env) =
     (if better value c then cas_loop better value c c env else c)"
  "cas_loop better value c c (Interfere w # env) =
     (if better value c then if w = c then value else cas_loop better value w w env else c)"
  by (subst cas_loop.simps, simp add: compare_exchange_def)+

lemma cas_loop_result:
  assumes "\<And>a. \<not> better a a"
  shows "\<not> better value (cas_loop better value cell cell env)"
    and "cas_loop better value cell cell env \<in> {cell, value} \<union> {w. Interfere w \<in> set env}"
proof (induction env arbitrary: cell)
  case Nil
  case 1 show ?case using assms by (simp add: cas_loop_quiet)
  case 2 show ?case by (simp add: cas_loop_quiet)
next
  case (Cons ev env)
  { case 1 show ?case using Cons.IH(1) assms by (cases ev) auto
  next
    case 2 show ?case using Cons.IH(2) by (cases ev) auto }
qed

definition cas_example :: cas_sys where
  "cas_example = \<lparr>cs_cell = 7, cs_pcs = [Left, Left]\<rparr>"

lemma cas_example_reached: "(cas_step (\<lambda>v current. v > current) [7, 5])\<^sup>*\<^sup>* (cas_init 3 [7, 5]) cas_example"
proof -
  let ?step = "cas_step (\<lambda>v current. v > current) [7, 5]"
  have s1: "?step (cas_init 3 [7, 5]) \<lparr>cs_cell = 3, cs_pcs = [Trying 3, Ready]\<rparr>"
    using cas_load [of 0 "cas_init 3 [7, 5]"] by (simp add: cas_init_def)
  have s2: "?step \<lparr>cs_cell = 3, cs_pcs = [Trying 3, Ready]\<rparr> \<lparr>cs_cell = 3, cs_pcs = [Trying 3, Trying 3]\<rparr>"
    using cas_load [of 1 "\<lparr>cs_cell = 3, cs_pcs = [Trying 3, Ready]\<rparr>"] by simp
  have s3: "?step \<lparr>cs_cell = 3, cs_pcs = [Trying 3, Trying 3]\<rparr> \<lparr>cs_cell = 7, cs_pcs = [Left, Trying 3]\<rparr>"
    using cas_win [of 0 "\<lparr>cs_cell = 3, cs_pcs = [Trying 3, Trying 3]\<rparr>" 3 _ "[7, 5]"]
    by (simp add: compare_exchange_def)
  have s4: "?step \<lparr>cs_cell = 7, cs_pcs = [Left, Trying 3]\<rparr> \<lparr>cs_cell = 7, cs_pcs = [Left, Trying 7]\<rparr>"
    using cas_retry [of 1 "\<lparr>cs_cell = 7, cs_pcs = [Left, Trying 3]\<rparr>" 3 _ "[7, 5]"] by simp
  have s5: "?step \<lparr>cs_cell = 7, cs_pcs = [Left, Trying 7]\<rparr> cas_example"
    using cas_leave [of 1 "\<lparr>cs_cell = 7, cs_pcs = [Left, Trying 7]\<rparr>" 7 _ "[7, 5]"]
    by (simp add: cas_example_def)
  note rt = rtranclp.rtrancl_into_rtrancl
  show ?thesis
    by (rule rt, rule rt, rule rt, rule rt, rule rt, rule rtranclp.rtrancl_refl)
       (rule s1 s2 s3 s4 s5)+
qed

text \<open>Concurrent maximum: any number of threads run the CAS loop with the guard \<open>value > current\<close>
  on one cell, in any interleaving, with spurious failures. When all have left the loop the cell
  holds the maximum of its initial value and all the values, so no update is lost. The loops
  are those of \<open>atomic_max\<close> and of the version counter of \<open>put_with_version\<close>.\<close>

theorem concurrent_cas_max:
  assumes "(cas_step (\<lambda>v current. v > current) vals)\<^sup>*\<^sup>* (cas_init c0 vals) s" and "all_left s"
  shows "cs_cell s = Max (insert c0 (set vals))"
  using assms by (rule cas_max_final)

theorem concurrent_cas_max_witness: "cs_cell cas_example = Max {3, 7, 5}"
  using concurrent_cas_max [OF cas_example_reached]
  by (simp add: cas_example_def all_left_def insert_commute)

text \<open>One thread's loop under interference: whatever the other threads store in the cell between
  its attempts and however often the weak exchange fails spuriously, \<open>atomic_max\<close> returns and
  leaves in the cell a value that is not below its own and that was the cell's, its own or another
  thread's; without interference it leaves the maximum of the two, and \<open>atomic_min\<close> dually.\<close>

theorem atomic_extremum_correct:
  "(value \<le> atomic_max target value env \<and>
    atomic_max target value env \<in> {target, value} \<union> {w. Interfere w \<in> set env}) \<and>
   (atomic_min target value env \<le> value \<and>
    atomic_min target value env \<in> {target, value} \<union> {w. Interfere w \<in> set env}) \<and>
   atomic_max target value [] = max target value \<and> atomic_min target value [] = min target value"
proof -
  note up = cas_loop_result [of "\<lambda>v current. v > current" "value" target env]
  note down = cas_loop_result [of "\<lambda>v current. v < current" "value" target env]
  show ?thesis
    using up down by (simp add: not_less flip: atomic_max_def atomic_min_def)
qed
end
