(* ===== verification/Storage.thy ===== *)
theory Storage
  imports Atomics "HOL-Library.Sublist"
begin

text \<open>
  The local storage engine, \<open>tp-kv-distributed/src/storage.rs\<close>.

  The engine is a map from keys to versioned entries with an optional time to live, a version
  counter and operation counters. Every operation takes the clock reading it makes as an
  argument (\<open>now\<close>, or a function \<open>clk\<close> from keys to instants where one call reads the clock
  once per visited entry) and returns the new engine. The order in which the sharded map yields
  its entries is an argument of \<open>engine_scan\<close> and \<open>engine_purge_expired\<close>.

  The locale \<open>ttl_store\<close> is the contract the replication layer relies on: seen through \<open>live\<close>,
  the map of entries that are not expired at an instant, the engine is a plain map.
\<close>

section \<open>Entries and counters\<close>

record value_entry =
  ve_data :: "u8 list"
  ve_version :: u64
  ve_created_at :: instant
  ve_ttl :: "duration option"

definition is_expired :: "instant \<Rightarrow> value_entry \<Rightarrow> bool" where
  "is_expired now e =
     (case ve_ttl e of
        Some ttl \<Rightarrow> elapsed now (ve_created_at e) > ttl
      | None \<Rightarrow> False)"

record storage_stats =
  st_gets :: u64
  st_puts :: u64
  st_deletes :: u64
  st_hits :: u64
  st_misses :: u64
  st_expired :: u64

definition storage_stats_default :: storage_stats where
  "storage_stats_default =
     \<lparr>st_gets = 0, st_puts = 0, st_deletes = 0, st_hits = 0, st_misses = 0, st_expired = 0\<rparr>"

record stats_snapshot =
  ss_gets :: u64
  ss_puts :: u64
  ss_deletes :: u64
  ss_hits :: u64
  ss_misses :: u64
  ss_expired :: u64

definition stats_take_snapshot :: "storage_stats \<Rightarrow> stats_snapshot" where
  "stats_take_snapshot st =
     \<lparr>ss_gets = st_gets st, ss_puts = st_puts st, ss_deletes = st_deletes st,
      ss_hits = st_hits st, ss_misses = st_misses st, ss_expired = st_expired st\<rparr>"

section \<open>The engine and its operations\<close>

record storage_engine =
  se_store :: "string \<rightharpoonup> value_entry"
  se_version_counter :: u64
  se_stats :: storage_stats

definition engine_new :: storage_engine where
  "engine_new =
     \<lparr>se_store = Map.empty, se_version_counter = 0, se_stats = storage_stats_default\<rparr>"

definition engine_with_capacity :: "usize \<Rightarrow> storage_engine" where
  "engine_with_capacity cap =
     \<lparr>se_store = Map.empty, se_version_counter = 0, se_stats = storage_stats_default\<rparr>"

definition engine_get ::
  "instant \<Rightarrow> string \<Rightarrow> storage_engine \<Rightarrow> value_entry option \<times> storage_engine" where
  "engine_get now key s =
     (let s = s\<lparr>se_stats := (se_stats s)\<lparr>st_gets := st_gets (se_stats s) + 1\<rparr>\<rparr>;
          entry = se_store s key
      in case entry of
           Some e \<Rightarrow>
             if is_expired now e then
               (None,
                s\<lparr>se_store := (se_store s)(key := None),
                  se_stats := (se_stats s)\<lparr>st_expired := st_expired (se_stats s) + 1,
                                           st_misses := st_misses (se_stats s) + 1\<rparr>\<rparr>)
             else
               (Some e, s\<lparr>se_stats := (se_stats s)\<lparr>st_hits := st_hits (se_stats s) + 1\<rparr>\<rparr>)
         | None \<Rightarrow>
             (None, s\<lparr>se_stats := (se_stats s)\<lparr>st_misses := st_misses (se_stats s) + 1\<rparr>\<rparr>))"

definition engine_put ::
  "instant \<Rightarrow> string \<Rightarrow> u8 list \<Rightarrow> duration option \<Rightarrow> storage_engine \<Rightarrow> u64 \<times> storage_engine" where
  "engine_put now key data ttl s =
     (let s = s\<lparr>se_stats := (se_stats s)\<lparr>st_puts := st_puts (se_stats s) + 1\<rparr>\<rparr>;
          version = se_version_counter s + 1;
          s = s\<lparr>se_version_counter := se_version_counter s + 1\<rparr>;
          entry = \<lparr>ve_data = data, ve_version = version, ve_created_at = now, ve_ttl = ttl\<rparr>
      in (version, s\<lparr>se_store := (se_store s)(key \<mapsto> entry)\<rparr>))"

text \<open>The counter loop of \<open>put_with_version\<close>: the strong exchange, with no other writer during
  the call; \<open>Atomics\<close> treats the interleavings.\<close>

definition raise_counter :: "u64 \<Rightarrow> u64 \<Rightarrow> u64" where
  "raise_counter version counter =
     (let cur = counter in cas_loop (\<lambda>version cur. version > cur) version cur counter [])"

definition engine_put_with_version ::
  "instant \<Rightarrow> string \<Rightarrow> u8 list \<Rightarrow> u64 \<Rightarrow> duration option \<Rightarrow> storage_engine \<Rightarrow>
   bool \<times> storage_engine" where
  "engine_put_with_version now key data version ttl s =
     (let s = s\<lparr>se_version_counter := raise_counter version (se_version_counter s)\<rparr>;
          stale = (case se_store s key of
                     Some existing \<Rightarrow> ve_version existing \<ge> version
                   | None \<Rightarrow> False)
      in if stale then (False, s)
         else
           (let entry = \<lparr>ve_data = data, ve_version = version, ve_created_at = now, ve_ttl = ttl\<rparr>;
                s = s\<lparr>se_store := (se_store s)(key \<mapsto> entry)\<rparr>;
                s = s\<lparr>se_stats := (se_stats s)\<lparr>st_puts := st_puts (se_stats s) + 1\<rparr>\<rparr>
            in (True, s)))"

definition engine_delete :: "string \<Rightarrow> storage_engine \<Rightarrow> bool \<times> storage_engine" where
  "engine_delete key s =
     (let s = s\<lparr>se_stats := (se_stats s)\<lparr>st_deletes := st_deletes (se_stats s) + 1\<rparr>\<rparr>
      in (se_store s key \<noteq> None, s\<lparr>se_store := (se_store s)(key := None)\<rparr>))"

text \<open>The loop of \<open>scan\<close> over the entries the map yields, and the final sort by key.\<close>

fun scan_loop ::
  "(string \<Rightarrow> instant) \<Rightarrow> string \<Rightarrow> usize \<Rightarrow> (string \<times> value_entry) list \<Rightarrow>
   (string \<times> value_entry) list \<Rightarrow> (string \<times> value_entry) list" where
  "scan_loop clk pfx limit [] result = result"
| "scan_loop clk pfx limit ((k, e) # items) result =
     (if length result \<ge> limit then result
      else if prefix pfx k then
        (if \<not> is_expired (clk k) e then scan_loop clk pfx limit items (result @ [(k, e)])
         else scan_loop clk pfx limit items result)
      else scan_loop clk pfx limit items result)"

definition engine_scan ::
  "(string \<Rightarrow> instant) \<Rightarrow> string \<Rightarrow> usize \<Rightarrow> (string \<times> value_entry) list \<Rightarrow>
   (string \<times> value_entry) list" where
  "engine_scan clk pfx limit items = sort_key fst (scan_loop clk pfx limit items [])"

definition engine_len :: "storage_engine \<Rightarrow> usize" where
  "engine_len s = card (dom (se_store s))"

definition engine_is_empty :: "storage_engine \<Rightarrow> bool" where
  "engine_is_empty s = (engine_len s = 0)"

definition engine_purge_expired ::
  "(string \<Rightarrow> instant) \<Rightarrow> (string \<times> value_entry) list \<Rightarrow> storage_engine \<Rightarrow> usize \<times> storage_engine" where
  "engine_purge_expired clk items s =
     (let expired_keys = map fst (filter (\<lambda>(k, e). is_expired (clk k) e) items);
          count = length expired_keys;
          s = s\<lparr>se_store := foldl (\<lambda>m k. m(k := None)) (se_store s) expired_keys\<rparr>;
          s = s\<lparr>se_stats := (se_stats s)\<lparr>st_expired := st_expired (se_stats s) + of_nat count\<rparr>\<rparr>
      in (count, s))"

section \<open>Invariant\<close>

definition engine_inv :: "storage_engine \<Rightarrow> bool" where
  "engine_inv s \<longleftrightarrow>
     finite (dom (se_store s)) \<and>
     (\<forall>k e. se_store s k = Some e \<longrightarrow> ve_version e \<le> se_version_counter s)"

definition live :: "instant \<Rightarrow> storage_engine \<Rightarrow> string \<rightharpoonup> value_entry" where
  "live now s k =
     (case se_store s k of
        Some e \<Rightarrow> if is_expired now e then None else Some e
      | None \<Rightarrow> None)"

lemmas engine_defs [engine_simps] =
  engine_get_def engine_put_def engine_put_with_version_def engine_delete_def Let_def

lemma raise_counter_eq [simp]: "raise_counter version counter = max version counter"
  by (auto simp: raise_counter_def cas_loop_quiet max_def)

lemma foldl_remove_keys:
  "foldl (\<lambda>m k. m(k := None)) m ks = (\<lambda>k. if k \<in> set ks then None else m k)"
  by (induction ks arbitrary: m) (auto simp: fun_eq_iff)

lemma is_expired_mono: "is_expired t e \<Longrightarrow> t \<le> t' \<Longrightarrow> is_expired t' e"
  by (auto simp: is_expired_def elapsed_def split: option.splits)

lemma is_expired_iff:
  "is_expired now e \<longleftrightarrow> (\<exists>ttl. ve_ttl e = Some ttl \<and> ve_created_at e + ttl < now)"
  by (auto simp: is_expired_def elapsed_def split: option.splits)

lemma live_engine_new [simp]: "live now engine_new = Map.empty"
  by (simp add: live_def engine_new_def fun_eq_iff)

lemma live_put:
  "live t (snd (engine_put now key data ttl s)) =
     (live t s)(key := (let e = \<lparr>ve_data = data, ve_version = se_version_counter s + 1,
                                 ve_created_at = now, ve_ttl = ttl\<rparr>
                        in if is_expired t e then None else Some e))"
  by (auto simp: live_def fun_eq_iff engine_simps)

lemma live_get: "now \<le> t \<Longrightarrow> live t (snd (engine_get now key s)) = live t s"
  by (auto simp: live_def fun_eq_iff engine_simps split: option.splits dest: is_expired_mono)

lemma fst_engine_get: "fst (engine_get now key s) = live now s key"
  by (auto simp: live_def engine_simps split: option.splits)

lemma live_delete: "live t (snd (engine_delete key s)) = (live t s)(key := None)"
  by (auto simp: live_def fun_eq_iff engine_simps)

lemma live_purge:
  "(\<And>k. clk k \<le> t) \<Longrightarrow> iterates (se_store s) items \<Longrightarrow>
   live t (snd (engine_purge_expired clk items s)) = live t s"
  by (auto simp: live_def fun_eq_iff engine_purge_expired_def Let_def foldl_remove_keys
        iteratesD(3) image_iff split: option.splits dest: is_expired_mono)

lemma engine_inv_new: "engine_inv engine_new"
  by (simp add: engine_inv_def engine_new_def)

lemma engine_inv_get: "engine_inv s \<Longrightarrow> engine_inv (snd (engine_get now key s))"
  by (auto simp: engine_inv_def engine_simps split: option.splits)

lemma word_le_Suc: "(x :: u64) \<le> y \<Longrightarrow> y \<noteq> u64_max \<Longrightarrow> x \<le> y + 1"
  by (simp add: word_le_nat_alt unat_Suc_u64)

lemma engine_inv_put:
  "engine_inv s \<Longrightarrow> se_version_counter s \<noteq> u64_max \<Longrightarrow>
   engine_inv (snd (engine_put now key data ttl s))"
  by (auto simp: engine_inv_def engine_simps intro: word_le_Suc)

lemma engine_inv_put_with_version:
  "engine_inv s \<Longrightarrow> engine_inv (snd (engine_put_with_version now key data version ttl s))"
proof -
  assume "engine_inv s"
  then have "engine_inv (s\<lparr>se_version_counter := max version (se_version_counter s)\<rparr>)"
    by (auto simp: engine_inv_def le_max_iff_disj)
  then show ?thesis by (auto simp: engine_inv_def engine_simps)
qed

lemma engine_inv_delete: "engine_inv s \<Longrightarrow> engine_inv (snd (engine_delete key s))"
  by (auto simp: engine_inv_def engine_simps)

lemma engine_inv_purge: "engine_inv s \<Longrightarrow> engine_inv (snd (engine_purge_expired clk items s))"
proof -
  assume inv: "engine_inv s"
  have "dom (foldl (\<lambda>m k. m(k := None)) (se_store s) ks) \<subseteq> dom (se_store s)" for ks
    by (auto simp: foldl_remove_keys split: if_splits)
  with inv show ?thesis
    by (auto simp: engine_inv_def engine_purge_expired_def Let_def intro: finite_subset)
       (auto simp: foldl_remove_keys split: if_splits)
qed

lemmas engine_inv_intros [intro] =
  engine_inv_new engine_inv_get engine_inv_put engine_inv_put_with_version engine_inv_delete
  engine_inv_purge

section \<open>The contract towards the replication layer\<close>

locale ttl_store =
  fixes get :: "instant \<Rightarrow> string \<Rightarrow> 's \<Rightarrow> value_entry option \<times> 's"
    and put :: "instant \<Rightarrow> string \<Rightarrow> u8 list \<Rightarrow> duration option \<Rightarrow> 's \<Rightarrow> u64 \<times> 's"
    and del :: "string \<Rightarrow> 's \<Rightarrow> bool \<times> 's"
    and vis :: "instant \<Rightarrow> 's \<Rightarrow> string \<rightharpoonup> value_entry"
  assumes get_value: "fst (get now k s) = vis now s k"
    and get_frame: "now \<le> t \<Longrightarrow> vis t (snd (get now k s)) = vis t s"
    and put_vis: "vis t (snd (put now k data ttl s)) =
        (vis t s)(k := (let e = \<lparr>ve_data = data, ve_version = fst (put now k data ttl s),
                                  ve_created_at = now, ve_ttl = ttl\<rparr>
                        in if is_expired t e then None else Some e))"
    and del_vis: "vis t (snd (del k s)) = (vis t s)(k := None)"
    and vis_decay: "vis t' s k = Some e \<Longrightarrow> t \<le> t' \<Longrightarrow> vis t s k = Some e"
begin

lemma read_your_write:
  "(case ttl of None \<Rightarrow> True | Some d \<Rightarrow> t \<le> now + d) \<Longrightarrow>
   fst (get t k (snd (put now k data ttl s))) =
     Some \<lparr>ve_data = data, ve_version = fst (put now k data ttl s),
           ve_created_at = now, ve_ttl = ttl\<rparr>"
  by (auto simp: get_value put_vis Let_def is_expired_iff split: option.splits)

lemma read_after_expiry:
  "ttl = Some d \<Longrightarrow> now + d < t \<Longrightarrow> fst (get t k (snd (put now k data ttl s))) = None"
  by (simp add: get_value put_vis Let_def is_expired_iff)

lemma read_other_key: "k' \<noteq> k \<Longrightarrow> fst (get t k' (snd (put now k data ttl s))) = fst (get t k' s)"
  by (simp add: get_value put_vis)

lemma read_after_delete: "fst (get t k (snd (del k s))) = None"
  by (simp add: get_value del_vis)

lemma read_is_stable: "now \<le> t \<Longrightarrow> fst (get t k (snd (get now k' s))) = fst (get t k s)"
  by (simp add: get_value get_frame)

lemma gone_stays_gone: "fst (get t k s) = None \<Longrightarrow> t \<le> t' \<Longrightarrow> fst (get t' k s) = None"
  by (cases "vis t' s k") (auto simp: get_value dest: vis_decay)

end

interpretation engine: ttl_store engine_get engine_put engine_delete live
proof unfold_locales
  show "live t (snd (engine_put now k data ttl s)) =
        (live t s)(k := (let e = \<lparr>ve_data = data, ve_version = fst (engine_put now k data ttl s),
                                  ve_created_at = now, ve_ttl = ttl\<rparr>
                        in if is_expired t e then None else Some e))" for t now k data ttl s
    by (simp add: live_put) (simp add: engine_simps)
  show "live t' s k = Some e \<Longrightarrow> t \<le> t' \<Longrightarrow> live t s k = Some e" for t' s k e t
    by (auto simp: live_def split: option.splits if_splits dest: is_expired_mono)
qed (simp_all add: fst_engine_get live_get live_delete)

section \<open>Scanning\<close>

definition scan_match :: "(string \<Rightarrow> instant) \<Rightarrow> string \<Rightarrow> string \<times> value_entry \<Rightarrow> bool" where
  "scan_match clk pfx = (\<lambda>(k, e). prefix pfx k \<and> \<not> is_expired (clk k) e)"

lemma scan_loop_eq:
  "length result \<le> limit \<Longrightarrow>
   scan_loop clk pfx limit items result =
     result @ take (limit - length result) (filter (scan_match clk pfx) items)"
proof (induction clk pfx limit items result rule: scan_loop.induct)
  case (2 clk pfx limit k e items result)
  show ?case
  proof (cases "length result \<ge> limit")
    case True
    with 2 show ?thesis by simp
  next
    case False
    then have "limit - length result = Suc (limit - Suc (length result))" by simp
    with 2 False show ?thesis by (simp add: scan_match_def)
  qed
qed simp

lemma engine_scan_eq:
  "engine_scan clk pfx limit items = sort_key fst (take limit (filter (scan_match clk pfx) items))"
  by (simp add: engine_scan_def scan_loop_eq)

section \<open>Runs of operations\<close>

datatype engine_op =
    OGet instant string
  | OPut instant string "u8 list" "duration option"
  | OReplicate instant string "u8 list" u64 "duration option"
  | ODelete string
  | OPurge "string \<Rightarrow> instant" "(string \<times> value_entry) list"

fun exec_op :: "engine_op \<Rightarrow> storage_engine \<Rightarrow> u64 list \<times> storage_engine" where
  "exec_op (OGet now key) s = ([], snd (engine_get now key s))"
| "exec_op (OPut now key data ttl) s =
     (let (v, s') = engine_put now key data ttl s in ([v], s'))"
| "exec_op (OReplicate now key data version ttl) s =
     ([], snd (engine_put_with_version now key data version ttl s))"
| "exec_op (ODelete key) s = ([], snd (engine_delete key s))"
| "exec_op (OPurge clk items) s = ([], snd (engine_purge_expired clk items s))"

fun exec_ops :: "engine_op list \<Rightarrow> storage_engine \<Rightarrow> u64 list \<times> storage_engine" where
  "exec_ops [] s = ([], s)"
| "exec_ops (op # ops) s =
     (let (vs, s') = exec_op op s; (vs', s'') = exec_ops ops s' in (vs @ vs', s''))"

fun replicated_versions :: "engine_op list \<Rightarrow> u64 list" where
  "replicated_versions [] = []"
| "replicated_versions (OReplicate now key data version ttl # ops) =
     version # replicated_versions ops"
| "replicated_versions (op # ops) = replicated_versions ops"

lemma exec_op_counter:
  "se_version_counter (snd (exec_op op s)) =
     (case op of
        OPut now key data ttl \<Rightarrow> se_version_counter s + 1
      | OReplicate now key data version ttl \<Rightarrow> max version (se_version_counter s)
      | _ \<Rightarrow> se_version_counter s)"
  by (cases op) (auto simp: engine_simps engine_purge_expired_def split: option.splits)

lemma exec_op_versions:
  "fst (exec_op op s) =
     (case op of OPut now key data ttl \<Rightarrow> [se_version_counter s + 1] | _ \<Rightarrow> [])"
  by (cases op) (auto simp: engine_simps)

lemma replicated_versions_Cons:
  "replicated_versions (op # ops) = replicated_versions [op] @ replicated_versions ops"
  by (cases op) auto

text \<open>One operation against a bound \<open>B\<close> on every version seen so far.\<close>

definition op_advances :: "u64 \<Rightarrow> u64 list \<Rightarrow> u64 list \<Rightarrow> u64 \<Rightarrow> bool" where
  "op_advances c rs vs c' \<longleftrightarrow>
     sorted_wrt (<) vs \<and> (\<forall>v \<in> set vs. c < v) \<and> c \<le> c' \<and> (\<forall>v \<in> set rs \<union> set vs. v \<le> c')"

lemma op_advances_trans:
  "op_advances c rs vs c' \<Longrightarrow> op_advances c' rs' vs' c'' \<Longrightarrow>
   op_advances c (rs @ rs') (vs @ vs') c''"
  unfolding op_advances_def sorted_wrt_append set_append ball_Un
  by (meson order.strict_trans1 order.strict_trans2 order_trans)

lemma exec_op_advances:
  assumes "unat (se_version_counter s) \<le> B" "B + 1 < 2 ^ 64"
  shows "op_advances (se_version_counter s) (replicated_versions [op]) (fst (exec_op op s))
           (se_version_counter (snd (exec_op op s)))"
proof -
  have "se_version_counter s \<noteq> u64_max" using assms by auto
  then have "se_version_counter s < se_version_counter s + 1"
    by (simp add: word_less_nat_alt unat_Suc_u64)
  then show ?thesis
    by (auto simp: op_advances_def exec_op_counter exec_op_versions split: engine_op.split)
qed

lemma exec_op_bound:
  assumes "unat (se_version_counter s) \<le> B" "B + 1 < 2 ^ 64"
    and "\<forall>v \<in> set (replicated_versions [op]). unat v \<le> B"
  shows "unat (se_version_counter (snd (exec_op op s))) \<le> B + 1"
proof -
  have "se_version_counter s \<noteq> u64_max" using assms(1,2) by auto
  then have "unat (se_version_counter s + 1) \<le> B + 1"
    using assms(1) by (simp add: unat_Suc_u64)
  with assms show ?thesis
    unfolding exec_op_counter by (cases op) (simp_all add: max_def)
qed

lemma exec_ops_advances:
  assumes "unat (se_version_counter s) \<le> B" "B + length ops < 2 ^ 64"
    and "\<forall>v \<in> set (replicated_versions ops). unat v \<le> B"
  shows "op_advances (se_version_counter s) (replicated_versions ops) (fst (exec_ops ops s))
           (se_version_counter (snd (exec_ops ops s)))"
  using assms
proof (induction ops arbitrary: s B)
  case Nil
  then show ?case by (simp add: op_advances_def)
next
  case (Cons op ops)
  obtain vs s' where op: "exec_op op s = (vs, s')" by fastforce
  obtain vs' s'' where ops: "exec_ops ops s' = (vs', s'')" by fastforce
  note seen = replicated_versions_Cons [of op ops]
  have B1: "B + 1 < 2 ^ 64" and one: "\<forall>v \<in> set (replicated_versions [op]). unat v \<le> B"
    using Cons.prems(2,3) unfolding seen by auto
  have "unat (se_version_counter s') \<le> B + 1"
    using exec_op_bound [OF Cons.prems(1) B1 one] by (simp add: op)
  moreover have "B + 1 + length ops < 2 ^ 64" using Cons.prems(2) by simp
  moreover have "\<forall>v \<in> set (replicated_versions ops). unat v \<le> B + 1"
    using Cons.prems(3) unfolding seen by (auto intro: le_SucI)
  ultimately have "op_advances (se_version_counter s') (replicated_versions ops) vs'
      (se_version_counter s'')"
    using Cons.IH [of s' "B + 1"] by (simp add: ops)
  with exec_op_advances [OF Cons.prems(1) B1, of op] show ?case
    unfolding seen by (auto simp: op ops intro: op_advances_trans)
qed

definition stats_balanced :: "storage_engine \<Rightarrow> bool" where
  "stats_balanced s \<longleftrightarrow> st_gets (se_stats s) = st_hits (se_stats s) + st_misses (se_stats s)"

lemma exec_op_balanced: "stats_balanced s \<Longrightarrow> stats_balanced (snd (exec_op op s))"
  by (cases op)
     (auto simp: stats_balanced_def engine_simps engine_purge_expired_def algebra_simps
       split: option.splits)

lemma exec_ops_balanced: "stats_balanced s \<Longrightarrow> stats_balanced (snd (exec_ops ops s))"
  by (induction ops arbitrary: s) (auto simp: split_def Let_def exec_op_balanced)

section \<open>Delivery order of replicated writes\<close>

type_synonym replica_write = "instant \<times> u8 list \<times> u64 \<times> duration option"

fun replica_entry :: "replica_write \<Rightarrow> value_entry" where
  "replica_entry (now, data, version, ttl) =
     \<lparr>ve_data = data, ve_version = version, ve_created_at = now, ve_ttl = ttl\<rparr>"

fun deliver :: "string \<Rightarrow> storage_engine \<Rightarrow> replica_write \<Rightarrow> storage_engine" where
  "deliver key s (now, data, version, ttl) =
     snd (engine_put_with_version now key data version ttl s)"

fun newer :: "value_entry option \<Rightarrow> value_entry \<Rightarrow> value_entry option" where
  "newer None e = Some e"
| "newer (Some x) e = (if ve_version x \<ge> ve_version e then Some x else Some e)"

lemma deliver_store:
  "se_store (deliver key s w) = (se_store s)(key := newer (se_store s key) (replica_entry w))"
  by (cases w) (auto simp: engine_simps fun_eq_iff split: option.splits)

lemma deliver_counter:
  "se_version_counter (deliver key s w) = max (ve_version (replica_entry w)) (se_version_counter s)"
  by (cases w) (auto simp: engine_simps split: option.splits)

lemma foldl_deliver_store:
  "se_store (foldl (deliver key) s ws) =
     (se_store s)(key := foldl newer (se_store s key) (map replica_entry ws))"
  by (induction ws arbitrary: s) (auto simp: deliver_store)

lemma foldl_deliver_counter:
  "se_version_counter (foldl (deliver key) s ws) =
     foldl (\<lambda>c w. max (ve_version (replica_entry w)) c) (se_version_counter s) ws"
  by (induction ws arbitrary: s) (auto simp: deliver_counter)

lemma newer_commute:
  "ve_version a \<noteq> ve_version b \<or> a = b \<Longrightarrow> newer (newer x a) b = newer (newer x b) a"
  by (cases x) auto

lemma foldl_newer_version:
  "foldl newer x es = Some e \<Longrightarrow>
   e \<in> set es \<union> set_option x \<and> (\<forall>e' \<in> set es \<union> set_option x. ve_version e' \<le> ve_version e)"
proof (induction es arbitrary: x)
  case (Cons a es)
  then have "foldl newer (newer x a) es = Some e" by simp
  from Cons.IH [OF this] show ?case by (cases x) (auto split: if_splits intro: order_trans)
qed auto

lemma deliver_perm:
  assumes "inj_on (ve_version \<circ> replica_entry) (set ws)" and "mset ws = mset ws'"
  shows "se_store (foldl (deliver key) s ws) = se_store (foldl (deliver key) s ws')"
    and "se_version_counter (foldl (deliver key) s ws) = se_version_counter (foldl (deliver key) s ws')"
proof -
  have "foldl newer (se_store s key) (map replica_entry ws) =
      foldl newer (se_store s key) (map replica_entry ws')"
  proof (rule foldl_perm)
    show "mset (map replica_entry ws) = mset (map replica_entry ws')"
      using assms(2) by simp
    show "newer (newer x a) b = newer (newer x b) a"
      if "a \<in> set (map replica_entry ws)" "b \<in> set (map replica_entry ws)" for x a b
    proof -
      from that obtain v w where "v \<in> set ws" "w \<in> set ws" "a = replica_entry v" "b = replica_entry w"
        by auto
      with assms(1) show ?thesis
        by (intro newer_commute) (metis comp_apply inj_onD)
    qed
  qed
  then show "se_store (foldl (deliver key) s ws) = se_store (foldl (deliver key) s ws')"
    by (simp only: foldl_deliver_store)
  show "se_version_counter (foldl (deliver key) s ws) = se_version_counter (foldl (deliver key) s ws')"
    unfolding foldl_deliver_counter using assms(2) by (intro foldl_perm) (auto simp: max.left_commute)
qed

lemma deliver_newest:
  assumes "ws \<noteq> []"
  shows "\<exists>e. se_store (foldl (deliver key) s ws) key = Some e \<and>
    e \<in> replica_entry ` set ws \<union> set_option (se_store s key) \<and>
    (\<forall>w \<in> set ws. ve_version (replica_entry w) \<le> ve_version e)"
proof -
  have "foldl newer x es \<noteq> None" if "x \<noteq> None \<or> es \<noteq> []" for x es
    using that
  proof (induction es arbitrary: x)
    case (Cons a es)
    have "newer x a \<noteq> None" by (cases x) auto
    with Cons.IH [of "newer x a"] show ?case by simp
  qed simp
  then obtain e where e: "foldl newer (se_store s key) (map replica_entry ws) = Some e"
    using assms by fastforce
  from foldl_newer_version [OF this] show ?thesis
    by (auto simp: foldl_deliver_store e)
qed

section \<open>Reads against the history of writes\<close>

text \<open>The last write to a key in a run of local operations: what a \<open>get\<close> ought to see before
  the time to live is applied. \<open>n\<close> is the version counter before the run.\<close>

fun last_write :: "string \<Rightarrow> u64 \<Rightarrow> value_entry option \<Rightarrow> engine_op list \<Rightarrow> value_entry option" where
  "last_write key n e [] = e"
| "last_write key n e (OPut now k data ttl # ops) =
     last_write key (n + 1)
       (if k = key then Some \<lparr>ve_data = data, ve_version = n + 1, ve_created_at = now, ve_ttl = ttl\<rparr>
        else e) ops"
| "last_write key n e (ODelete k # ops) = last_write key n (if k = key then None else e) ops"
| "last_write key n e (op # ops) = last_write key n e ops"

definition unexpired :: "instant \<Rightarrow> value_entry option \<Rightarrow> value_entry option" where
  "unexpired t e = (case e of Some e \<Rightarrow> if is_expired t e then None else Some e | None \<Rightarrow> None)"

text \<open>Local operations whose clock readings are not after \<open>t\<close>, and purges that visit entries
  the map holds.\<close>

fun op_before :: "instant \<Rightarrow> engine_op \<Rightarrow> storage_engine \<Rightarrow> bool" where
  "op_before t (OGet now key) s = (now \<le> t)"
| "op_before t (OPut now key data ttl) s = (now \<le> t)"
| "op_before t (OReplicate now key data version ttl) s = False"
| "op_before t (ODelete key) s = True"
| "op_before t (OPurge clk items) s =
     (\<forall>(k, e) \<in> set items. clk k \<le> t \<and> se_store s k = Some e)"

fun ops_before :: "instant \<Rightarrow> engine_op list \<Rightarrow> storage_engine \<Rightarrow> bool" where
  "ops_before t [] s = True"
| "ops_before t (op # ops) s = (op_before t op s \<and> ops_before t ops (snd (exec_op op s)))"

lemma unexpired_live: "unexpired t (se_store s k) = live t s k"
  by (simp add: unexpired_def live_def)

lemma live_purge_some:
  assumes "\<forall>(k, e) \<in> set items. clk k \<le> t \<and> se_store s k = Some e"
  shows "live t (snd (engine_purge_expired clk items s)) k = live t s k"
proof -
  let ?K = "fst ` {x \<in> set items. is_expired (clk (fst x)) (snd x)}"
  have store: "se_store (snd (engine_purge_expired clk items s)) k =
      (if k \<in> ?K then None else se_store s k)"
    by (simp add: engine_purge_expired_def Let_def foldl_remove_keys split_def)
  show ?thesis
  proof (cases "k \<in> ?K")
    case True
    then obtain e where e: "(k, e) \<in> set items" "is_expired (clk k) e" by auto
    with assms have "se_store s k = Some e" "is_expired t e" by (auto intro: is_expired_mono)
    with True store show ?thesis by (simp add: live_def)
  next
    case False
    with store show ?thesis by (simp add: live_def)
  qed
qed

lemma unexpired_last_write:
  "unexpired t e = unexpired t e' \<Longrightarrow>
   unexpired t (last_write key n e ops) = unexpired t (last_write key n e' ops)"
proof (induction ops arbitrary: n e e')
  case (Cons op ops)
  show ?case using Cons.prems by (cases op) (auto intro!: Cons.IH)
qed simp

lemma exec_ops_live:
  "ops_before t ops s \<Longrightarrow>
   live t (snd (exec_ops ops s)) key =
     unexpired t (last_write key (se_version_counter s) (se_store s key) ops)"
proof (induction ops arbitrary: s)
  case Nil
  then show ?case by (simp add: unexpired_live)
next
  case (Cons op ops)
  let ?s = "snd (exec_op op s)"
  have "live t (snd (exec_ops (op # ops) s)) key = live t (snd (exec_ops ops ?s)) key"
    by (simp add: split_def Let_def)
  also have "\<dots> = unexpired t (last_write key (se_version_counter ?s) (se_store ?s key) ops)"
    using Cons by simp
  also have "\<dots> = unexpired t (last_write key (se_version_counter s) (se_store s key) (op # ops))"
  proof (cases op)
    case (OGet now k)
    have "unexpired t (se_store ?s key) = unexpired t (se_store s key)"
      using Cons.prems by (simp add: unexpired_live OGet live_get)
    then show ?thesis
      by (simp add: exec_op_counter OGet del: exec_op.simps) (rule unexpired_last_write)
  next
    case (OPurge clk items)
    have "unexpired t (se_store ?s key) = unexpired t (se_store s key)"
      using Cons.prems by (simp add: unexpired_live OPurge live_purge_some)
    then show ?thesis
      by (simp add: exec_op_counter OPurge del: exec_op.simps) (rule unexpired_last_write)
  qed (use Cons.prems in \<open>auto simp: engine_simps\<close>)
  finally show ?case .
qed

section \<open>Properties\<close>

text \<open>C10. A read returns the last write. After any run of local gets, puts, deletes and purges on a
  new engine, whose clock readings are not after \<open>t\<close>, \<open>get\<close> at \<open>t\<close> returns the entry of the last
  put to the key, with its version, unless a delete followed it or its time to live has elapsed
  at \<open>t\<close>. The lazy removal in \<open>get\<close> and the sweep of \<open>purge_expired\<close> are not observable.\<close>

theorem engine_get_last_write:
  assumes "ops_before t ops engine_new"
  shows "fst (engine_get t key (snd (exec_ops ops engine_new))) = unexpired t (last_write key 0 None ops)"
  using exec_ops_live [OF assms, of key] by (simp add: fst_engine_get engine_new_def)

theorem engine_get_last_write_witness:
  "fst (engine_get 7 ''a'' (snd (exec_ops
     [OPut 0 ''a'' [1] (Some 10), OPut 2 ''b'' [2] (Some 1), OGet 5 ''b'',
      OPurge (\<lambda>_. 6) [(''a'', \<lparr>ve_data = [1], ve_version = 1, ve_created_at = 0, ve_ttl = Some 10\<rparr>)]]
     engine_new))) =
   Some \<lparr>ve_data = [1], ve_version = 1, ve_created_at = 0, ve_ttl = Some 10\<rparr>"
  by (subst engine_get_last_write)
     (simp_all add: engine_simps engine_new_def unexpired_def is_expired_def elapsed_def)

text \<open>The versions \<open>put\<close> hands out in any run of operations are strictly increasing and above
  the counter at the start, and when the run ends the counter is at least every version a
  replicated write has carried, so a later \<open>put\<close> is above all of them. The hypotheses say that the
  counter and the replicated versions are far enough from \<open>u64::MAX\<close> not to wrap.\<close>

theorem put_versions_increase:
  assumes "unat (se_version_counter s) \<le> B" and "B + length ops < 2 ^ 64"
    and "\<forall>v \<in> set (replicated_versions ops). unat v \<le> B"
  shows "sorted_wrt (<) (fst (exec_ops ops s)) \<and>
    (\<forall>v \<in> set (fst (exec_ops ops s)). se_version_counter s < v) \<and>
    (\<forall>v \<in> set (replicated_versions ops) \<union> set (fst (exec_ops ops s)).
       v \<le> se_version_counter (snd (exec_ops ops s)))"
  using exec_ops_advances [OF assms] by (simp_all add: op_advances_def)

theorem put_versions_increase_witness:
  "set (replicated_versions [OPut 0 ''k'' [1] None, OReplicate 1 ''k'' [2] 9 None, OPut 2 ''k'' [3] None])
     \<union> set (fst (exec_ops [OPut 0 ''k'' [1] None, OReplicate 1 ''k'' [2] 9 None, OPut 2 ''k'' [3] None]
               engine_new))
   \<subseteq> {v. v \<le> se_version_counter (snd (exec_ops
           [OPut 0 ''k'' [1] None, OReplicate 1 ''k'' [2] 9 None, OPut 2 ''k'' [3] None] engine_new))}"
  unfolding subset_eq mem_Collect_eq
  by (rule put_versions_increase [where B = 9, THEN conjunct2, THEN conjunct2])
     (simp_all add: engine_new_def)



definition scan_matches :: "(string \<Rightarrow> instant) \<Rightarrow> string \<Rightarrow> storage_engine \<Rightarrow> (string \<times> value_entry) set" where
  "scan_matches clk pfx s = {(k, e). se_store s k = Some e \<and> prefix pfx k \<and> \<not> is_expired (clk k) e}"

lemma engine_scan_result:
  assumes "iterates (se_store s) items"
  shows "sorted_wrt (<) (map fst (engine_scan clk pfx limit items)) \<and>
    set (engine_scan clk pfx limit items) \<subseteq> scan_matches clk pfx s \<and>
    length (engine_scan clk pfx limit items) = min limit (card (scan_matches clk pfx s)) \<and>
    (card (scan_matches clk pfx s) \<le> limit \<longrightarrow>
       set (engine_scan clk pfx limit items) = scan_matches clk pfx s)"
proof -
  note it = iteratesD [OF assms(1)]
  let ?f = "filter (scan_match clk pfx) items"
  have f: "set ?f = scan_matches clk pfx s" "distinct (map fst ?f)"
    using it(1) by (auto simp: it(3) scan_match_def scan_matches_def distinct_map_filter)
  then have "card (scan_matches clk pfx s) = length ?f"
    using distinct_card [of ?f] by (simp add: distinct_map)
  moreover have "distinct (map fst (take limit ?f))"
    using f(2) by (simp flip: take_map)
  then have "distinct (map fst (engine_scan clk pfx limit items))"
    by (metis (no_types, lifting) engine_scan_eq mset_eq_imp_distinct_iff mset_map mset_sort)
  moreover have "sorted (map fst (engine_scan clk pfx limit items))"
    by (simp add: engine_scan_eq)
  moreover have "set (engine_scan clk pfx limit items) = set (take limit ?f)"
    by (simp add: engine_scan_eq)
  moreover have "length (engine_scan clk pfx limit items) = length (take limit ?f)"
    by (simp add: engine_scan_eq)
  ultimately show ?thesis
    using f(1) set_take_subset [of limit ?f] by (simp add: strict_sorted_iff)
qed

text \<open>\<open>scan\<close>: whatever order the map is iterated in, the result is sorted by key without
  duplicates, contains only live entries of the store under the prefix, has as many of them as
  there are up to the limit, and contains all of them when the limit allows it.\<close>

theorem engine_scan_correct:
  assumes "iterates (se_store s) items"
  shows "sorted_wrt (<) (map fst (engine_scan clk pfx limit items)) \<and>
    set (engine_scan clk pfx limit items) \<subseteq> scan_matches clk pfx s \<and>
    length (engine_scan clk pfx limit items) = min limit (card (scan_matches clk pfx s)) \<and>
    (card (scan_matches clk pfx s) \<le> limit \<longrightarrow>
       set (engine_scan clk pfx limit items) = scan_matches clk pfx s)"
  by (rule engine_scan_result [OF assms])

theorem engine_scan_correct_witness:
  "map fst (engine_scan (\<lambda>_. 50) ''u'' 10
     [(''u2'', \<lparr>ve_data = [2], ve_version = 2, ve_created_at = 0, ve_ttl = None\<rparr>),
      (''u1'', \<lparr>ve_data = [1], ve_version = 1, ve_created_at = 0, ve_ttl = Some 90\<rparr>)]) = [''u1'', ''u2''] \<and>
   sorted_wrt (<) (map fst (engine_scan (\<lambda>_. 50) ''u'' 10
     [(''u2'', \<lparr>ve_data = [2], ve_version = 2, ve_created_at = 0, ve_ttl = None\<rparr>),
      (''u1'', \<lparr>ve_data = [1], ve_version = 1, ve_created_at = 0, ve_ttl = Some 90\<rparr>)]))"
  using engine_scan_correct
    [of "engine_new\<lparr>se_store :=
       [''u2'' \<mapsto> \<lparr>ve_data = [2], ve_version = 2, ve_created_at = 0, ve_ttl = None\<rparr>,
        ''u1'' \<mapsto> \<lparr>ve_data = [1], ve_version = 1, ve_created_at = 0, ve_ttl = Some 90\<rparr>]\<rparr>"
      "[(''u2'', \<lparr>ve_data = [2], ve_version = 2, ve_created_at = 0, ve_ttl = None\<rparr>),
        (''u1'', \<lparr>ve_data = [1], ve_version = 1, ve_created_at = 0, ve_ttl = Some 90\<rparr>)]" "\<lambda>_. 50" "''u''" 10]
  by (simp add: iterates_def fun_eq_iff engine_scan_eq scan_match_def is_expired_def elapsed_def)

lemma engine_purge_result:
  assumes "iterates (se_store s) items"
    and "engine_purge_expired clk items s = (n, s')"
  shows "se_store s' = (\<lambda>k. case se_store s k of
           Some e \<Rightarrow> if is_expired (clk k) e then None else Some e | None \<Rightarrow> None) \<and>
    n = card {k. \<exists>e. se_store s k = Some e \<and> is_expired (clk k) e} \<and>
    st_expired (se_stats s') = st_expired (se_stats s) + of_nat n \<and>
    se_version_counter s' = se_version_counter s \<and>
    (\<forall>items'. iterates (se_store s') items' \<longrightarrow> fst (engine_purge_expired clk items' s') = 0)"
proof -
  note it = iteratesD [OF assms(1)]
  let ?dead = "filter (\<lambda>(k, e). is_expired (clk k) e) items"
  have s': "se_store s' = foldl (\<lambda>m k. m(k := None)) (se_store s) (map fst ?dead)"
    and rest: "n = length ?dead" "se_version_counter s' = se_version_counter s"
      "st_expired (se_stats s') = st_expired (se_stats s) + of_nat n"
    using assms(2) by (auto simp: engine_purge_expired_def Let_def)
  have dead: "set (map fst ?dead) = {k. \<exists>e. se_store s k = Some e \<and> is_expired (clk k) e}"
    by (auto simp: it(3) image_iff)
  have store: "se_store s' = (\<lambda>k. case se_store s k of
      Some e \<Rightarrow> if is_expired (clk k) e then None else Some e | None \<Rightarrow> None)"
    unfolding s' foldl_remove_keys dead by (auto simp: fun_eq_iff split: option.splits)
  have "distinct (map fst ?dead)"
    using it(1) by (simp add: distinct_map_filter)
  from distinct_card [OF this] have "n = card {k. \<exists>e. se_store s k = Some e \<and> is_expired (clk k) e}"
    by (simp add: rest(1) dead [simplified])
  moreover have "fst (engine_purge_expired clk items' s') = 0" if "iterates (se_store s') items'" for items'
  proof -
    have "\<not> is_expired (clk k) e" if "(k, e) \<in> set items'" for k e
      using that iteratesD(3) [OF \<open>iterates (se_store s') items'\<close>]
      by (auto simp: store split: option.splits if_splits)
    then have "filter (\<lambda>(k, e). is_expired (clk k) e) items' = []"
      by (auto simp: filter_empty_conv)
    then show ?thesis by (simp add: engine_purge_expired_def Let_def)
  qed
  ultimately show ?thesis using store rest by blast
qed

text \<open>\<open>purge_expired\<close>: it removes exactly the entries expired when the sweep visits them, returns
  and adds to the counter how many they were, leaves the version counter and the other entries
  alone, and a second sweep with the same clock removes nothing.\<close>

theorem engine_purge_correct:
  assumes "iterates (se_store s) items"
    and "engine_purge_expired clk items s = (n, s')"
  shows "se_store s' = (\<lambda>k. case se_store s k of
           Some e \<Rightarrow> if is_expired (clk k) e then None else Some e | None \<Rightarrow> None) \<and>
    n = card {k. \<exists>e. se_store s k = Some e \<and> is_expired (clk k) e} \<and>
    st_expired (se_stats s') = st_expired (se_stats s) + of_nat n \<and>
    se_version_counter s' = se_version_counter s \<and>
    (\<forall>items'. iterates (se_store s') items' \<longrightarrow> fst (engine_purge_expired clk items' s') = 0)"
  by (rule engine_purge_result [OF assms])

theorem engine_purge_correct_witness:
  "fst (engine_purge_expired (\<lambda>_. 50)
      [(''a'', \<lparr>ve_data = [2], ve_version = 2, ve_created_at = 0, ve_ttl = Some 7\<rparr>)]
      (engine_new\<lparr>se_store := [''a'' \<mapsto> \<lparr>ve_data = [2], ve_version = 2, ve_created_at = 0, ve_ttl = Some 7\<rparr>]\<rparr>)) =
   card {k. \<exists>e. se_store (engine_new\<lparr>se_store :=
          [''a'' \<mapsto> \<lparr>ve_data = [2], ve_version = 2, ve_created_at = 0, ve_ttl = Some 7\<rparr>]\<rparr>) k = Some e
        \<and> is_expired 50 e}"
  by (rule engine_purge_correct [where clk = "\<lambda>_. 50", THEN conjunct2, THEN conjunct1, OF _ surjective_pairing])
     (simp add: iterates_def fun_eq_iff)

text \<open>Every operation keeps the engine's invariant: the store is finite and no stored version is
  above the version counter; and it keeps the balance of the counters: gets are hits plus
  misses. A \<open>put\<close> needs the counter not to be at \<open>u64::MAX\<close>.\<close>

theorem engine_ops_invariant:
  assumes "engine_inv s" and "stats_balanced s" and "unat (se_version_counter s) + length ops < 2 ^ 64"
    and "\<forall>v \<in> set (replicated_versions ops). unat v + length ops < 2 ^ 64"
  shows "engine_inv (snd (exec_ops ops s)) \<and> stats_balanced (snd (exec_ops ops s))"
proof
  show "stats_balanced (snd (exec_ops ops s))"
    using assms(2) by (rule exec_ops_balanced)
  show "engine_inv (snd (exec_ops ops s))"
    using assms(1,3,4)
  proof (induction ops arbitrary: s)
    case (Cons op ops)
    let ?s = "snd (exec_op op s)"
    have nz: "se_version_counter s \<noteq> u64_max" using Cons.prems(2) by auto
    with Cons.prems(1) have "engine_inv ?s"
      by (cases op) (auto simp: split_def Let_def)
    moreover have "unat (se_version_counter ?s) + length ops < 2 ^ 64"
    proof -
      define B where "B = max (unat (se_version_counter s)) (Max (insert 0 (unat ` set (replicated_versions [op]))))"
      have B: "B + length (op # ops) < 2 ^ 64"
        using Cons.prems(2,3) by (cases op) (auto simp: B_def max_def)
      moreover have "\<forall>v \<in> set (replicated_versions [op]). unat v \<le> B"
        by (auto simp: B_def le_max_iff_disj)
      moreover have "unat (se_version_counter s) \<le> B" by (simp add: B_def)
      ultimately have "unat (se_version_counter ?s) \<le> B + 1"
        by (intro exec_op_bound) simp_all
      with B show ?thesis by simp
    qed
    moreover have "\<forall>v \<in> set (replicated_versions ops). unat v + length ops < 2 ^ 64"
    proof
      fix v assume "v \<in> set (replicated_versions ops)"
      then have "v \<in> set (replicated_versions (op # ops))"
        by (subst replicated_versions_Cons) simp
      with Cons.prems(3) have "unat v + length (op # ops) < 2 ^ 64" by blast
      then show "unat v + length ops < 2 ^ 64" by simp
    qed
    ultimately show ?case using Cons.IH [of ?s] by (simp add: split_def Let_def)
  qed simp
qed

theorem engine_ops_invariant_witness:
  "engine_inv (snd (exec_ops [OPut 0 ''k'' [1] None, OReplicate 1 ''k'' [2] 9 None, OGet 2 ''x''] engine_new))"
  by (rule engine_ops_invariant [THEN conjunct1], rule engine_inv_new)
     (simp_all add: stats_balanced_def engine_new_def storage_stats_default_def)

end
