(* ===== verification/StorageRaces.thy ===== *)
theory StorageRaces
  imports Storage
begin

text \<open>
  The storage engine of \<open>tp-kv-distributed/src/storage.rs\<close> below the grain of \<open>Storage\<close>: a call is
  the sequence of its atomic steps, an access to an atomic counter, one operation of the sharded
  map, or a reading of the clock, and the steps of any number of threads interleave.

  \<open>call_step\<close> is the next step of a call; \<open>race_run\<close> executes a schedule, a list of turns and
  clock ticks. \<open>call_alone\<close> shows that a call no other thread interrupts does what the operation
  of \<open>Storage\<close> does; the invariants hold in every interleaving; the last section has the
  interleavings in which an acknowledged write is lost.
\<close>

section \<open>Calls and their steps\<close>

text \<open>The sharded map yields its keys in an order of its own, which \<open>CallPurge\<close> carries.\<close>

datatype call =
    CallGet string
  | CallPut string "u8 list" "duration option"
  | CallReplicate string "u8 list" u64 "duration option"
  | CallDelete string
  | CallPurge "string list"

datatype reply =
    GotEntry "value_entry option"
  | GotVersion u64
  | GotApplied bool
  | GotDeleted bool
  | GotPurged usize

datatype call_pc =
    Begin call
  | GetLookup string
  | GetCheck string "value_entry option"
  | GetRemove string
  | GetExpired
  | GetHit value_entry
  | GetMiss
  | PutVersion string "u8 list" "duration option"
  | PutStamp string "u8 list" "duration option" u64
  | PutInsert string value_entry
  | RepLoop string "u8 list" u64 "duration option" u64
  | RepCheck string "u8 list" u64 "duration option"
  | RepStamp string "u8 list" u64 "duration option"
  | RepInsert string value_entry
  | RepCount
  | DelRemove string
  | PurgeVisit "string list" "string list"
  | PurgeRemove "string list" usize
  | PurgeCount usize
  | Answered reply

definition on_stats :: "(storage_stats \<Rightarrow> storage_stats) \<Rightarrow> storage_engine \<Rightarrow> storage_engine" where
  "on_stats f s = s\<lparr>se_stats := f (se_stats s)\<rparr>"

fun call_step :: "instant \<Rightarrow> call_pc \<Rightarrow> storage_engine \<Rightarrow> call_pc \<times> storage_engine" where
  "call_step now (Begin (CallGet key)) s =
     (GetLookup key, on_stats (\<lambda>st. st\<lparr>st_gets := st_gets st + 1\<rparr>) s)"
| "call_step now (GetLookup key) s = (GetCheck key (se_store s key), s)"
| "call_step now (GetCheck key entry) s =
     (case entry of
        Some e \<Rightarrow> (if is_expired now e then GetRemove key else GetHit e, s)
      | None \<Rightarrow> (GetMiss, s))"
| "call_step now (GetRemove key) s = (GetExpired, s\<lparr>se_store := (se_store s)(key := None)\<rparr>)"
| "call_step now GetExpired s = (GetMiss, on_stats (\<lambda>st. st\<lparr>st_expired := st_expired st + 1\<rparr>) s)"
| "call_step now (GetHit e) s =
     (Answered (GotEntry (Some e)), on_stats (\<lambda>st. st\<lparr>st_hits := st_hits st + 1\<rparr>) s)"
| "call_step now GetMiss s =
     (Answered (GotEntry None), on_stats (\<lambda>st. st\<lparr>st_misses := st_misses st + 1\<rparr>) s)"
| "call_step now (Begin (CallPut key data ttl)) s =
     (PutVersion key data ttl, on_stats (\<lambda>st. st\<lparr>st_puts := st_puts st + 1\<rparr>) s)"
| "call_step now (PutVersion key data ttl) s =
     (PutStamp key data ttl (se_version_counter s + 1),
      s\<lparr>se_version_counter := se_version_counter s + 1\<rparr>)"
| "call_step now (PutStamp key data ttl version) s =
     (PutInsert key \<lparr>ve_data = data, ve_version = version, ve_created_at = now, ve_ttl = ttl\<rparr>, s)"
| "call_step now (PutInsert key entry) s =
     (Answered (GotVersion (ve_version entry)), s\<lparr>se_store := (se_store s)(key \<mapsto> entry)\<rparr>)"
| "call_step now (Begin (CallReplicate key data version ttl)) s =
     (RepLoop key data version ttl (se_version_counter s), s)"
| "call_step now (RepLoop key data version ttl cur) s =
     (if version > cur then
        (case compare_exchange (se_version_counter s) cur version of
           (Inr _, cell) \<Rightarrow> (RepCheck key data version ttl, s\<lparr>se_version_counter := cell\<rparr>)
         | (Inl observed, _) \<Rightarrow> (RepLoop key data version ttl observed, s))
      else (RepCheck key data version ttl, s))"
| "call_step now (RepCheck key data version ttl) s =
     (case se_store s key of
        Some existing \<Rightarrow>
          (if ve_version existing \<ge> version then Answered (GotApplied False)
           else RepStamp key data version ttl, s)
      | None \<Rightarrow> (RepStamp key data version ttl, s))"
| "call_step now (RepStamp key data version ttl) s =
     (RepInsert key \<lparr>ve_data = data, ve_version = version, ve_created_at = now, ve_ttl = ttl\<rparr>, s)"
| "call_step now (RepInsert key entry) s = (RepCount, s\<lparr>se_store := (se_store s)(key \<mapsto> entry)\<rparr>)"
| "call_step now RepCount s =
     (Answered (GotApplied True), on_stats (\<lambda>st. st\<lparr>st_puts := st_puts st + 1\<rparr>) s)"
| "call_step now (Begin (CallDelete key)) s =
     (DelRemove key, on_stats (\<lambda>st. st\<lparr>st_deletes := st_deletes st + 1\<rparr>) s)"
| "call_step now (DelRemove key) s =
     (Answered (GotDeleted (se_store s key \<noteq> None)), s\<lparr>se_store := (se_store s)(key := None)\<rparr>)"
| "call_step now (Begin (CallPurge order)) s = (PurgeVisit order [], s)"
| "call_step now (PurgeVisit [] expired_keys) s = (PurgeRemove expired_keys (length expired_keys), s)"
| "call_step now (PurgeVisit (key # rest) expired_keys) s =
     (PurgeVisit rest
        (case se_store s key of
           Some e \<Rightarrow> if is_expired now e then expired_keys @ [key] else expired_keys
         | None \<Rightarrow> expired_keys), s)"
| "call_step now (PurgeRemove [] n) s = (PurgeCount n, s)"
| "call_step now (PurgeRemove (key # rest) n) s =
     (PurgeRemove rest n, s\<lparr>se_store := (se_store s)(key := None)\<rparr>)"
| "call_step now (PurgeCount n) s =
     (Answered (GotPurged n), on_stats (\<lambda>st. st\<lparr>st_expired := st_expired st + of_nat n\<rparr>) s)"
| "call_step now (Answered r) s = (Answered r, s)"

section \<open>Threads and schedules\<close>

text \<open>A thread makes the calls of its program one after the other and keeps the replies.\<close>

record caller =
  ca_pc :: "call_pc option"
  ca_todo :: "call list"
  ca_replies :: "reply list"

record races =
  rc_engine :: storage_engine
  rc_now :: instant
  rc_callers :: "caller list"

fun caller_step :: "instant \<Rightarrow> caller \<Rightarrow> storage_engine \<Rightarrow> caller \<times> storage_engine" where
  "caller_step now c s =
     (case ca_pc c of
        None \<Rightarrow>
          (case ca_todo c of
             [] \<Rightarrow> (c, s)
           | call # rest \<Rightarrow> (c\<lparr>ca_pc := Some (Begin call), ca_todo := rest\<rparr>, s))
      | Some (Answered r) \<Rightarrow> (c\<lparr>ca_pc := None, ca_replies := ca_replies c @ [r]\<rparr>, s)
      | Some pc \<Rightarrow> (let (pc, s) = call_step now pc s in (c\<lparr>ca_pc := Some pc\<rparr>, s)))"

datatype race_event = Tick duration | Turn nat

fun race_step :: "races \<Rightarrow> race_event \<Rightarrow> races" where
  "race_step w (Tick d) = w\<lparr>rc_now := rc_now w + d\<rparr>"
| "race_step w (Turn i) =
     (if i < length (rc_callers w) then
        (let (c, s) = caller_step (rc_now w) (rc_callers w ! i) (rc_engine w)
         in w\<lparr>rc_engine := s, rc_callers := (rc_callers w)[i := c]\<rparr>)
      else w)"

definition race_run :: "race_event list \<Rightarrow> races \<Rightarrow> races" where
  "race_run events w = foldl race_step w events"

definition race_init :: "storage_engine \<Rightarrow> instant \<Rightarrow> call list list \<Rightarrow> races" where
  "race_init s now programs =
     \<lparr>rc_engine = s, rc_now = now,
      rc_callers = map (\<lambda>p. \<lparr>ca_pc = None, ca_todo = p, ca_replies = []\<rparr>) programs\<rparr>"

definition race_over :: "races \<Rightarrow> bool" where
  "race_over w \<longleftrightarrow> (\<forall>c \<in> set (rc_callers w). ca_pc c = None \<and> ca_todo c = [])"

section \<open>A call alone\<close>

text \<open>The operation of \<open>Storage\<close> a call stands for.\<close>

fun whole_call :: "instant \<Rightarrow> call \<Rightarrow> storage_engine \<Rightarrow> reply \<times> storage_engine" where
  "whole_call now (CallGet key) s = map_prod GotEntry id (engine_get now key s)"
| "whole_call now (CallPut key data ttl) s = map_prod GotVersion id (engine_put now key data ttl s)"
| "whole_call now (CallReplicate key data version ttl) s =
     map_prod GotApplied id (engine_put_with_version now key data version ttl s)"
| "whole_call now (CallDelete key) s = map_prod GotDeleted id (engine_delete key s)"
| "whole_call now (CallPurge order) s =
     map_prod GotPurged id (engine_purge_expired (\<lambda>_. now)
       (map (\<lambda>k. (k, the (se_store s k))) (filter (\<lambda>k. se_store s k \<noteq> None) order)) s)"

fun run_call :: "nat \<Rightarrow> instant \<Rightarrow> call_pc \<Rightarrow> storage_engine \<Rightarrow> call_pc \<times> storage_engine" where
  "run_call 0 now pc s = (pc, s)"
| "run_call (Suc n) now pc s = (let (pc, s) = call_step now pc s in run_call n now pc s)"

lemma run_call_add:
  "run_call (m + n) now pc s = (let (pc, s) = run_call m now pc s in run_call n now pc s)"
  by (induction m arbitrary: pc s) (auto split: prod.splits)

text \<open>\<open>reaches\<close>: some number of steps of the call lead there.\<close>

definition reaches :: "instant \<Rightarrow> call_pc \<times> storage_engine \<Rightarrow> call_pc \<times> storage_engine \<Rightarrow> bool" where
  "reaches now x y \<longleftrightarrow> (\<exists>n. run_call n now (fst x) (snd x) = y)"

lemma reaches_refl: "reaches now x x"
  unfolding reaches_def by (rule exI [of _ 0]) simp

lemma reaches_step: "reaches now (call_step now pc s) y \<Longrightarrow> reaches now (pc, s) y"
  unfolding reaches_def
proof (elim exE)
  fix n assume n: "run_call n now (fst (call_step now pc s)) (snd (call_step now pc s)) = y"
  have "run_call (Suc n) now (fst (pc, s)) (snd (pc, s)) = y" unfolding n [symmetric] by (simp add: split_def Let_def)
  then show "\<exists>n. run_call n now (fst (pc, s)) (snd (pc, s)) = y" by (rule exI)
qed

lemma reaches_trans: "reaches now x y \<Longrightarrow> reaches now y z \<Longrightarrow> reaches now x z"
  unfolding reaches_def
proof (elim exE)
  fix m n assume "run_call m now (fst x) (snd x) = y" "run_call n now (fst y) (snd y) = z"
  then have "run_call (m + n) now (fst x) (snd x) = z" by (simp add: run_call_add split_def)
  then show "\<exists>n. run_call n now (fst x) (snd x) = z" ..
qed

text \<open>Until it is answered a call can be followed step by step.\<close>

fun answered :: "call_pc \<Rightarrow> bool" where
  "answered (Answered r) = True"
| "answered pc = False"

lemma reaches_next: "\<not> answered pc \<Longrightarrow> answered pc' \<Longrightarrow>
  reaches now (pc, s) (pc', s') \<longleftrightarrow> reaches now (call_step now pc s) (pc', s')"
proof
  assume pc: "\<not> answered pc" "answered pc'" and "reaches now (pc, s) (pc', s')"
  then obtain n where n: "run_call n now pc s = (pc', s')" by (auto simp: reaches_def)
  with pc obtain m where "n = Suc m" by (cases n) auto
  with n show "reaches now (call_step now pc s) (pc', s')"
    by (auto simp: reaches_def split_def Let_def)
qed (rule reaches_step)

lemmas follow = reaches_next reaches_refl on_stats_def engine_simps

lemma purge_visits:
  "reaches now (PurgeVisit order dead, s)
     (let dead = dead @ filter (\<lambda>k. \<exists>e. se_store s k = Some e \<and> is_expired now e) order
      in (PurgeRemove dead (length dead), s))"
proof (induction order arbitrary: dead)
  case Nil
  show ?case by (rule reaches_step) (simp add: reaches_refl)
next
  case (Cons k order)
  let ?dead = "if \<exists>e. se_store s k = Some e \<and> is_expired now e then dead @ [k] else dead"
  have "call_step now (PurgeVisit (k # order) dead) s = (PurgeVisit order ?dead, s)"
    by (auto split: option.splits)
  with Cons [of ?dead] show ?case by (intro reaches_step) (auto simp: Let_def split: if_splits)
qed

lemma purge_removes:
  "reaches now (PurgeRemove dead n, s)
     (PurgeCount n, s\<lparr>se_store := foldl (\<lambda>m k. m(k := None)) (se_store s) dead\<rparr>)"
proof (induction dead arbitrary: s)
  case Nil
  show ?case by (rule reaches_step) (simp add: reaches_refl)
next
  case (Cons k dead)
  show ?case
    by (rule reaches_step) (use Cons [of "s\<lparr>se_store := (se_store s)(k := None)\<rparr>"] in simp)
qed

lemma rep_loop_alone:
  "reaches now (RepLoop key data version ttl (se_version_counter s), s)
     (RepCheck key data version ttl,
      s\<lparr>se_version_counter := raise_counter version (se_version_counter s)\<rparr>)"
  by (rule reaches_step) (auto simp: compare_exchange_def max_def reaches_refl)

theorem call_alone:
  "reaches now (Begin c, s) (map_prod Answered id (whole_call now c s))"
proof (cases c)
  case (CallReplicate key data version ttl)
  let ?s = "s\<lparr>se_version_counter := raise_counter version (se_version_counter s)\<rparr>"
  have "reaches now (RepCheck key data version ttl, ?s) (map_prod Answered id (whole_call now c s))"
  proof (cases "se_store s key")
    case None
    then show ?thesis unfolding CallReplicate by (simp add: follow)
  next
    case (Some e)
    then show ?thesis unfolding CallReplicate by (cases "ve_version e \<ge> version") (simp_all add: follow)
  qed
  with rep_loop_alone [of now key data version ttl s] show ?thesis
    unfolding CallReplicate by (intro reaches_step) (auto intro: reaches_trans)
next
  case (CallPurge order)
  let ?dead = "filter (\<lambda>k. \<exists>e. se_store s k = Some e \<and> is_expired now e) order"
  let ?s = "s\<lparr>se_store := foldl (\<lambda>m k. m(k := None)) (se_store s) ?dead\<rparr>"
  have dead: "map fst (filter (\<lambda>(k, e). is_expired now e)
      (map (\<lambda>k. (k, the (se_store s k))) (filter (\<lambda>k. se_store s k \<noteq> None) order))) = ?dead"
    by (induction order) auto
  have "reaches now (PurgeCount (length ?dead), ?s) (map_prod Answered id (whole_call now c s))"
    unfolding CallPurge whole_call.simps engine_purge_expired_def Let_def dead by (simp add: follow)
  with purge_removes [of now ?dead "length ?dead" s]
  have "reaches now (PurgeRemove ?dead (length ?dead), s) (map_prod Answered id (whole_call now c s))"
    by (rule reaches_trans)
  with purge_visits [of now order "[]" s]
  have "reaches now (PurgeVisit order [], s) (map_prod Answered id (whole_call now c s))"
    by (auto simp: Let_def intro: reaches_trans)
  then show ?thesis unfolding CallPurge by (intro reaches_step) simp
next
  case (CallGet key)
  show ?thesis
  proof (cases "se_store s key")
    case None
    then show ?thesis unfolding CallGet by (simp add: follow)
  next
    case (Some e)
    then show ?thesis unfolding CallGet by (cases "is_expired now e") (simp_all add: follow)
  qed
next
  case (CallPut key data ttl)
  show ?thesis unfolding CallPut by (simp add: follow)
next
  case (CallDelete key)
  show ?thesis unfolding CallDelete by (simp add: follow)
qed

section \<open>What every interleaving keeps\<close>

text \<open>The versions a caller has drawn by \<open>put\<close>, in order; the draws it still has to make; the versions
  its replicated writes carry; the versions a step of it may store.\<close>

fun reply_versions :: "reply \<Rightarrow> u64 list" where
  "reply_versions (GotVersion v) = [v]"
| "reply_versions r = []"

fun pc_versions :: "call_pc \<Rightarrow> u64 list" where
  "pc_versions (PutStamp key data ttl version) = [version]"
| "pc_versions (PutInsert key e) = [ve_version e]"
| "pc_versions (Answered r) = reply_versions r"
| "pc_versions pc = []"

fun call_draws :: "call \<Rightarrow> nat" where
  "call_draws (CallPut key data ttl) = 1"
| "call_draws c = 0"

fun pc_draws :: "call_pc \<Rightarrow> nat" where
  "pc_draws (Begin c) = call_draws c"
| "pc_draws (PutVersion key data ttl) = 1"
| "pc_draws pc = 0"

fun call_given :: "call \<Rightarrow> u64 set" where
  "call_given (CallReplicate key data version ttl) = {version}"
| "call_given c = {}"

fun pc_given :: "call_pc \<Rightarrow> u64 set" where
  "pc_given (Begin c) = call_given c"
| "pc_given (RepLoop key data version ttl cur) = {version}"
| "pc_given pc = {}"

fun pc_seen :: "call_pc \<Rightarrow> u64 set" where
  "pc_seen (PutStamp key data ttl version) = {version}"
| "pc_seen (PutInsert key e) = {ve_version e}"
| "pc_seen (RepLoop key data version ttl cur) = {cur}"
| "pc_seen (RepCheck key data version ttl) = {version}"
| "pc_seen (RepStamp key data version ttl) = {version}"
| "pc_seen (RepInsert key e) = {ve_version e}"
| "pc_seen pc = {}"

fun pc_reading :: "call_pc \<Rightarrow> nat" where
  "pc_reading (GetLookup key) = 1"
| "pc_reading (GetCheck key e) = 1"
| "pc_reading (GetRemove key) = 1"
| "pc_reading GetExpired = 1"
| "pc_reading (GetHit e) = 1"
| "pc_reading GetMiss = 1"
| "pc_reading pc = 0"

lemma call_step_counter:
  "se_version_counter (snd (call_step now pc s)) =
     (case pc of
        PutVersion key data ttl \<Rightarrow> se_version_counter s + 1
      | RepLoop key data version ttl cur \<Rightarrow>
          if version > cur \<and> se_version_counter s = cur then version else se_version_counter s
      | _ \<Rightarrow> se_version_counter s)"
  by (induction now pc s rule: call_step.induct)
     (auto simp: on_stats_def compare_exchange_def split: option.splits)

lemma call_step_versions:
  "pc_versions (fst (call_step now pc s)) =
     (case pc of PutVersion key data ttl \<Rightarrow> [se_version_counter s + 1] | _ \<Rightarrow> pc_versions pc)"
  by (induction now pc s rule: call_step.induct)
     (auto simp: compare_exchange_def split: option.splits)

lemma call_step_draws:
  "pc_draws (fst (call_step now pc s)) = (case pc of PutVersion key data ttl \<Rightarrow> 0 | _ \<Rightarrow> pc_draws pc)"
  by (induction now pc s rule: call_step.induct)
     (auto simp: compare_exchange_def split: option.splits)

lemma call_step_given: "pc_given (fst (call_step now pc s)) \<subseteq> pc_given pc"
  by (induction now pc s rule: call_step.induct)
     (auto simp: compare_exchange_def split: option.splits)

lemma call_step_seen:
  assumes "\<forall>v \<in> pc_seen pc. v \<le> se_version_counter s"
  shows "\<forall>v \<in> pc_seen (fst (call_step now pc s)). v \<le> se_version_counter (snd (call_step now pc s))"
  using assms
  by (induction now pc s rule: call_step.induct)
     (auto simp: on_stats_def compare_exchange_def split: option.splits)

lemma call_step_inv:
  assumes "engine_inv s" "\<forall>v \<in> pc_seen pc. v \<le> se_version_counter s"
    and "pc_draws pc \<noteq> 0 \<longrightarrow> se_version_counter s \<noteq> u64_max"
  shows "engine_inv (snd (call_step now pc s))"
  using assms
  by (induction now pc s rule: call_step.induct)
     (auto simp: engine_inv_def on_stats_def compare_exchange_def split: option.splits
       intro: word_le_Suc order_trans [OF _ less_imp_le])

lemma call_step_balance:
  "st_gets (se_stats (snd (call_step now pc s))) - st_hits (se_stats (snd (call_step now pc s))) -
     st_misses (se_stats (snd (call_step now pc s))) - of_nat (pc_reading (fst (call_step now pc s))) =
   st_gets (se_stats s) - st_hits (se_stats s) - st_misses (se_stats s) - of_nat (pc_reading pc)"
  by (induction now pc s rule: call_step.induct)
     (auto simp: on_stats_def compare_exchange_def split: option.splits)

declare call_step.simps [simp del]

text \<open>The same for a caller: its replies, its call in flight and the calls still to come.\<close>

definition of_pc :: "(call_pc \<Rightarrow> 'b) \<Rightarrow> 'b \<Rightarrow> caller \<Rightarrow> 'b" where
  "of_pc f z c = (case ca_pc c of Some pc \<Rightarrow> f pc | None \<Rightarrow> z)"

definition caller_versions :: "caller \<Rightarrow> u64 list" where
  "caller_versions c = concat (map reply_versions (ca_replies c)) @ of_pc pc_versions [] c"

definition caller_draws :: "caller \<Rightarrow> nat" where
  "caller_draws c = of_pc pc_draws 0 c + sum_list (map call_draws (ca_todo c))"

definition caller_given :: "caller \<Rightarrow> u64 set" where
  "caller_given c = of_pc pc_given {} c \<union> \<Union> (call_given ` set (ca_todo c))"

definition caller_inv :: "u64 \<Rightarrow> caller \<Rightarrow> bool" where
  "caller_inv counter c \<longleftrightarrow>
     sorted_wrt (<) (caller_versions c) \<and> (\<forall>v \<in> set (caller_versions c). v \<le> counter) \<and>
     (\<forall>v \<in> of_pc pc_seen {} c. v \<le> counter)"

lemma caller_inv_mono: "caller_inv m c \<Longrightarrow> m \<le> n \<Longrightarrow> caller_inv n c"
  by (auto simp: caller_inv_def intro: order_trans)

lemma caller_step_unfold:
  "caller_step now c s =
     (case ca_pc c of
        None \<Rightarrow>
          (case ca_todo c of
             [] \<Rightarrow> (c, s)
           | call # rest \<Rightarrow> (c\<lparr>ca_pc := Some (Begin call), ca_todo := rest\<rparr>, s))
      | Some pc \<Rightarrow>
          (case pc of
             Answered r \<Rightarrow> (c\<lparr>ca_pc := None, ca_replies := ca_replies c @ [r]\<rparr>, s)
           | _ \<Rightarrow> (c\<lparr>ca_pc := Some (fst (call_step now pc s))\<rparr>, snd (call_step now pc s))))"
  by (simp add: split_def Let_def split: option.splits call_pc.splits)

lemma caller_step_cases:
  assumes "caller_step now c s = (c', s')"
  obtains (idle) "ca_pc c = None" "ca_todo c = []" "c' = c" "s' = s"
  | (start) call rest where "ca_pc c = None" "ca_todo c = call # rest"
      "c' = c\<lparr>ca_pc := Some (Begin call), ca_todo := rest\<rparr>" "s' = s"
  | (answer) r where "ca_pc c = Some (Answered r)"
      "c' = c\<lparr>ca_pc := None, ca_replies := ca_replies c @ [r]\<rparr>" "s' = s"
  | (step) pc where "ca_pc c = Some pc" "\<not> answered pc"
      "c' = c\<lparr>ca_pc := Some (fst (call_step now pc s))\<rparr>" "s' = snd (call_step now pc s)"
proof (cases "ca_pc c")
  case None
  show ?thesis
  proof (cases "ca_todo c")
    case Nil
    show ?thesis by (rule idle) (use assms None Nil in simp_all)
  next
    case (Cons call rest)
    show ?thesis by (rule start) (use assms None Cons in auto)
  qed
next
  case (Some pc)
  show ?thesis
  proof (cases "answered pc")
    case True
    then obtain r where "pc = Answered r" by (cases pc) auto
    with assms Some show ?thesis by (intro answer) auto
  next
    case False
    with assms Some have "c' = c\<lparr>ca_pc := Some (fst (call_step now pc s))\<rparr>" "s' = snd (call_step now pc s)"
      unfolding caller_step_unfold by (cases pc; simp)+
    with Some False show ?thesis by (intro step)
  qed
qed

declare caller_step.simps [simp del]

lemma caller_step_counter:
  assumes "caller_step now c s = (c', s')" "unat (se_version_counter s) + caller_draws c < 2 ^ 64"
  shows "se_version_counter s \<le> se_version_counter s'"
  using assms(1)
proof (cases rule: caller_step_cases)
  case (step pc)
  then have "pc_draws pc \<noteq> 0 \<Longrightarrow> se_version_counter s \<noteq> u64_max"
    using assms(2) by (auto simp: caller_draws_def of_pc_def)
  with step show ?thesis
    by (cases pc) (auto simp: call_step_counter intro: word_le_Suc)
qed auto

lemma caller_step_versions:
  assumes "caller_step now c s = (c', s')" "unat (se_version_counter s) + caller_draws c < 2 ^ 64"
  shows "caller_versions c' = caller_versions c \<or>
    se_version_counter s < se_version_counter s' \<and>
    caller_versions c' = caller_versions c @ [se_version_counter s']"
  using assms(1)
proof (cases rule: caller_step_cases)
  case (step pc)
  show ?thesis
  proof (cases "pc_draws pc = 0 \<or> (\<exists>call. pc = Begin call)")
    case True
    with step show ?thesis by (cases pc) (auto simp: caller_versions_def of_pc_def call_step_versions)
  next
    case False
    with step obtain key data ttl where pc: "pc = PutVersion key data ttl" by (cases pc) auto
    then have "se_version_counter s \<noteq> u64_max"
      using assms(2) step by (auto simp: caller_draws_def of_pc_def)
    then have "se_version_counter s < se_version_counter s + 1"
      by (simp add: word_less_nat_alt unat_Suc_u64)
    with step pc show ?thesis
      by (simp add: caller_versions_def of_pc_def call_step_versions call_step_counter)
  qed
qed (auto simp: caller_versions_def of_pc_def)

lemma caller_step_draws:
  assumes "caller_step now c s = (c', s')"
    and "unat (se_version_counter s) + caller_draws c \<le> B" "\<forall>v \<in> caller_given c. unat v + caller_draws c \<le> B"
    and "B < 2 ^ 64"
  shows "unat (se_version_counter s') + caller_draws c' \<le> B" "caller_draws c' \<le> caller_draws c"
    "caller_given c' \<subseteq> caller_given c"
proof -
  from assms(1) show "caller_draws c' \<le> caller_draws c"
  proof (cases rule: caller_step_cases)
    case (step pc)
    then show ?thesis by (cases pc) (auto simp: caller_draws_def of_pc_def call_step_draws)
  qed (auto simp: caller_draws_def of_pc_def)
  from assms(1) show "caller_given c' \<subseteq> caller_given c"
  proof (cases rule: caller_step_cases)
    case (step pc)
    then show ?thesis using call_step_given [of now pc s] by (auto simp: caller_given_def of_pc_def)
  qed (auto simp: caller_given_def of_pc_def)
  from assms(1) show "unat (se_version_counter s') + caller_draws c' \<le> B"
  proof (cases rule: caller_step_cases)
    case (step pc)
    show ?thesis
    proof (cases pc)
      case (PutVersion key data ttl)
      then have "se_version_counter s \<noteq> u64_max"
        using assms(2,4) step by (auto simp: caller_draws_def of_pc_def)
      with PutVersion step assms(2) show ?thesis 
        by (simp add: caller_draws_def of_pc_def unat_Suc_u64 call_step_counter call_step_draws)
    qed (use step assms(2,3) in \<open>auto simp: caller_draws_def caller_given_def of_pc_def call_step_counter call_step_draws\<close>)
  qed (use assms(2) in \<open>auto simp: caller_draws_def of_pc_def\<close>)
qed

lemma caller_step_inv:
  assumes "caller_step now c s = (c', s')" "unat (se_version_counter s) + caller_draws c < 2 ^ 64"
    and "caller_inv (se_version_counter s) c" "engine_inv s"
  shows "caller_inv (se_version_counter s') c'" "engine_inv s'"
proof -
  have le: "se_version_counter s \<le> se_version_counter s'"
    by (rule caller_step_counter [OF assms(1,2)])
  from assms(1) have seen: "\<forall>v \<in> of_pc pc_seen {} c'. v \<le> se_version_counter s'"
  proof (cases rule: caller_step_cases)
    case (step pc)
    then show ?thesis using call_step_seen [of pc s now] assms(3) by (simp add: caller_inv_def of_pc_def)
  qed (use assms(3) in \<open>auto simp: caller_inv_def of_pc_def\<close>)
  have old: "sorted_wrt (<) (caller_versions c)" "\<forall>v \<in> set (caller_versions c). v \<le> se_version_counter s"
    using assms(3) by (simp_all add: caller_inv_def)
  from caller_step_versions [OF assms(1,2)] show "caller_inv (se_version_counter s') c'"
  proof
    assume "caller_versions c' = caller_versions c"
    with old seen le show ?thesis by (auto simp: caller_inv_def)
  next
    assume new: "se_version_counter s < se_version_counter s' \<and>
      caller_versions c' = caller_versions c @ [se_version_counter s']"
    then have "\<forall>v \<in> set (caller_versions c). v < se_version_counter s'"
      using old(2) by (blast intro: le_less_trans)
    with old(1) new seen show ?thesis by (auto simp: caller_inv_def sorted_wrt_append)
  qed
  from assms(1) show "engine_inv s'"
  proof (cases rule: caller_step_cases)
    case (step pc)
    then have "pc_draws pc \<noteq> 0 \<longrightarrow> se_version_counter s \<noteq> u64_max"
      using assms(2) by (auto simp: caller_draws_def of_pc_def)
    with step assms(3,4) show ?thesis by (auto simp: caller_inv_def of_pc_def intro!: call_step_inv)
  qed (use assms(4) in auto)
qed

text \<open>Of the whole system: \<open>B\<close> bounds the counter together with the draws that are left, so it
  does not wrap.\<close>

definition races_inv :: "nat \<Rightarrow> races \<Rightarrow> bool" where
  "races_inv B w \<longleftrightarrow>
     engine_inv (rc_engine w) \<and>
     (\<forall>c \<in> set (rc_callers w). caller_inv (se_version_counter (rc_engine w)) c) \<and>
     distinct (concat (map caller_versions (rc_callers w))) \<and>
     unat (se_version_counter (rc_engine w)) + sum_list (map caller_draws (rc_callers w)) \<le> B \<and>
     (\<forall>c \<in> set (rc_callers w). \<forall>v \<in> caller_given c.
        unat v + sum_list (map caller_draws (rc_callers w)) \<le> B)"

lemma sum_list_map_update:
  "i < length xs \<Longrightarrow> sum_list (map f (xs[i := y])) + f (xs ! i) = sum_list (map f xs) + (f y :: nat)"
  by (induction xs arbitrary: i) (auto split: nat.split)

lemma distinct_concat_extend:
  assumes "i < length xss" "distinct (concat xss)" "\<forall>xs \<in> set xss. x \<notin> set xs"
  shows "distinct (concat (xss[i := (xss ! i) @ [x]]))"
proof -
  have "mset (concat (xss[i := (xss ! i) @ [x]])) + mset (xss ! i) =
      mset (concat xss @ [x]) + mset (xss ! i)"
    using mset_concat_update [OF assms(1), of "(xss ! i) @ [x]"] by simp
  then have "mset (concat (xss[i := (xss ! i) @ [x]])) = mset (concat xss @ [x])" by simp
  moreover have "distinct (concat xss @ [x])" using assms(2,3) by auto
  ultimately show ?thesis by (metis mset_eq_imp_distinct_iff)
qed

lemma races_inv_step:
  assumes "races_inv B w" "B < 2 ^ 64"
  shows "races_inv B (race_step w ev)"
proof (cases ev)
  case (Tick d)
  with assms(1) show ?thesis by (simp add: races_inv_def)
next
  case (Turn i)
  show ?thesis
  proof (cases "i < length (rc_callers w)")
    case False
    with Turn assms(1) show ?thesis by simp
  next
    case True
    let ?cs = "rc_callers w" and ?s = "rc_engine w"
    obtain c' s' where step: "caller_step (rc_now w) (?cs ! i) ?s = (c', s')" by fastforce
    have w': "race_step w ev = w\<lparr>rc_engine := s', rc_callers := ?cs[i := c']\<rparr>"
      using Turn True step by simp
    have mem: "?cs ! i \<in> set ?cs" using True by simp
    let ?rest = "sum_list (map caller_draws ?cs) - caller_draws (?cs ! i)"
    have sum: "sum_list (map caller_draws ?cs) = ?rest + caller_draws (?cs ! i)"
      using member_le_sum_list [of "caller_draws (?cs ! i)" "map caller_draws ?cs"] mem by simp
    have sum': "sum_list (map caller_draws (?cs[i := c'])) = ?rest + caller_draws c'"
      using sum_list_map_update [OF True, of caller_draws c'] sum by linarith
    have B: "unat (se_version_counter ?s) + caller_draws (?cs ! i) \<le> B - ?rest"
      "\<forall>v \<in> caller_given (?cs ! i). unat v + caller_draws (?cs ! i) \<le> B - ?rest" "?rest \<le> B"
      using assms(1) sum mem unfolding races_inv_def by (fastforce simp: algebra_simps)+
    have lt: "B - ?rest < 2 ^ 64" using assms(2) by simp
    note draws = caller_step_draws [OF step B(1,2) lt]
    have nowrap: "unat (se_version_counter ?s) + caller_draws (?cs ! i) < 2 ^ 64" using B(1) lt by simp
    have inv: "caller_inv (se_version_counter ?s) (?cs ! i)" "engine_inv ?s"
      using assms(1) mem by (auto simp: races_inv_def)
    note keeps = caller_step_inv [OF step nowrap inv]
    note le = caller_step_counter [OF step nowrap]
    have all: "\<forall>c \<in> set (?cs[i := c']). caller_inv (se_version_counter s') c"
      using assms(1) keeps(1) le set_update_subset_insert [of ?cs i c']
      by (auto simp: races_inv_def intro: caller_inv_mono)
    have "distinct (concat (map caller_versions (?cs[i := c'])))"
      using caller_step_versions [OF step nowrap]
    proof
      assume "caller_versions c' = caller_versions (?cs ! i)"
      then have "map caller_versions (?cs[i := c']) = map caller_versions ?cs"
        using True by (simp add: map_update list_update_same_conv)
      with assms(1) show ?thesis by (simp only: races_inv_def)
    next
      assume new: "se_version_counter ?s < se_version_counter s' \<and>
        caller_versions c' = caller_versions (?cs ! i) @ [se_version_counter s']"
      have "\<forall>xs \<in> set (map caller_versions ?cs). se_version_counter s' \<notin> set xs"
        using assms(1) new by (fastforce simp: races_inv_def caller_inv_def)
      with distinct_concat_extend [of i "map caller_versions ?cs"] True assms(1) new show ?thesis
        by (simp add: map_update races_inv_def)
    qed
    moreover have "unat (se_version_counter s') + sum_list (map caller_draws (?cs[i := c'])) \<le> B"
      using draws(1) sum' B(3) by linarith
    moreover have "\<forall>c \<in> set (?cs[i := c']). \<forall>v \<in> caller_given c.
        unat v + sum_list (map caller_draws (?cs[i := c'])) \<le> B"
    proof (intro ballI)
      fix c v assume c: "c \<in> set (?cs[i := c'])" "v \<in> caller_given c"
      then have "\<exists>c \<in> set ?cs. v \<in> caller_given c"
        using draws(3) mem set_update_subset_insert [of ?cs i c'] by blast
      then have "unat v + sum_list (map caller_draws ?cs) \<le> B"
        using assms(1) by (auto simp: races_inv_def)
      then show "unat v + sum_list (map caller_draws (?cs[i := c'])) \<le> B"
        using draws(2) sum sum' by linarith
    qed
    ultimately show ?thesis
      using keeps(2) all unfolding w' races_inv_def by simp
  qed
qed

lemma race_run_Nil [simp]: "race_run [] w = w"
  by (simp add: race_run_def)

lemma race_run_Cons [simp]: "race_run (ev # evs) w = race_run evs (race_step w ev)"
  by (simp add: race_run_def)

lemma race_run_append: "race_run (es @ fs) w = race_run fs (race_run es w)"
  by (simp add: race_run_def)

lemma race_run_inv: "races_inv B w \<Longrightarrow> B < 2 ^ 64 \<Longrightarrow> races_inv B (race_run evs w)"
  by (induction evs arbitrary: w) (simp_all only: race_run_Nil race_run_Cons races_inv_step)

text \<open>The balance of the read counters: gets are hits, misses and the reads in flight.\<close>

definition races_balanced :: "races \<Rightarrow> bool" where
  "races_balanced w \<longleftrightarrow>
     st_gets (se_stats (rc_engine w)) =
       st_hits (se_stats (rc_engine w)) + st_misses (se_stats (rc_engine w)) +
       of_nat (sum_list (map (of_pc pc_reading 0) (rc_callers w)))"

lemma caller_step_balance:
  assumes "caller_step now c s = (c', s')"
  shows "st_gets (se_stats s') + st_hits (se_stats s) + st_misses (se_stats s) + of_nat (of_pc pc_reading 0 c) =
    st_gets (se_stats s) + st_hits (se_stats s') + st_misses (se_stats s') + of_nat (of_pc pc_reading 0 c')"
  using assms
proof (cases rule: caller_step_cases)
  case (step pc)
  with call_step_balance [of now pc s] show ?thesis
    by (simp add: of_pc_def algebra_simps)
qed (auto simp: of_pc_def)

lemma balance_arith:
  assumes "g = h + m + R" "g' + h + m + r = g + h' + m' + r'" "R' + r = R + r'"
  shows "g' = h' + m' + (R' :: u64)"
proof -
  have "(h' + m' + R') + (h + m + r) = h' + m' + h + m + (R' + r)" by (simp only: ac_simps)
  also have "\<dots> = g + h' + m' + r'" unfolding assms(1,3) by (simp only: ac_simps)
  also have "\<dots> = g' + (h + m + r)" unfolding assms(2) [symmetric] by (simp only: ac_simps)
  finally show ?thesis by (simp only: add_right_cancel)
qed

lemma races_balanced_step: "races_balanced w \<Longrightarrow> races_balanced (race_step w ev)"
proof (cases ev)
  case (Turn i)
  assume bal: "races_balanced w"
  show ?thesis
  proof (cases "i < length (rc_callers w)")
    case True
    obtain c' s' where step: "caller_step (rc_now w) (rc_callers w ! i) (rc_engine w) = (c', s')" by fastforce
    let ?r = "of_pc pc_reading 0" and ?cs = "rc_callers w"
    have sum: "sum_list (map ?r (?cs[i := c'])) + ?r (?cs ! i) = sum_list (map ?r ?cs) + ?r c'"
      by (rule sum_list_map_update [OF True])
    have "of_nat (sum_list (map ?r (?cs[i := c']))) + of_nat (?r (?cs ! i)) =
        (of_nat (sum_list (map ?r ?cs)) + of_nat (?r c') :: u64)"
      unfolding of_nat_add [symmetric] sum ..
    with balance_arith [OF bal [unfolded races_balanced_def] caller_step_balance [OF step]]
    show ?thesis unfolding Turn by (simp add: True step races_balanced_def)
  qed (use bal Turn in simp)
qed (simp add: races_balanced_def)

lemma race_run_balanced: "races_balanced w \<Longrightarrow> races_balanced (race_run evs w)"
  by (induction evs arbitrary: w) (simp_all add: races_balanced_step)

section \<open>Writers with keys of their own\<close>

text \<open>Calls of a caller that are not in the store yet, and those that are not counted yet.\<close>

fun pc_pending :: "call_pc \<Rightarrow> call list" where
  "pc_pending (Begin c) = [c]"
| "pc_pending (PutVersion key data ttl) = [CallPut key data ttl]"
| "pc_pending (PutStamp key data ttl version) = [CallPut key data ttl]"
| "pc_pending (PutInsert key e) = [CallPut key (ve_data e) (ve_ttl e)]"
| "pc_pending pc = []"

fun pc_uncounted :: "call_pc \<Rightarrow> nat" where
  "pc_uncounted (Begin c) = 1"
| "pc_uncounted pc = 0"

fun pc_left :: "call_pc \<Rightarrow> nat" where
  "pc_left (Begin c) = 5"
| "pc_left (PutVersion key data ttl) = 4"
| "pc_left (PutStamp key data ttl version) = 3"
| "pc_left (PutInsert key e) = 2"
| "pc_left pc = 1"

fun is_put :: "call \<Rightarrow> bool" where
  "is_put (CallPut key data ttl) = True"
| "is_put c = False"

fun put_pc :: "call_pc \<Rightarrow> bool" where
  "put_pc (Begin c) = is_put c"
| "put_pc (PutVersion key data ttl) = True"
| "put_pc (PutStamp key data ttl version) = True"
| "put_pc (PutInsert key e) = True"
| "put_pc (Answered r) = True"
| "put_pc pc = False"

definition caller_puts :: "caller \<Rightarrow> bool" where
  "caller_puts c \<longleftrightarrow> of_pc put_pc True c \<and> (\<forall>call \<in> set (ca_todo c). is_put call)"

definition caller_pending :: "caller \<Rightarrow> call list" where
  "caller_pending c = of_pc pc_pending [] c @ ca_todo c"

definition caller_uncounted :: "caller \<Rightarrow> nat" where
  "caller_uncounted c = of_pc pc_uncounted 0 c + length (ca_todo c)"

definition caller_left :: "caller \<Rightarrow> nat" where
  "caller_left c = of_pc pc_left 0 c + 6 * length (ca_todo c)"

fun put_entry :: "string \<Rightarrow> (u8 list \<times> duration option) option \<Rightarrow> call \<Rightarrow> (u8 list \<times> duration option) option" where
  "put_entry key x (CallPut k data ttl) = (if k = key then Some (data, ttl) else x)"
| "put_entry key x c = x"

definition last_put :: "string \<Rightarrow> call list \<Rightarrow> (u8 list \<times> duration option) option" where
  "last_put key calls = foldl (put_entry key) None calls"

definition put_keys :: "call list \<Rightarrow> string set" where
  "put_keys calls = {key. \<exists>data ttl. CallPut key data ttl \<in> set calls}"

lemma call_step_put:
  assumes "put_pc pc" "\<not> answered pc" "call_step now pc s = (pc', s')"
  shows "put_pc pc' \<and> pc_left pc = Suc (pc_left pc') \<and>
    st_puts (se_stats s') + of_nat (pc_uncounted pc') = st_puts (se_stats s) + of_nat (pc_uncounted pc) \<and>
    (pc_pending pc' = pc_pending pc \<and> se_store s' = se_store s \<or>
     (\<exists>k e. pc_pending pc = [CallPut k (ve_data e) (ve_ttl e)] \<and> pc_pending pc' = [] \<and>
            se_store s' = (se_store s)(k \<mapsto> e)))"
proof (cases pc)
  case (Begin c)
  with assms show ?thesis by (cases c) (auto simp: call_step.simps on_stats_def)
qed (use assms in \<open>auto simp: call_step.simps\<close>)

lemma caller_step_put:
  assumes "caller_puts c" "caller_step now c s = (c', s')"
  shows "caller_puts c'" "caller_left c' = caller_left c - 1"
    "st_puts (se_stats s') + of_nat (caller_uncounted c') = st_puts (se_stats s) + of_nat (caller_uncounted c)"
    "caller_pending c' = caller_pending c \<and> se_store s' = se_store s \<or>
     (\<exists>k e. caller_pending c = CallPut k (ve_data e) (ve_ttl e) # caller_pending c' \<and>
            se_store s' = (se_store s)(k \<mapsto> e))"
proof -
  note defs = caller_puts_def caller_left_def caller_uncounted_def caller_pending_def of_pc_def
  have "caller_puts c' \<and> caller_left c' = caller_left c - 1 \<and>
    st_puts (se_stats s') + of_nat (caller_uncounted c') = st_puts (se_stats s) + of_nat (caller_uncounted c) \<and>
    (caller_pending c' = caller_pending c \<and> se_store s' = se_store s \<or>
     (\<exists>k e. caller_pending c = CallPut k (ve_data e) (ve_ttl e) # caller_pending c' \<and>
            se_store s' = (se_store s)(k \<mapsto> e)))"
    using assms(2)
  proof (cases rule: caller_step_cases)
    case (step pc)
    have "put_pc pc" using assms(1) step(1) by (simp add: defs)
    note call = call_step_put [OF this step(2) surjective_pairing, of now s, folded step(4)]
    show ?thesis using call assms(1) step(1) unfolding step(3) by (auto simp: defs)
  qed (use assms(1) in \<open>auto simp: defs\<close>)
  then show "caller_puts c'" "caller_left c' = caller_left c - 1"
    "st_puts (se_stats s') + of_nat (caller_uncounted c') = st_puts (se_stats s) + of_nat (caller_uncounted c)"
    "caller_pending c' = caller_pending c \<and> se_store s' = se_store s \<or>
     (\<exists>k e. caller_pending c = CallPut k (ve_data e) (ve_ttl e) # caller_pending c' \<and>
            se_store s' = (se_store s)(k \<mapsto> e))"
    by blast+
qed

text \<open>Callers against the programs they started from: what a caller no longer has pending is in the
  store, under keys no other caller touches.\<close>

definition puts_stored :: "storage_engine \<Rightarrow> call list list \<Rightarrow> races \<Rightarrow> bool" where
  "puts_stored s0 programs w \<longleftrightarrow>
     length (rc_callers w) = length programs \<and>
     (\<forall>i < length programs. caller_puts (rc_callers w ! i) \<and>
        (\<exists>written. programs ! i = written @ caller_pending (rc_callers w ! i) \<and>
           (\<forall>k \<in> put_keys written. map_option (\<lambda>e. (ve_data e, ve_ttl e)) (se_store (rc_engine w) k) =
              last_put k written))) \<and>
     (\<forall>k. k \<notin> \<Union> (put_keys ` set programs) \<longrightarrow> se_store (rc_engine w) k = se_store s0 k) \<and>
     st_puts (se_stats (rc_engine w)) + of_nat (sum_list (map caller_uncounted (rc_callers w))) =
       st_puts (se_stats s0) + of_nat (sum_list (map length programs))"

definition separate_keys :: "call list list \<Rightarrow> bool" where
  "separate_keys programs \<longleftrightarrow>
     (\<forall>i < length programs. \<forall>j < length programs. i \<noteq> j \<longrightarrow>
        put_keys (programs ! i) \<inter> put_keys (programs ! j) = {})"

lemma put_keys_append [simp]: "put_keys (xs @ ys) = put_keys xs \<union> put_keys ys"
  by (auto simp: put_keys_def)

lemma put_keys_Cons [simp]: "put_keys (CallPut key data ttl # xs) = insert key (put_keys xs)"
  by (auto simp: put_keys_def)

lemma last_put_snoc [simp]: "last_put k (xs @ [c]) = put_entry k (last_put k xs) c"
  by (simp add: last_put_def)

lemma last_put_None: "k \<notin> put_keys calls \<Longrightarrow> last_put k calls = None"
proof (induction calls rule: rev_induct)
  case (snoc c calls)
  then show ?case by (cases c) (auto simp: put_keys_def)
qed (simp add: last_put_def)

lemma puts_stored_init:
  "\<forall>p \<in> set programs. \<forall>c \<in> set p. is_put c \<Longrightarrow>
   puts_stored s programs (race_init s now programs)"
  by (auto simp: puts_stored_def race_init_def caller_puts_def caller_pending_def caller_uncounted_def
      of_pc_def put_keys_def comp_def)

lemma count_arith:
  assumes "U' + u = U + u'" "p' + u' = p + u" "p + U = t"
  shows "p' + U' = (t :: u64)"
proof -
  have "(p' + U') + (u' + u) = (p' + u') + (U' + u)" by (simp only: ac_simps)
  also have "\<dots> = t + (u' + u)" unfolding assms(1,2) assms(3) [symmetric] by (simp only: ac_simps)
  finally show ?thesis by (simp only: add_right_cancel)
qed

lemma puts_stored_step:
  assumes sep: "separate_keys programs" and st: "puts_stored s0 programs w"
  shows "puts_stored s0 programs (race_step w ev)"
proof (cases ev)
  case (Tick d)
  with st show ?thesis by (simp add: puts_stored_def)
next
  case (Turn i)
  show ?thesis
  proof (cases "i < length (rc_callers w)")
    case False
    with st Turn show ?thesis by simp
  next
    case True
    let ?cs = "rc_callers w" and ?s = "rc_engine w"
    note st' = st [unfolded puts_stored_def]
    obtain c' s' where step: "caller_step (rc_now w) (?cs ! i) ?s = (c', s')" by fastforce
    have w': "race_step w ev = w\<lparr>rc_engine := s', rc_callers := ?cs[i := c']\<rparr>"
      using Turn True step by simp
    have i: "i < length programs" using st' True by simp
    obtain written where p: "programs ! i = written @ caller_pending (?cs ! i)"
      and stored: "\<forall>k \<in> put_keys written. map_option (\<lambda>e. (ve_data e, ve_ttl e)) (se_store ?s k) = last_put k written"
      and puts: "caller_puts (?cs ! i)"
      using st' i by blast
    note call = caller_step_put [OF puts step]
    have "of_nat (sum_list (map caller_uncounted (?cs[i := c']))) + of_nat (caller_uncounted (?cs ! i)) =
        (of_nat (sum_list (map caller_uncounted ?cs)) + of_nat (caller_uncounted c') :: u64)"
      unfolding of_nat_add [symmetric] sum_list_map_update [OF True, of caller_uncounted c'] ..
    then have counted: "st_puts (se_stats s') + of_nat (sum_list (map caller_uncounted (?cs[i := c']))) =
        st_puts (se_stats s0) + of_nat (sum_list (map length programs))"
      using call(3) by (rule count_arith) (use st' in blast)
    have new: "\<exists>written. programs ! i = written @ caller_pending c' \<and>
        (\<forall>k \<in> put_keys written. map_option (\<lambda>e. (ve_data e, ve_ttl e)) (se_store s' k) = last_put k written)"
      using call(4)
    proof
      assume "\<exists>k e. caller_pending (?cs ! i) = CallPut k (ve_data e) (ve_ttl e) # caller_pending c' \<and>
        se_store s' = (se_store ?s)(k \<mapsto> e)"
      then obtain k e where ke: "caller_pending (?cs ! i) = CallPut k (ve_data e) (ve_ttl e) # caller_pending c'"
        "se_store s' = (se_store ?s)(k \<mapsto> e)" by blast
      show ?thesis
        by (rule exI [of _ "written @ [CallPut k (ve_data e) (ve_ttl e)]"])
           (use p stored ke in \<open>auto simp: put_keys_def\<close>)
    qed (use p stored in auto)
    have frame: "se_store s' k = se_store ?s k" if "k \<notin> put_keys (programs ! i)" for k
      using call(4) p that by auto
    have other: "caller_puts (?cs ! j) \<and> (\<exists>written. programs ! j = written @ caller_pending (?cs ! j) \<and>
        (\<forall>k \<in> put_keys written. map_option (\<lambda>e. (ve_data e, ve_ttl e)) (se_store s' k) = last_put k written))"
      if j: "j < length programs" "j \<noteq> i" for j
    proof -
      obtain written where pj: "programs ! j = written @ caller_pending (?cs ! j)" "caller_puts (?cs ! j)"
        "\<forall>k \<in> put_keys written. map_option (\<lambda>e. (ve_data e, ve_ttl e)) (se_store ?s k) = last_put k written"
        using st' j by blast
      have "put_keys (programs ! j) \<inter> put_keys (programs ! i) = {}"
        using sep j i unfolding separate_keys_def by blast
      moreover have "put_keys written \<subseteq> put_keys (programs ! j)"
        unfolding pj(1) by simp
      ultimately have "se_store s' k = se_store ?s k" if "k \<in> put_keys written" for k
        using that by (intro frame) blast
      with pj show ?thesis by auto
    qed
    have outside: "se_store s' k = se_store s0 k" if "k \<notin> \<Union> (put_keys ` set programs)" for k
      using that frame [of k] st' i by (metis UN_I nth_mem)
    have each: "caller_puts (?cs[i := c'] ! j) \<and> (\<exists>written. programs ! j = written @ caller_pending (?cs[i := c'] ! j) \<and>
        (\<forall>k \<in> put_keys written. map_option (\<lambda>e. (ve_data e, ve_ttl e)) (se_store s' k) = last_put k written))"
      if "j < length programs" for j
      using that new call(1) other [of j] True by (cases "j = i") simp_all
    have len: "length (?cs[i := c']) = length programs" using st' by simp
    have w'': "rc_engine (race_step w ev) = s'" "rc_callers (race_step w ev) = ?cs[i := c']"
      by (simp_all add: w')
    show ?thesis
      unfolding puts_stored_def w'' using len each outside counted by (intro conjI allI impI) blast+
  qed
qed

lemma race_run_puts_stored:
  "separate_keys programs \<Longrightarrow> puts_stored s0 programs w \<Longrightarrow> puts_stored s0 programs (race_run evs w)"
  by (induction evs arbitrary: w) (simp_all add: puts_stored_step)

text \<open>A put takes six turns of its caller, whatever the others do.\<close>

definition turns :: "nat \<Rightarrow> race_event list \<Rightarrow> nat" where
  "turns i evs = length (filter (\<lambda>ev. ev = Turn i) evs)"

lemma race_step_left:
  assumes "puts_stored s0 programs w" "i < length programs"
  shows "caller_left (rc_callers (race_step w ev) ! i) =
    caller_left (rc_callers w ! i) - (if ev = Turn i then 1 else 0)"
proof (cases ev)
  case (Turn j)
  have len: "length (rc_callers w) = length programs" using assms(1) by (simp add: puts_stored_def)
  show ?thesis
  proof (cases "j < length programs")
    case True
    then have puts: "caller_puts (rc_callers w ! j)" using assms(1) by (simp add: puts_stored_def)
    obtain c' s' where step: "caller_step (rc_now w) (rc_callers w ! j) (rc_engine w) = (c', s')" by fastforce
    from caller_step_put(2) [OF puts step] Turn True len assms(2) step show ?thesis
      by (auto simp: nth_list_update)
  qed (use Turn len assms(2) in auto)
qed simp

lemma race_run_left:
  assumes "separate_keys programs" "puts_stored s0 programs w" "i < length programs"
  shows "caller_left (rc_callers (race_run evs w) ! i) = caller_left (rc_callers w ! i) - turns i evs"
  using assms(2)
proof (induction evs arbitrary: w)
  case (Cons ev evs)
  from Cons.IH [OF puts_stored_step [OF assms(1) Cons.prems]] race_step_left [OF Cons.prems assms(3), of ev]
  show ?case by (simp add: turns_def)
qed (simp add: turns_def)

lemma caller_left_0: "caller_left c = 0 \<longleftrightarrow> ca_pc c = None \<and> ca_todo c = []"
proof -
  have "pc_left pc \<noteq> 0" for pc by (cases pc) simp_all
  then show ?thesis by (auto simp: caller_left_def of_pc_def split: option.splits)
qed

lemma puts_over:
  assumes "puts_stored s0 programs w" "race_over w"
  shows "\<forall>p \<in> set programs. \<forall>k \<in> put_keys p.
      map_option (\<lambda>e. (ve_data e, ve_ttl e)) (se_store (rc_engine w) k) = last_put k p"
    and "st_puts (se_stats (rc_engine w)) = st_puts (se_stats s0) + of_nat (sum_list (map length programs))"
proof -
  have idle: "ca_pc c = None" "ca_todo c = []" if "c \<in> set (rc_callers w)" for c
    using assms(2) that by (auto simp: race_over_def)
  have zero: "sum_list (map caller_uncounted (rc_callers w)) = 0"
    by (auto simp: caller_uncounted_def of_pc_def idle)
  have "st_puts (se_stats (rc_engine w)) + of_nat (sum_list (map caller_uncounted (rc_callers w))) =
      st_puts (se_stats s0) + of_nat (sum_list (map length programs))"
    using assms(1) unfolding puts_stored_def by blast
  then show "st_puts (se_stats (rc_engine w)) = st_puts (se_stats s0) + of_nat (sum_list (map length programs))"
    unfolding zero by simp
  show "\<forall>p \<in> set programs. \<forall>k \<in> put_keys p.
      map_option (\<lambda>e. (ve_data e, ve_ttl e)) (se_store (rc_engine w) k) = last_put k p"
  proof (intro ballI)
    fix p k assume p: "p \<in> set programs" "k \<in> put_keys p"
    then obtain i where i: "i < length programs" "p = programs ! i" by (auto simp: in_set_conv_nth)
    moreover have "rc_callers w ! i \<in> set (rc_callers w)" using assms(1) i by (simp add: puts_stored_def)
    then have "caller_pending (rc_callers w ! i) = []" by (simp add: caller_pending_def of_pc_def idle)
    ultimately show "map_option (\<lambda>e. (ve_data e, ve_ttl e)) (se_store (rc_engine w) k) = last_put k p"
      using assms(1) p(2) by (auto simp: puts_stored_def)
  qed
qed

definition versions_returned :: "caller \<Rightarrow> u64 list" where
  "versions_returned c = concat (map reply_versions (ca_replies c))"

lemma concat_map_Nil: "concat (map (\<lambda>x. []) xs) = []"
  by (induction xs) auto

lemma races_inv_init:
  assumes "engine_inv s"
    and "unat (se_version_counter s) + sum_list (map (\<lambda>p. sum_list (map call_draws p)) programs) \<le> B"
    and "\<forall>p \<in> set programs. \<forall>c \<in> set p. \<forall>v \<in> call_given c.
      unat v + sum_list (map (\<lambda>p. sum_list (map call_draws p)) programs) \<le> B"
  shows "races_inv B (race_init s now programs)"
  using assms
  by (auto simp: races_inv_def race_init_def caller_inv_def caller_versions_def caller_draws_def
      caller_given_def of_pc_def comp_def concat_map_Nil)

lemma races_inv_returned:
  assumes "races_inv B w"
  shows "distinct (concat (map versions_returned (rc_callers w)))"
    and "c \<in> set (rc_callers w) \<Longrightarrow> sorted_wrt (<) (versions_returned c) \<and>
      (\<forall>v \<in> set (versions_returned c). v \<le> se_version_counter (rc_engine w))"
proof -
  have split: "caller_versions c = versions_returned c @ of_pc pc_versions [] c" for c
    by (simp add: caller_versions_def versions_returned_def)
  have "distinct (concat (map caller_versions cs)) \<Longrightarrow> distinct (concat (map versions_returned cs))" for cs
    by (induction cs) (auto simp: split)
  with assms show "distinct (concat (map versions_returned (rc_callers w)))"
    by (simp add: races_inv_def)
  assume "c \<in> set (rc_callers w)"
  with assms show "sorted_wrt (<) (versions_returned c) \<and>
      (\<forall>v \<in> set (versions_returned c). v \<le> se_version_counter (rc_engine w))"
    by (auto simp: races_inv_def caller_inv_def split sorted_wrt_append)
qed

section \<open>Properties\<close>

text \<open>C13. A call that runs without another thread in between, from its first atomic step to its answer,
  gives the reply and leaves the engine that the operation of \<open>Storage\<close> gives: the operations as
  single transitions are what the steps of the code add up to.\<close>

theorem uninterrupted_call:
  "\<exists>n. run_call n now (Begin c) s = map_prod Answered id (whole_call now c s)"
  using call_alone [of now c s] by (simp add: reaches_def)

text \<open>C12. Whatever the interleaving of any number of threads that get, put, replicate, delete and purge,
  at every point: the engine's invariant holds; the versions \<open>put\<close> has returned are pairwise
  distinct over all threads, strictly increasing in each thread, and not above the counter; and
  when no call is in flight gets are hits plus misses. The hypotheses keep the counter from
  wrapping: \<open>B\<close> is above the counter and every replicated version by the number of puts.\<close>

theorem concurrent_calls_invariant:
  assumes "engine_inv s" and "stats_balanced s"
    and "draws = sum_list (map (\<lambda>p. sum_list (map call_draws p)) programs)"
    and "unat (se_version_counter s) + draws < 2 ^ 64"
    and "\<forall>p \<in> set programs. \<forall>c \<in> set p. \<forall>v \<in> call_given c. unat v + draws < 2 ^ 64"
    and "w = race_run evs (race_init s now programs)"
  shows "engine_inv (rc_engine w) \<and>
    distinct (concat (map versions_returned (rc_callers w))) \<and>
    (\<forall>c \<in> set (rc_callers w). sorted_wrt (<) (versions_returned c) \<and>
       (\<forall>v \<in> set (versions_returned c). v \<le> se_version_counter (rc_engine w))) \<and>
    (race_over w \<longrightarrow> stats_balanced (rc_engine w))"
proof -
  have "races_inv (2 ^ 64 - 1) (race_init s now programs)"
  proof (rule races_inv_init [OF assms(1)], unfold assms(3) [symmetric])
    show "unat (se_version_counter s) + draws \<le> 2 ^ 64 - 1"
      using assms(4) by simp
    show "\<forall>p \<in> set programs. \<forall>c \<in> set p. \<forall>v \<in> call_given c. unat v + draws \<le> 2 ^ 64 - 1"
    proof (intro ballI)
      fix p c v assume "p \<in> set programs" "c \<in> set p" "v \<in> call_given c"
      with assms(5) have "unat v + draws < 2 ^ 64" by blast
      then show "unat v + draws \<le> 2 ^ 64 - 1" by simp
    qed
  qed
  then have inv: "races_inv (2 ^ 64 - 1) w"
    unfolding assms(6) by (rule race_run_inv) simp
  have "races_balanced (race_init s now programs)"
    using assms(2) by (simp add: races_balanced_def stats_balanced_def race_init_def of_pc_def comp_def)
  then have bal: "races_balanced w" unfolding assms(6) by (rule race_run_balanced)
  have "stats_balanced (rc_engine w)" if "race_over w"
  proof -
    have "sum_list (map (of_pc pc_reading 0) (rc_callers w)) = 0"
      using that by (auto simp: race_over_def of_pc_def)
    with bal show ?thesis by (simp add: races_balanced_def stats_balanced_def)
  qed
  with races_inv_returned [OF inv] inv show ?thesis by (auto simp: races_inv_def)
qed

theorem concurrent_calls_invariant_witness:
  "engine_inv (rc_engine (race_run [Turn 0, Turn 1, Turn 0, Turn 1, Turn 2, Tick 3, Turn 0, Turn 1, Turn 2]
     (race_init engine_new 0 [[CallPut ''a'' [1] None, CallGet ''a''], [CallReplicate ''a'' [2] 9 None],
        [CallPurge [''a''], CallDelete ''a'', CallPut ''a'' [3] (Some 1)]])))"
  by (rule concurrent_calls_invariant [OF engine_inv_new _ refl _ _ refl, THEN conjunct1])
     (simp_all add: stats_balanced_def engine_new_def storage_stats_default_def)

text \<open>Concurrent writers with keys of their own lose nothing: under every schedule that gives each
  thread six turns per put, all the puts return, each key holds the data and the time to live of
  the last put its thread made, the other keys are untouched, and the put counter has counted
  every call.\<close>

theorem concurrent_puts_stored:
  assumes "separate_keys programs" and "\<forall>p \<in> set programs. \<forall>c \<in> set p. is_put c"
    and "\<forall>i < length programs. 6 * length (programs ! i) \<le> turns i evs"
    and "w = race_run evs (race_init s now programs)"
  shows "race_over w \<and>
    (\<forall>p \<in> set programs. \<forall>k \<in> put_keys p.
       map_option (\<lambda>e. (ve_data e, ve_ttl e)) (se_store (rc_engine w) k) = last_put k p) \<and>
    (\<forall>k. k \<notin> \<Union> (put_keys ` set programs) \<longrightarrow> se_store (rc_engine w) k = se_store s k) \<and>
    st_puts (se_stats (rc_engine w)) = st_puts (se_stats s) + of_nat (sum_list (map length programs))"
proof -
  have init: "puts_stored s programs (race_init s now programs)"
    by (rule puts_stored_init [OF assms(2)])
  have stored: "puts_stored s programs w"
    unfolding assms(4) by (rule race_run_puts_stored [OF assms(1) init])
  then have len: "length (rc_callers w) = length programs" by (simp add: puts_stored_def)
  have "caller_left (rc_callers w ! i) = 0" if "i < length programs" for i
    using race_run_left [OF assms(1) init that, of evs] assms(3) that
    by (simp add: assms(4) race_init_def caller_left_def of_pc_def)
  then have over: "race_over w"
    unfolding race_over_def all_set_conv_all_nth len by (simp flip: caller_left_0)
  with puts_over [OF stored over] stored show ?thesis by (simp add: puts_stored_def)
qed

theorem concurrent_puts_stored_witness:
  "st_puts (se_stats (rc_engine (race_run (concat (replicate 12 [Turn 0, Turn 1]))
     (race_init engine_new 0 [[CallPut ''a'' [1] None, CallPut ''a'' [2] None], [CallPut ''b'' [3] (Some 1)]])))) = 3"
proof -
  let ?programs = "[[CallPut ''a'' [1] None, CallPut ''a'' [2] None], [CallPut ''b'' [3] (Some 1)]]"
  have sep: "separate_keys ?programs"
    by (auto simp: separate_keys_def put_keys_def less_Suc_eq)
  have turns: "\<forall>i < length ?programs. 6 * length (?programs ! i) \<le> turns i (concat (replicate 12 [Turn 0, Turn 1]))"
    by (auto simp: turns_def less_Suc_eq numeral_eq_Suc)
  from concurrent_puts_stored [OF sep _ turns refl, of engine_new 0] show ?thesis
    by (simp add: engine_new_def storage_stats_default_def)
qed

text \<open>C14. Two replicated writes of one key handled at the same time: \<open>put_with_version\<close> looks at the
  stored version before it inserts, in two separate accesses to the map, so both writes can pass
  the test and the older be inserted last. Both calls answer that they were applied, and the
  replica ends with the older value.\<close>

theorem replicate_race_keeps_older:
  assumes "v < v'" and "se_version_counter s < v"
    and "\<forall>e. se_store s key = Some e \<longrightarrow> ve_version e < v"
  shows "\<exists>evs w. w = race_run evs
      (race_init s now [[CallReplicate key data v ttl], [CallReplicate key data' v' ttl']]) \<and>
    race_over w \<and>
    map ca_replies (rc_callers w) = [[GotApplied True], [GotApplied True]] \<and>
    se_store (rc_engine w) key =
      Some \<lparr>ve_data = data, ve_version = v, ve_created_at = now, ve_ttl = ttl\<rparr>"
proof (intro exI conjI)
  let ?evs = "replicate 5 (Turn 0) @ replicate 8 (Turn 1) @ replicate 3 (Turn 0)"
  let ?w = "race_run ?evs (race_init s now [[CallReplicate key data v ttl], [CallReplicate key data' v' ttl']])"
  have "\<not> ve_version e \<ge> v" "\<not> ve_version e \<ge> v'" if "se_store s key = Some e" for e
    using assms that by force+
  then show "race_over ?w" "map ca_replies (rc_callers ?w) = [[GotApplied True], [GotApplied True]]"
    "se_store (rc_engine ?w) key = Some \<lparr>ve_data = data, ve_version = v, ve_created_at = now, ve_ttl = ttl\<rparr>"
    using assms(1,2)
    by (cases "se_store s key"; simp add: race_init_def race_over_def numeral_eq_Suc caller_step.simps
      call_step.simps compare_exchange_def on_stats_def)+
qed (rule refl)

theorem replicate_race_keeps_older_witness:
  "\<exists>evs w. w = race_run evs
      (race_init engine_new 0 [[CallReplicate ''k'' [1] 5 None], [CallReplicate ''k'' [2] 7 None]]) \<and>
    race_over w \<and> map ca_replies (rc_callers w) = [[GotApplied True], [GotApplied True]] \<and>
    se_store (rc_engine w) ''k'' =
      Some \<lparr>ve_data = [1], ve_version = 5, ve_created_at = 0, ve_ttl = None\<rparr>"
  by (rule replicate_race_keeps_older) (simp_all add: engine_new_def)

text \<open>The removal of expired entries races with a write: \<open>get\<close> and \<open>purge_expired\<close> find the entry
  expired, the key is written anew and the write is acknowledged, and then they remove the key,
  with the fresh value under it.\<close>

theorem removal_race_loses_write:
  assumes "se_store s key = Some e" and "is_expired now e"
    and "removal = CallGet key \<or> removal = CallPurge [key]"
  shows "\<exists>evs w. w = race_run evs (race_init s now [[removal], [CallPut key data ttl]]) \<and>
    race_over w \<and>
    ca_replies (rc_callers w ! 1) = [GotVersion (se_version_counter s + 1)] \<and>
    se_store (rc_engine w) key = None"
proof (intro exI conjI)
  let ?evs = "replicate 4 (Turn 0) @ replicate 6 (Turn 1) @ replicate 4 (Turn 0)"
  let ?w = "race_run ?evs (race_init s now [[removal], [CallPut key data ttl]])"
  show "race_over ?w" "ca_replies (rc_callers ?w ! 1) = [GotVersion (se_version_counter s + 1)]"
    "se_store (rc_engine ?w) key = None"
    using assms
    by (elim disjE; simp add: race_init_def race_over_def numeral_eq_Suc caller_step.simps
      call_step.simps on_stats_def)+
qed (rule refl)

theorem removal_race_loses_write_witness:
  "\<exists>evs w. w = race_run evs (race_init
      (engine_new\<lparr>se_store := [''k'' \<mapsto> \<lparr>ve_data = [1], ve_version = 1, ve_created_at = 0, ve_ttl = Some 5\<rparr>],
                  se_version_counter := 1\<rparr>) 9 [[CallGet ''k''], [CallPut ''k'' [2] None]]) \<and>
    race_over w \<and>
    ca_replies (rc_callers w ! 1) = [GotVersion (se_version_counter
      (engine_new\<lparr>se_store := [''k'' \<mapsto> \<lparr>ve_data = [1], ve_version = 1, ve_created_at = 0, ve_ttl = Some 5\<rparr>],
                  se_version_counter := 1\<rparr>) + 1)] \<and>
    se_store (rc_engine w) ''k'' = None"
  by (rule removal_race_loses_write
        [where e = "\<lparr>ve_data = [1], ve_version = 1, ve_created_at = 0, ve_ttl = Some 5\<rparr>"])
     (simp_all add: is_expired_def elapsed_def)

text \<open>Two puts of one key by two threads can insert in the opposite order of their versions: both
  are acknowledged, the engine keeps the one with the smaller version, and a replica that
  receives both writes, in either order, keeps the other: primary and replica disagree until the
  next write.\<close>

theorem put_race_diverges:
  assumes "unat (se_version_counter s) + 2 < 2 ^ 64" and "\<forall>e. se_store s' key = Some e \<longrightarrow> ve_version e \<le> se_version_counter s"
    and "v = se_version_counter s + 1" and "v' = v + 1"
  shows "\<exists>evs w. w = race_run evs (race_init s now [[CallPut key data ttl], [CallPut key data' ttl']]) \<and>
    race_over w \<and>
    map ca_replies (rc_callers w) = [[GotVersion v], [GotVersion v']] \<and>
    map_option ve_data (se_store (rc_engine w) key) = Some data \<and>
    map_option ve_data (se_store (foldl (deliver key) s' [(t, data, v, ttl), (t', data', v', ttl')]) key) = Some data' \<and>
    map_option ve_data (se_store (foldl (deliver key) s' [(t', data', v', ttl'), (t, data, v, ttl)]) key) = Some data'"
proof (intro exI conjI)
  let ?evs = "replicate 3 (Turn 0) @ replicate 6 (Turn 1) @ replicate 3 (Turn 0)"
  let ?w = "race_run ?evs (race_init s now [[CallPut key data ttl], [CallPut key data' ttl']])"
  show "race_over ?w" "map ca_replies (rc_callers ?w) = [[GotVersion v], [GotVersion v']]"
    "map_option ve_data (se_store (rc_engine ?w) key) = Some data"
    using assms(3,4)
    by (simp_all add: race_init_def race_over_def numeral_eq_Suc caller_step.simps call_step.simps on_stats_def)
  have "se_version_counter s \<noteq> u64_max" using assms(1) by auto
  then have step1: "unat (se_version_counter s + 1) = unat (se_version_counter s) + 1"
    by (rule unat_Suc_u64)
  then have "unat (se_version_counter s + 1) \<noteq> unat u64_max" using assms(1) by simp
  then have "se_version_counter s + 1 \<noteq> u64_max" by (rule contrapos_nn) (simp only:)
  from unat_Suc_u64 [OF this] have step2: "unat (se_version_counter s + 1 + 1) = unat (se_version_counter s + 1) + 1" .
  have "se_version_counter s < v" "v < v'"
    using assms(1) unfolding assms(3,4) by (simp_all only: word_less_nat_alt step1 step2 less_add_one)
  then have vv: "\<not> v' \<le> v" "v \<le> v'" and lt: "\<And>x. x \<le> se_version_counter s \<Longrightarrow> \<not> v \<le> x \<and> \<not> v' \<le> x"
    by (auto simp: not_le)
  have old: "\<not> v \<le> ve_version e \<and> \<not> v' \<le> ve_version e" if "se_store s' key = Some e" for e
    using assms(2) that by (intro lt) blast
  show "map_option ve_data (se_store (foldl (deliver key) s' [(t, data, v, ttl), (t', data', v', ttl')]) key) = Some data'"
    using old vv by (cases "se_store s' key") (simp_all only: foldl_deliver_store, simp_all)
  show "map_option ve_data (se_store (foldl (deliver key) s' [(t', data', v', ttl'), (t, data, v, ttl)]) key) = Some data'"
    using old vv by (cases "se_store s' key") (simp_all only: foldl_deliver_store, simp_all)
qed (rule refl)

theorem put_race_diverges_witness:
  "\<exists>evs w. w = race_run evs (race_init engine_new 0 [[CallPut ''k'' [1] None], [CallPut ''k'' [2] None]]) \<and>
    race_over w \<and> map ca_replies (rc_callers w) = [[GotVersion 1], [GotVersion 2]] \<and>
    map_option ve_data (se_store (rc_engine w) ''k'') = Some [1] \<and>
    map_option ve_data (se_store (foldl (deliver ''k'') engine_new [(3, [1], 1, None), (4, [2], 2, None)]) ''k'') = Some [2] \<and>
    map_option ve_data (se_store (foldl (deliver ''k'') engine_new [(4, [2], 2, None), (3, [1], 1, None)]) ''k'') = Some [2]"
proof (rule put_race_diverges [of engine_new engine_new "''k''" 1 2])
  show "unat (se_version_counter engine_new) + 2 < 2 ^ 64" by (simp add: engine_new_def)
  show "\<forall>e. se_store engine_new ''k'' = Some e \<longrightarrow> ve_version e \<le> se_version_counter engine_new"
    by (simp add: engine_new_def)
  show "1 = se_version_counter engine_new + 1" by (simp add: engine_new_def)
  show "(2 :: u64) = 1 + 1" by simp
qed

end
