(* ===== verification/HashRing.thy ===== *)
theory HashRing
  imports Prelude
begin

text \<open>
  The consistent hash rings of \<open>tp-kv-distributed/src/consistent_hash.rs\<close> and
  \<open>demos/src/bin/demo_3_3a_consistent_hashing.rs\<close>.

  A ring is the ordered map from positions to physical nodes; \<open>DefaultHasher\<close> is the parameter
  \<open>h\<close>, so every theorem holds for every hash function, collisions included, unless it says
  otherwise. The locale \<open>consistent_router\<close> is the contract of both rings (what adding and
  removing a node do to the points, how a key is routed); its lemmas are the minimal-disruption
  facts, and both implementations interpret it.
\<close>

section \<open>The ring of the store\<close>

record chring =
  hr_ring :: "(u64 \<times> string) list"
  hr_nodes :: "string list"
  hr_virtual_nodes :: usize

definition default_virtual_nodes :: usize where
  "default_virtual_nodes = 150"

definition ring_new :: "usize \<Rightarrow> chring" where
  "ring_new virtual_nodes =
     \<lparr>hr_ring = [], hr_nodes = [], hr_virtual_nodes = virtual_nodes\<rparr>"

definition vnode_key :: "string \<Rightarrow> nat \<Rightarrow> string" where
  "vnode_key node_id i = node_id @ ''#vnode-'' @ show_nat i"

definition insert_points ::
  "(nat \<Rightarrow> u64) \<Rightarrow> string \<Rightarrow> nat list \<Rightarrow> (u64 \<times> string) list \<Rightarrow> (u64 \<times> string) list" where
  "insert_points pos node is r = foldl (\<lambda>r i. btm_insert (pos i) node r) r is"

definition ring_add_node :: "(string \<Rightarrow> u64) \<Rightarrow> string \<Rightarrow> chring \<Rightarrow> chring" where
  "ring_add_node h node_id s =
     (if list_ex (\<lambda>n. n = node_id) (hr_nodes s) then s
      else
        (let s = s\<lparr>hr_nodes := hr_nodes s @ [node_id]\<rparr>
         in s\<lparr>hr_ring := insert_points (\<lambda>i. h (vnode_key node_id i)) node_id
                 [0..<hr_virtual_nodes s] (hr_ring s)\<rparr>))"

definition ring_remove_node :: "string \<Rightarrow> chring \<Rightarrow> chring" where
  "ring_remove_node node_id s =
     (let s = s\<lparr>hr_nodes := filter (\<lambda>n. n \<noteq> node_id) (hr_nodes s)\<rparr>
      in s\<lparr>hr_ring := btm_retain (\<lambda>_ v. v \<noteq> node_id) (hr_ring s)\<rparr>)"

text \<open>\<open>range(h..).next().or_else(|| iter().next())\<close>.\<close>

definition first_from :: "u64 \<Rightarrow> (u64 \<times> string) list \<Rightarrow> (u64 \<times> string) option" where
  "first_from x r =
     (case btm_range_from x r of
        p # _ \<Rightarrow> Some p
      | [] \<Rightarrow> (case r of p # _ \<Rightarrow> Some p | [] \<Rightarrow> None))"

definition ring_get_node :: "(string \<Rightarrow> u64) \<Rightarrow> string \<Rightarrow> chring \<Rightarrow> string option" where
  "ring_get_node h key s =
     (if hr_ring s = [] then None else map_option snd (first_from (h key) (hr_ring s)))"

text \<open>The loop of \<open>get_nodes\<close>: \<open>seen\<close> is the hash set, with its two ways out.\<close>

fun get_nodes_loop ::
  "usize \<Rightarrow> usize \<Rightarrow> (u64 \<times> string) list \<Rightarrow> string list \<Rightarrow> string set \<Rightarrow> string list" where
  "get_nodes_loop cnt n_nodes [] result seen = result"
| "get_nodes_loop cnt n_nodes ((_, node) # iter) result seen =
     (if node \<notin> seen then
        (let seen = insert node seen; result = result @ [node]
         in if length result \<ge> cnt then result
            else if card seen = n_nodes then result
            else get_nodes_loop cnt n_nodes iter result seen)
      else if card seen = n_nodes then result
      else get_nodes_loop cnt n_nodes iter result seen)"

definition ring_get_nodes :: "(string \<Rightarrow> u64) \<Rightarrow> string \<Rightarrow> usize \<Rightarrow> chring \<Rightarrow> string list" where
  "ring_get_nodes h key cnt s =
     (if hr_ring s = [] \<or> cnt = 0 then []
      else
        (let x = h key; iter = btm_range_from x (hr_ring s) @ hr_ring s
         in get_nodes_loop cnt (length (hr_nodes s)) iter [] {}))"

definition ring_nodes :: "chring \<Rightarrow> string list" where
  "ring_nodes s = hr_nodes s"

definition ring_node_count :: "chring \<Rightarrow> usize" where
  "ring_node_count s = length (hr_nodes s)"

definition ring_is_empty :: "chring \<Rightarrow> bool" where
  "ring_is_empty s = (hr_nodes s = [])"

text \<open>\<open>distribution_stats\<close> and, for the demo, \<open>distribution\<close>: the number of keys each node
  receives. The counting loop is the same.\<close>

definition count_routed :: "(string \<Rightarrow> string option) \<Rightarrow> string list \<Rightarrow> string \<rightharpoonup> usize" where
  "count_routed route keys =
     foldl (\<lambda>counts k. case route k of
              Some n \<Rightarrow> counts(n \<mapsto> (case counts n of Some c \<Rightarrow> c + 1 | None \<Rightarrow> 0 + 1))
            | None \<Rightarrow> counts) Map.empty keys"

definition distribution_stats :: "(string \<Rightarrow> u64) \<Rightarrow> chring \<Rightarrow> usize \<Rightarrow> string \<rightharpoonup> usize" where
  "distribution_stats h ring num_keys =
     count_routed (\<lambda>k. ring_get_node h k ring) (map (\<lambda>i. ''key-'' @ show_nat i) [0..<num_keys])"

section \<open>The ring of the demo\<close>

record demo_ring =
  dr_ring :: "(u64 \<times> string) list"
  dr_virtual_nodes :: usize

text \<open>\<open>naive_node\<close>: \<open>None\<close> is the panic of the remainder by zero.\<close>

definition naive_node :: "(string \<Rightarrow> u64) \<Rightarrow> string \<Rightarrow> usize \<Rightarrow> usize option" where
  "naive_node h key n = (if n = 0 then None else Some (unat (h key mod of_nat n)))"

definition demo_ring_new :: "usize \<Rightarrow> demo_ring" where
  "demo_ring_new virtual_nodes = \<lparr>dr_ring = [], dr_virtual_nodes = virtual_nodes\<rparr>"

definition demo_vkey :: "string \<Rightarrow> nat \<Rightarrow> string" where
  "demo_vkey node i = node @ ''#'' @ show_nat i"

definition demo_add_node :: "(string \<Rightarrow> u64) \<Rightarrow> string \<Rightarrow> demo_ring \<Rightarrow> demo_ring" where
  "demo_add_node h node s =
     s\<lparr>dr_ring := insert_points (\<lambda>i. h (demo_vkey node i)) node [0..<dr_virtual_nodes s] (dr_ring s)\<rparr>"

definition demo_remove_node :: "string \<Rightarrow> demo_ring \<Rightarrow> demo_ring" where
  "demo_remove_node node s = s\<lparr>dr_ring := btm_retain (\<lambda>_ v. v \<noteq> node) (dr_ring s)\<rparr>"

definition demo_get_node :: "(string \<Rightarrow> u64) \<Rightarrow> string \<Rightarrow> demo_ring \<Rightarrow> string option" where
  "demo_get_node h key s =
     (if dr_ring s = [] then None else map_option snd (first_from (h key) (dr_ring s)))"

definition demo_distribution :: "(string \<Rightarrow> u64) \<Rightarrow> demo_ring \<Rightarrow> string list \<Rightarrow> string \<rightharpoonup> usize" where
  "demo_distribution h ch keys = count_routed (\<lambda>k. demo_get_node h k ch) keys"

section \<open>Points and clockwise distance\<close>

lemmas ring_op_defs [ring_simps] =
  ring_add_node_def ring_remove_node_def Let_def btm_retain_def

text \<open>The order in which \<open>get_node\<close> and \<open>get_nodes\<close> meet the points of the ring.\<close>

definition walk :: "u64 \<Rightarrow> (u64 \<times> string) list \<Rightarrow> (u64 \<times> string) list" where
  "walk x r = btm_range_from x r @ r"

text \<open>The distance from \<open>x\<close> to a point going up, through zero: the wrapped difference.\<close>

definition clockwise :: "u64 \<Rightarrow> u64 \<times> string \<Rightarrow> u64" where
  "clockwise x p = fst p - x"

lemma clockwise_less_iff:
  "clockwise x p < clockwise x q \<longleftrightarrow>
     (if x \<le> fst p then fst q < x \<or> fst p < fst q else fst p < fst q \<and> fst q < x)"
  using unat_u64_lt [of x] unat_u64_lt [of "fst p"] unat_u64_lt [of "fst q"]
  by (auto simp: clockwise_def word_less_nat_alt word_le_nat_alt unat_sub_if')

lemma clockwise_inj: "clockwise x p = clockwise x q \<longleftrightarrow> fst p = fst q"
  by (simp add: clockwise_def)

lemma walk_Nil_iff [simp]: "walk x r = [] \<longleftrightarrow> r = []"
  by (auto simp: walk_def btm_range_from_def)

lemma walk_Nil [simp]: "walk x [] = []"
  by simp

lemma set_walk [simp]: "set (walk x r) = set r"
  by (auto simp: walk_def btm_range_from_def)

lemma first_from_walk: "first_from x r = (case walk x r of p # _ \<Rightarrow> Some p | [] \<Rightarrow> None)"
  by (auto simp: first_from_def walk_def split: list.splits)

lemma walk_filter: "walk x (filter P r) = filter P (walk x r)"
  by (simp add: walk_def btm_range_from_def conj_commute)

lemma walk_head_least:
  assumes "btm_ok r" and "walk x r = p # ps" and "q \<in> set r"
  shows "clockwise x p \<le> clockwise x q"
proof -
  have sorted: "sorted_wrt (\<lambda>p q. fst p < fst q) r"
    using assms(1) by (simp add: btm_ok_def sorted_wrt_map)
  have "\<not> clockwise x q < clockwise x p"
  proof (cases "btm_range_from x r")
    case Nil
    then have "\<forall>q \<in> set r. fst q < x" by (auto simp: btm_range_from_def filter_empty_conv not_le)
    then have "fst q < x" using assms(3) by blast
    moreover from Nil assms(2) have "r = p # ps" by (simp add: walk_def)
    then have "fst p \<le> fst q" using assms(3) sorted by auto
    ultimately show ?thesis by (auto simp: clockwise_less_iff)
  next
    case (Cons p' ps')
    with assms(2) have p: "btm_range_from x r = p # ps'" by (simp add: walk_def)
    then have "x \<le> fst p"
      by (metis (no_types, lifting) btm_range_from_def case_prod_unfold filter_eq_ConsD)
    moreover have "fst p \<le> fst q" if "x \<le> fst q"
    proof -
      have "sorted_wrt (\<lambda>p q. fst p < fst q) (p # ps')"
        using sorted_wrt_filter [OF sorted] p by (metis btm_range_from_def)
      moreover have "q \<in> set (p # ps')"
        unfolding p [symmetric] using that assms(3) by (auto simp: btm_range_from_def)
      ultimately show ?thesis by auto
    qed
    ultimately show ?thesis by (auto simp: clockwise_less_iff)
  qed
  then show ?thesis by simp
qed

lemma first_from_Some:
  assumes "btm_ok r"
  shows "first_from x r = Some p \<longleftrightarrow> p \<in> set r \<and> (\<forall>q \<in> set r. clockwise x p \<le> clockwise x q)"
proof (cases "walk x r")
  case Nil
  then show ?thesis by (auto simp: first_from_walk)
next
  case (Cons p' ps)
  have in_r: "p' \<in> set r" using set_walk [of x r] unfolding Cons by auto
  have least: "\<forall>q \<in> set r. clockwise x p' \<le> clockwise x q"
    using walk_head_least [OF assms Cons] by blast
  have "p = p'" if "p \<in> set r" "\<forall>q \<in> set r. clockwise x p \<le> clockwise x q"
  proof -
    have "fst p = fst p'"
      using that in_r least by (simp flip: clockwise_inj [of x]) (meson order.antisym)
    then show ?thesis
      using btm_ok_distinct [OF assms] that(1) in_r
      by (cases p; cases p') (auto dest: eq_key_imp_eq_value)
  qed
  with in_r least show ?thesis by (auto simp: first_from_walk Cons)
qed

lemma first_from_None: "first_from x r = None \<longleftrightarrow> r = []"
  using walk_Nil_iff [of x r] by (auto simp: first_from_walk split: list.splits)

section \<open>The contract of a ring\<close>

locale consistent_router =
  fixes h :: "string \<Rightarrow> u64"
    and points :: "'s \<Rightarrow> (u64 \<times> string) list"
    and own :: "'s \<Rightarrow> string \<Rightarrow> u64 set"
    and member :: "string \<Rightarrow> 's \<Rightarrow> bool"
    and add :: "string \<Rightarrow> 's \<Rightarrow> 's"
    and remove :: "string \<Rightarrow> 's \<Rightarrow> 's"
    and route :: "string \<Rightarrow> 's \<Rightarrow> string option"
  assumes add_ok: "btm_ok (points s) \<Longrightarrow> btm_ok (points (add n s))"
    and add_points: "btm_ok (points s) \<Longrightarrow> \<not> member n s \<Longrightarrow>
      set (points (add n s)) = (\<lambda>x. (x, n)) ` own s n \<union> {p \<in> set (points s). fst p \<notin> own s n}"
    and remove_points: "points (remove n s) = filter (\<lambda>p. snd p \<noteq> n) (points s)"
    and route_first: "route k s = map_option snd (first_from (h k) (points s))"
begin

lemma route_Some:
  "btm_ok (points s) \<Longrightarrow> route k s = Some m \<longleftrightarrow>
     (\<exists>p \<in> set (points s). snd p = m \<and> (\<forall>q \<in> set (points s). clockwise (h k) p \<le> clockwise (h k) q))"
  by (force simp: route_first first_from_Some)

lemma route_owner: "btm_ok (points s) \<Longrightarrow> route k s = Some m \<Longrightarrow> m \<in> snd ` set (points s)"
  by (auto simp: route_Some)

lemma route_total: "points s \<noteq> [] \<Longrightarrow> \<exists>m. route k s = Some m"
  using first_from_None [of "h k" "points s"] by (auto simp: route_first)

text \<open>Removing a node moves only its own keys.\<close>

lemma remove_stable:
  assumes "btm_ok (points s)" and "route k s = Some m" and "m \<noteq> n"
  shows "route k (remove n s) = Some m"
proof -
  have "btm_ok (points (remove n s))" using assms(1) by (auto simp: remove_points)
  with assms show ?thesis by (auto simp: route_Some remove_points)
qed

lemma remove_evicts: "btm_ok (points s) \<Longrightarrow> route k (remove n s) \<noteq> Some n"
  using route_owner [of "remove n s" k n] by (auto simp: remove_points)

text \<open>Adding a node moves keys only to it.\<close>

lemma add_stable:
  assumes "btm_ok (points s)" and "\<not> member n s" and "route k (add n s) = Some m" and "m \<noteq> n"
  shows "route k s = Some m"
proof -
  note pts = add_points [OF assms(1,2)]
  obtain p where p: "p \<in> set (points (add n s))" "snd p = m"
    "\<forall>q \<in> set (points (add n s)). clockwise (h k) p \<le> clockwise (h k) q"
    using assms(3) by (auto simp: route_Some [OF add_ok [OF assms(1)]])
  with assms(4) have "p \<in> set (points s)" by (auto simp: pts)
  moreover have "clockwise (h k) p \<le> clockwise (h k) q" if "q \<in> set (points s)" for q
  proof (cases "fst q \<in> own s n")
    case True
    then have "(fst q, n) \<in> set (points (add n s))" by (auto simp: pts)
    with p(3) show ?thesis by (force simp: clockwise_def)
  next
    case False
    with that p(3) show ?thesis by (simp add: pts)
  qed
  ultimately show ?thesis using p(2) by (auto simp: route_Some [OF assms(1)])
qed

end

lemma btm_ok_insert_points: "btm_ok r \<Longrightarrow> btm_ok (insert_points pos node is r)"
  unfolding insert_points_def by (induction "is" arbitrary: r) auto

lemma set_insert_points:
  "btm_ok r \<Longrightarrow>
   set (insert_points pos node is r) =
     (\<lambda>x. (x, node)) ` pos ` set is \<union> {p \<in> set r. fst p \<notin> pos ` set is}"
proof (induction "is" arbitrary: r)
  case Nil
  then show ?case by (simp add: insert_points_def)
next
  case (Cons i "is")
  have "set (insert_points pos node (i # is) r) =
      set (insert_points pos node is (btm_insert (pos i) node r))"
    by (simp add: insert_points_def)
  with Cons show ?case by (auto simp: btm_ok_insert set_btm_insert)
qed

interpretation ring: consistent_router h hr_ring "\<lambda>s n. (\<lambda>i. h (vnode_key n i)) ` {0..<hr_virtual_nodes s}"
    "\<lambda>n s. n \<in> set (hr_nodes s)" "ring_add_node h" ring_remove_node "ring_get_node h" for h
proof unfold_locales
  show "ring_get_node h k s = map_option snd (first_from (h k) (hr_ring s))" for k s
    by (simp add: ring_get_node_def first_from_def btm_range_from_def)
qed (auto simp: ring_simps btm_ok_insert_points set_insert_points list_ex_iff split_def)

interpretation demo_ch: consistent_router h dr_ring "\<lambda>s n. (\<lambda>i. h (demo_vkey n i)) ` {0..<dr_virtual_nodes s}"
    "\<lambda>n s. False" "demo_add_node h" demo_remove_node "demo_get_node h" for h
proof unfold_locales
  show "demo_get_node h k s = map_option snd (first_from (h k) (dr_ring s))" for k s
    by (simp add: demo_get_node_def first_from_def btm_range_from_def)
qed (auto simp: demo_add_node_def demo_remove_node_def btm_retain_def btm_ok_insert_points
       set_insert_points split_def)

section \<open>Preference lists\<close>

text \<open>The nodes of a key in the order of first occurrence on the walk.\<close>

definition preference :: "(string \<Rightarrow> u64) \<Rightarrow> string \<Rightarrow> chring \<Rightarrow> string list" where
  "preference h key s = nub (map snd (walk (h key) (hr_ring s)))"

definition ring_inv :: "chring \<Rightarrow> bool" where
  "ring_inv s \<longleftrightarrow> btm_ok (hr_ring s) \<and> distinct (hr_nodes s) \<and> snd ` set (hr_ring s) \<subseteq> set (hr_nodes s)"

lemma ring_inv_new: "ring_inv (ring_new v)"
  by (simp add: ring_inv_def ring_new_def)

lemma ring_inv_add: "ring_inv s \<Longrightarrow> ring_inv (ring_add_node h n s)"
  by (auto simp: ring_inv_def ring_simps btm_ok_insert_points set_insert_points list_ex_iff)

lemma ring_inv_remove: "ring_inv s \<Longrightarrow> ring_inv (ring_remove_node n s)"
  by (auto simp: ring_inv_def ring_simps)

lemma get_nodes_loop_eq:
  assumes "set result = seen" "distinct result" "length result < cnt"
    and "seen \<union> snd ` set iter \<subseteq> N" "finite N" "card N = n_nodes"
  shows "get_nodes_loop cnt n_nodes iter result seen = take cnt (result @ nub_from seen (map snd iter))"
  using assms
proof (induction cnt n_nodes iter result seen rule: get_nodes_loop.induct)
  case (2 cnt n_nodes x node iter result seen)
  have all_seen: "nub_from S (map snd iter) = []"
    if "card S = n_nodes" "S \<subseteq> N" "snd ` set iter \<subseteq> N" for S
    using that card_subset_eq [of N S] 2(7,8) by (intro nub_from_absorb) auto
  show ?case
  proof (cases "node \<in> seen")
    case False
    then show ?thesis
      using 2(1) [OF False refl refl] 2(3-8) all_seen [of "insert node seen"]
      by (cases "cnt = Suc (length result)") (auto simp: Let_def not_le)
  next
    case True
    then show ?thesis
      using 2(2) 2(3-8) all_seen [of seen] by auto
  qed
qed simp

lemma ring_get_nodes_eq:
  assumes "ring_inv s"
  shows "ring_get_nodes h key cnt s = take cnt (preference h key s)"
proof (cases "hr_ring s = [] \<or> cnt = 0")
  case True
  then show ?thesis by (auto simp: ring_get_nodes_def preference_def)
next
  case False
  have "get_nodes_loop cnt (length (hr_nodes s)) (walk (h key) (hr_ring s)) [] {} =
      take cnt ([] @ nub (map snd (walk (h key) (hr_ring s))))"
    using assms False by (intro get_nodes_loop_eq [where N = "set (hr_nodes s)"])
      (auto simp: ring_inv_def distinct_card)
  with False show ?thesis by (simp add: ring_get_nodes_def preference_def walk_def)
qed

lemma set_preference: "set (preference h key s) = snd ` set (hr_ring s)"
  by (simp add: preference_def set_nub_from)

lemma distinct_preference: "distinct (preference h key s)"
  by (simp add: preference_def distinct_nub_from)

lemma preference_remove:
  "preference h key (ring_remove_node n s) = filter (\<lambda>m. m \<noteq> n) (preference h key s)"
proof -
  have "hr_ring (ring_remove_node n s) = filter (\<lambda>p. snd p \<noteq> n) (hr_ring s)"
    by (simp add: ring_simps split_def)
  then show ?thesis
    by (simp add: preference_def walk_filter filter_map comp_def flip: nub_from_filter)
qed

lemma ring_get_node_preference:
  "ring_get_node h key s = (case preference h key s of [] \<Rightarrow> None | m # _ \<Rightarrow> Some m)"
  using first_from_None [of "h key" "hr_ring s"]
  by (auto simp: ring_get_node_def preference_def first_from_walk split: list.splits)

section \<open>Agreement between members\<close>

datatype ring_op = AddNode string | RemoveNode string

fun ring_exec :: "(string \<Rightarrow> u64) \<Rightarrow> chring \<Rightarrow> ring_op \<Rightarrow> chring" where
  "ring_exec h s (AddNode n) = ring_add_node h n s"
| "ring_exec h s (RemoveNode n) = ring_remove_node n s"

definition ring_run :: "(string \<Rightarrow> u64) \<Rightarrow> usize \<Rightarrow> ring_op list \<Rightarrow> chring" where
  "ring_run h v ops = foldl (ring_exec h) (ring_new v) ops"

text \<open>The hash puts no two virtual nodes at the same position.\<close>

definition collision_free :: "(string \<Rightarrow> u64) \<Rightarrow> usize \<Rightarrow> string set \<Rightarrow> bool" where
  "collision_free h v ns \<longleftrightarrow>
     (\<forall>n \<in> ns. \<forall>m \<in> ns. n \<noteq> m \<longrightarrow>
        (\<lambda>i. h (vnode_key n i)) ` {0..<v} \<inter> (\<lambda>i. h (vnode_key m i)) ` {0..<v} = {})"

definition ring_points :: "(string \<Rightarrow> u64) \<Rightarrow> usize \<Rightarrow> string set \<Rightarrow> (u64 \<times> string) set" where
  "ring_points h v ns = (\<Union>n \<in> ns. (\<lambda>x. (x, n)) ` (\<lambda>i. h (vnode_key n i)) ` {0..<v})"

fun ring_op_node :: "ring_op \<Rightarrow> string" where
  "ring_op_node (AddNode n) = n"
| "ring_op_node (RemoveNode n) = n"

definition ring_exact :: "(string \<Rightarrow> u64) \<Rightarrow> usize \<Rightarrow> string set \<Rightarrow> chring \<Rightarrow> bool" where
  "ring_exact h v ns s \<longleftrightarrow>
     ring_inv s \<and> hr_virtual_nodes s = v \<and> set (hr_nodes s) \<subseteq> ns \<and>
     set (hr_ring s) = ring_points h v (set (hr_nodes s))"

lemma ring_exact_new: "ring_exact h v ns (ring_new v)"
  by (simp add: ring_exact_def ring_inv_new) (simp add: ring_new_def ring_points_def)

lemma ring_exact_add:
  assumes "ring_exact h v ns s" and "n \<in> ns" and "collision_free h v ns"
  shows "ring_exact h v ns (ring_add_node h n s)"
proof (cases "n \<in> set (hr_nodes s)")
  case True
  with assms(1) show ?thesis by (simp add: ring_add_node_def list_ex_iff)
next
  case False
  from assms(1) have ok: "btm_ok (hr_ring s)" and inv: "ring_inv s"
    by (auto simp: ring_exact_def ring_inv_def)
  let ?own = "\<lambda>m. (\<lambda>i. h (vnode_key m i)) ` {0..<v}"
  have "fst p \<notin> ?own n" if "p \<in> set (hr_ring s)" for p
  proof -
    from that assms(1) have "fst p \<in> ?own (snd p)" "snd p \<in> set (hr_nodes s)" "snd p \<in> ns"
      by (auto simp: ring_exact_def ring_points_def)
    moreover have "snd p \<noteq> n" using False calculation(2) by blast
    ultimately have "?own n \<inter> ?own (snd p) = {}"
      using assms(2,3) unfolding collision_free_def by metis
    with \<open>fst p \<in> ?own (snd p)\<close> show ?thesis by blast
  qed
  then have "{p \<in> set (hr_ring s). fst p \<notin> ?own n} = set (hr_ring s)" by blast
  with ring.add_points [OF ok False] assms(1)
  have "set (hr_ring (ring_add_node h n s)) = ring_points h v (insert n (set (hr_nodes s)))"
    by (simp add: ring_exact_def ring_points_def)
  moreover have "hr_nodes (ring_add_node h n s) = hr_nodes s @ [n]"
    "hr_virtual_nodes (ring_add_node h n s) = hr_virtual_nodes s"
    using False by (simp_all add: ring_simps list_ex_iff)
  ultimately show ?thesis
    using assms(1,2) ring_inv_add [OF inv] by (simp add: ring_exact_def)
qed

lemma ring_exact_remove: "ring_exact h v ns s \<Longrightarrow> ring_exact h v ns (ring_remove_node n s)"
  using ring_inv_remove [of s n]
  by (auto simp: ring_exact_def ring_simps ring_points_def)

lemma ring_run_exact:
  assumes "collision_free h v (ring_op_node ` set ops)"
  shows "ring_exact h v (ring_op_node ` set ops) (ring_run h v ops)"
proof -
  have "ring_exact h v ns (foldl (ring_exec h) s ops)"
    if "ring_exact h v ns s" "ring_op_node ` set ops \<subseteq> ns" "collision_free h v ns" for ns s
    using that
  proof (induction ops arbitrary: s)
    case (Cons op ops)
    then show ?case
      by (cases op) (auto intro: ring_exact_add ring_exact_remove)
  qed simp
  then show ?thesis using assms ring_exact_new by (simp add: ring_run_def)
qed

lemma btm_set_ext: "btm_ok m \<Longrightarrow> btm_ok m' \<Longrightarrow> set m = set m' \<Longrightarrow> m = m'"
  using map_of_inject_set [OF btm_ok_distinct btm_ok_distinct] by (blast intro: btm_ext)

lemma ring_exact_agree:
  assumes "ring_exact h v ns s" and "ring_exact h v ns' s'" and "set (hr_nodes s) = set (hr_nodes s')"
  shows "hr_ring s = hr_ring s'"
  using assms by (intro btm_set_ext) (auto simp: ring_exact_def ring_inv_def)

lemma ring_exact_owners:
  "ring_exact h v ns s \<Longrightarrow> 0 < v \<Longrightarrow> snd ` set (hr_ring s) = set (hr_nodes s)"
proof -
  assume "ring_exact h v ns s" "0 < v"
  moreover have "snd ` ring_points h v N = N" if "0 < v" for N
    using that by (auto simp: ring_points_def image_UN image_image)
  ultimately show ?thesis by (simp add: ring_exact_def)
qed

lemma take_filter_distinct:
  "distinct xs \<Longrightarrow> take c (filter (\<lambda>m. m \<noteq> n) (take (Suc c) xs)) = take c (filter (\<lambda>m. m \<noteq> n) xs)"
proof (induction xs arbitrary: c)
  case (Cons x xs)
  have same: "filter (\<lambda>m. m \<noteq> n) (take k ys) = take k ys" if "n \<notin> set ys" for k and ys :: "'a list"
    using that by (auto simp: filter_id_conv dest: in_set_takeD)
  show ?case
  proof (cases "x = n")
    case True
    with Cons.prems show ?thesis using same [of xs c] same [of xs "length xs"] by simp
  next
    case False
    with Cons show ?thesis by (cases c) auto
  qed
qed simp

section \<open>Properties\<close>

definition sum_hash :: "string \<Rightarrow> u64" where
  "sum_hash s = of_nat (sum_list (map of_char s))"

definition example_ring :: chring where
  "example_ring = ring_add_node sum_hash ''c'' (ring_add_node sum_hash ''b''
                    (ring_add_node sum_hash ''a'' (ring_new 2)))"

lemma ring_inv_example: "ring_inv example_ring"
  by (simp add: example_ring_def ring_inv_add ring_inv_new)

lemma example_ring_points:
  "hr_ring example_ring = [(765, ''a''), (766, ''b''), (767, ''c''), (768, ''c'')]"
  by (simp add: example_ring_def ring_simps ring_new_def insert_points_def vnode_key_def sum_hash_def
      show_nat.simps upt_rec)

lemma example_ring_nodes: "hr_nodes example_ring = [''a'', ''b'', ''c'']"
  by (simp add: example_ring_def ring_simps ring_new_def)

text \<open>C16. Minimal disruption, for every hash function: removing a node leaves every key that was not on
  it where it was, and adding a node either leaves a key where it was or moves it to the new
  node. No key moves between two other nodes.\<close>

theorem ring_minimal_disruption:
  assumes "ring_inv s"
  shows "(ring_get_node h key s \<noteq> Some n \<longrightarrow>
      ring_get_node h key (ring_remove_node n s) = ring_get_node h key s) \<and>
    ring_get_node h key (ring_add_node h n s) \<in> {ring_get_node h key s, Some n}"
proof
  have ok: "btm_ok (hr_ring s)" using assms by (simp add: ring_inv_def)
  show "ring_get_node h key s \<noteq> Some n \<longrightarrow>
      ring_get_node h key (ring_remove_node n s) = ring_get_node h key s"
    using ring.remove_stable [OF ok]
    by (cases "ring_get_node h key s") (auto simp: ring_get_node_preference preference_remove split: list.splits)
  show "ring_get_node h key (ring_add_node h n s) \<in> {ring_get_node h key s, Some n}"
  proof (cases "n \<in> set (hr_nodes s)")
    case True
    then show ?thesis by (simp add: ring_add_node_def list_ex_iff)
  next
    case False
    show ?thesis
    proof (cases "ring_get_node h key (ring_add_node h n s)")
      case None
      then have "hr_ring (ring_add_node h n s) = []"
        using ring.route_total [where s = "ring_add_node h n s" and h = h and k = key] by auto
      with ring.add_points [OF ok False, of h] have "hr_ring s = []"
        by (cases "hr_ring s") auto
      with None show ?thesis by (simp add: ring_get_node_def)
    next
      case (Some m)
      with ring.add_stable [OF ok False, of h key m] show ?thesis by auto
    qed
  qed
qed

theorem ring_minimal_disruption_witness:
  "ring_get_node sum_hash ''zzzzzzz'' (ring_remove_node ''b'' example_ring) = Some ''a''"
  using ring_minimal_disruption [OF ring_inv_example, of sum_hash "''zzzzzzz''" "''b''"]
  by (simp add: ring_get_node_def example_ring_points first_from_def btm_range_from_def sum_hash_def)

text \<open>C15. \<open>get_nodes\<close>: its loop, with its two early exits, returns the first \<open>cnt\<close> distinct
  physical nodes met on the walk from the key's hash: they are pairwise distinct, own points of
  the ring, there are as many of them as the ring can give, and the first is what \<open>get_node\<close>
  returns, so a primary is always the head of its own preference list.\<close>

theorem ring_get_nodes_correct:
  assumes "ring_inv s"
  shows "ring_get_nodes h key cnt s = take cnt (nub (map snd (walk (h key) (hr_ring s)))) \<and>
    distinct (ring_get_nodes h key cnt s) \<and>
    set (ring_get_nodes h key cnt s) \<subseteq> set (hr_nodes s) \<and>
    length (ring_get_nodes h key cnt s) = min cnt (card (snd ` set (hr_ring s))) \<and>
    (0 < cnt \<longrightarrow> ring_get_node h key s =
       (case ring_get_nodes h key cnt s of [] \<Rightarrow> None | m # _ \<Rightarrow> Some m))"
proof -
  have "length (preference h key s) = card (snd ` set (hr_ring s))"
    using distinct_card [OF distinct_preference [of h key s]] by (simp add: set_preference)
  moreover have "set (preference h key s) \<subseteq> set (hr_nodes s)"
    using assms by (simp add: set_preference ring_inv_def)
  moreover have "ring_get_node h key s =
      (case take cnt (preference h key s) of [] \<Rightarrow> None | m # _ \<Rightarrow> Some m)" if "0 < cnt"
    using that by (cases cnt) (auto simp: ring_get_node_preference split: list.splits)
  ultimately show ?thesis
    using set_take_subset [of cnt "preference h key s"]
    by (auto simp: ring_get_nodes_eq [OF assms] distinct_preference)
       (simp add: preference_def)
qed

theorem ring_get_nodes_correct_witness:
  "ring_get_nodes sum_hash ''zzzzzz~'' 2 example_ring = [''a'', ''b''] \<and>
   distinct (ring_get_nodes sum_hash ''zzzzzz~'' 2 example_ring)"
  using ring_get_nodes_correct [OF ring_inv_example, of sum_hash "''zzzzzz~''" 2]
  by (simp add: example_ring_points walk_def btm_range_from_def sum_hash_def)

text \<open>Failover: after a node is removed, the preference list of any key is the old one without
  that node, completed by the next node of the old list; when the primary is removed, the new
  primary is the first replica, which already holds the key.\<close>

theorem ring_failover:
  assumes "ring_inv s"
  shows "ring_get_nodes h key cnt (ring_remove_node n s) =
    take cnt (filter (\<lambda>m. m \<noteq> n) (ring_get_nodes h key (Suc cnt) s))"
  using take_filter_distinct [OF distinct_preference]
  by (simp add: ring_get_nodes_eq assms ring_inv_remove preference_remove)

theorem ring_failover_witness:
  "ring_get_nodes sum_hash ''zzzzzz~'' 1 (ring_remove_node ''a'' example_ring) = [''b'']"
  by (subst ring_failover [OF ring_inv_example])
     (simp add: ring_get_nodes_def example_ring_points example_ring_nodes btm_range_from_def
        sum_hash_def)

text \<open>Members agree: two processes that build their rings by any sequences of additions and
  removals, in any order, and end with the same set of nodes, route every key to the same nodes,
  provided the hash puts no two nodes' virtual nodes at one position; every node then owns a
  share of the ring, so a preference list is as long as the cluster allows.\<close>

theorem ring_members_agree:
  assumes "collision_free h v (ring_op_node ` set ops)" and "collision_free h v (ring_op_node ` set ops')"
    and "set (hr_nodes (ring_run h v ops)) = set (hr_nodes (ring_run h v ops'))" and "0 < v"
  shows "ring_get_nodes h key cnt (ring_run h v ops) = ring_get_nodes h key cnt (ring_run h v ops') \<and>
    length (ring_get_nodes h key cnt (ring_run h v ops)) =
      min cnt (ring_node_count (ring_run h v ops))"
proof -
  note ex = ring_run_exact [OF assms(1)] ring_run_exact [OF assms(2)]
  then have inv: "ring_inv (ring_run h v ops)" "ring_inv (ring_run h v ops')"
    by (auto simp: ring_exact_def)
  have "hr_ring (ring_run h v ops) = hr_ring (ring_run h v ops')"
    using ex assms(3) by (rule ring_exact_agree)
  moreover have "length (preference h key (ring_run h v ops)) = ring_node_count (ring_run h v ops)"
    using distinct_card [OF distinct_preference [of h key "ring_run h v ops"]]
      ring_exact_owners [OF ex(1) assms(4)] inv(1)
    by (simp add: set_preference ring_node_count_def ring_inv_def distinct_card)
  ultimately show ?thesis
    by (simp add: ring_get_nodes_eq inv) (simp add: preference_def)
qed

theorem ring_members_agree_witness:
  "ring_get_nodes sum_hash ''k'' 2 (ring_run sum_hash 1 [AddNode ''a'', AddNode ''b'']) =
   ring_get_nodes sum_hash ''k'' 2 (ring_run sum_hash 1 [AddNode ''b'', AddNode ''c'', AddNode ''a'', RemoveNode ''c''])"
  by (rule ring_members_agree [THEN conjunct1])
     (auto simp: collision_free_def sum_hash_def vnode_key_def show_nat.simps
        ring_run_def ring_simps ring_new_def)

end
