(* ===== verification/Protocol.thy ===== *)
theory Protocol
  imports Prelude
begin

text \<open>
  The wire protocol, \<open>tp-kv-distributed/src/protocol.rs\<close>: the messages and their framing (a
  big-endian \<open>u32\<close> length, then the payload).

  A stream is the list of bytes still to be read. The serializer (\<open>bincode\<close>) is a pair of
  parameters \<open>ser\<close>, \<open>de\<close>; what the code relies on is that \<open>de\<close> reads back what \<open>ser\<close> wrote.
  The payload type is a type variable, as the source functions are generic in the message.
\<close>

section \<open>Messages\<close>

datatype request =
    Get string
  | Put string "u8 list" "u64 option"
  | Delete string
  | Scan string u32
  | Replicate string "u8 list" u64 "u64 option" u32
  | Heartbeat u32 u64

datatype response =
    Value "u8 list option" u64
  | Ack u64 u32
  | Deleted bool
  | ScanResult "(string \<times> u8 list) list"
  | Pong u32 u64 u64
  | Error string

section \<open>Framing\<close>

datatype io_error = InvalidData string | UnexpectedEof

definition MAX_FRAME_SIZE :: usize where
  "MAX_FRAME_SIZE = 16 * 1024 * 1024"

definition to_be_bytes :: "u32 \<Rightarrow> u8 list" where
  "to_be_bytes n = [ucast (drop_bit 24 n), ucast (drop_bit 16 n), ucast (drop_bit 8 n), ucast n]"

definition from_be_bytes :: "u8 list \<Rightarrow> u32" where
  "from_be_bytes bs = foldl (\<lambda>acc b. or (push_bit 8 acc) (ucast b)) 0 bs"

text \<open>\<open>read_exact\<close>: the next \<open>n\<close> bytes, or the end of the stream too early.\<close>

definition read_exact :: "usize \<Rightarrow> u8 list \<Rightarrow> io_error + u8 list \<times> u8 list" where
  "read_exact n stream =
     (if length stream < n then Inl UnexpectedEof else Inr (take n stream, drop n stream))"

definition write_message :: "('m \<Rightarrow> string + u8 list) \<Rightarrow> 'm \<Rightarrow> io_error + u8 list" where
  "write_message ser msg =
     (case ser msg of
        Inl e \<Rightarrow> Inl (InvalidData e)
      | Inr payload \<Rightarrow>
          if length payload > MAX_FRAME_SIZE then
            Inl (InvalidData (''message trop volumineux : '' @ show_nat (length payload) @ '' octets''))
          else
            (let len = of_nat (length payload) in Inr (to_be_bytes len @ payload)))"

definition read_message ::
  "(u8 list \<Rightarrow> string + 'm) \<Rightarrow> u8 list \<Rightarrow> io_error + 'm \<times> u8 list" where
  "read_message de stream =
     (case read_exact 4 stream of
        Inl e \<Rightarrow> Inl e
      | Inr (len_buf, stream) \<Rightarrow>
          (let len = unat (from_be_bytes len_buf) in
           if len > MAX_FRAME_SIZE then
             Inl (InvalidData (''frame trop grosse : '' @ show_nat len @ '' octets''))
           else
             (case read_exact len stream of
                Inl e \<Rightarrow> Inl e
              | Inr (payload, stream) \<Rightarrow>
                  (case de payload of
                     Inl e \<Rightarrow> Inl (InvalidData e)
                   | Inr m \<Rightarrow> Inr (m, stream)))))"

section \<open>Lemmas\<close>

lemma length_to_be_bytes [simp]: "length (to_be_bytes n) = 4"
  by (simp add: to_be_bytes_def)

lemma from_to_be_bytes [simp]: "from_be_bytes (to_be_bytes n) = n"
proof (rule bit_word_eqI)
  fix i :: nat
  assume "i < LENGTH(32)"
  then consider "i < 8" | "8 \<le> i" "i < 16" | "16 \<le> i" "i < 24" | "24 \<le> i" "i < 32"
    by fastforce
  then show "bit (from_be_bytes (to_be_bytes n)) i = bit n i"
    by cases (auto simp: from_be_bytes_def to_be_bytes_def bit_simps)
qed

lemma read_exact_append: "length xs = n \<Longrightarrow> read_exact n (xs @ ys) = Inr (xs, ys)"
  by (simp add: read_exact_def)

lemma unat_frame_length: "n \<le> MAX_FRAME_SIZE \<Longrightarrow> unat (of_nat n :: u32) = n"
  by (simp add: MAX_FRAME_SIZE_def unat_of_nat)

lemma write_message_Inr:
  "write_message ser m = Inr bs \<Longrightarrow>
   \<exists>payload. ser m = Inr payload \<and> length payload \<le> MAX_FRAME_SIZE \<and>
     bs = to_be_bytes (of_nat (length payload)) @ payload"
  by (auto simp: write_message_def Let_def not_less split: sum.splits if_splits)

lemma read_frame:
  "length payload \<le> MAX_FRAME_SIZE \<Longrightarrow> de payload = Inr m \<Longrightarrow>
   read_message de ((to_be_bytes (of_nat (length payload)) @ payload) @ rest) = Inr (m, rest)"
  by (simp add: read_message_def read_exact_append unat_frame_length)

text \<open>Writing and reading several messages on one connection.\<close>

fun write_all :: "('m \<Rightarrow> string + u8 list) \<Rightarrow> 'm list \<Rightarrow> io_error + u8 list" where
  "write_all ser [] = Inr []"
| "write_all ser (m # ms) =
     (case write_message ser m of
        Inl e \<Rightarrow> Inl e
      | Inr bs \<Rightarrow> (case write_all ser ms of Inl e \<Rightarrow> Inl e | Inr bs' \<Rightarrow> Inr (bs @ bs')))"

lemma read_message_shrinks:
  "read_message de stream = Inr (m, rest) \<Longrightarrow> length rest < length stream"
proof -
  assume "read_message de stream = Inr (m, rest)"
  then have "\<not> length stream < 4" 
      "rest = drop (unat (from_be_bytes (take 4 stream))) (drop 4 stream)"
    by (auto simp: read_message_def read_exact_def Let_def simp del: drop_drop
        split: sum.splits if_splits)
  then show ?thesis by auto
qed

text \<open>Reading until the end of the stream or the first error, as the connection loop of the
  server does: the messages read and how the loop ended.\<close>

function read_all :: "(u8 list \<Rightarrow> string + 'm) \<Rightarrow> u8 list \<Rightarrow> 'm list \<times> io_error" where
  "read_all de stream =
     (case read_message de stream of
        Inl e \<Rightarrow> ([], e)
      | Inr (m, rest) \<Rightarrow> (let (ms, e) = read_all de rest in (m # ms, e)))"
  by pat_completeness auto

termination
  by (relation "measure (\<lambda>(de, stream). length stream)") (auto simp: read_message_shrinks)

declare read_all.simps [simp del]

lemma read_all_frames:
  assumes "\<And>m payload. ser m = Inr payload \<Longrightarrow> de payload = Inr m"
    and "write_all ser ms = Inr bs"
  shows "read_all de (bs @ tail) = (ms @ fst (read_all de tail), snd (read_all de tail))"
  using assms(2)
proof (induction ms arbitrary: bs)
  case Nil
  then show ?case by simp
next
  case (Cons m ms)
  from Cons.prems obtain b bs' where b: "write_message ser m = Inr b"
    and bs': "write_all ser ms = Inr bs'" "bs = b @ bs'"
    by (auto split: sum.splits)
  from write_message_Inr [OF b] obtain payload where "ser m = Inr payload"
    "length payload \<le> MAX_FRAME_SIZE" "b = to_be_bytes (of_nat (length payload)) @ payload"
    by blast
  with assms(1) have "read_message de (b @ (bs' @ tail)) = Inr (m, bs' @ tail)"
    by (simp only: read_frame)
  then show ?case
    by (simp add: read_all.simps [of de "b @ bs' @ tail"] bs'(2) Cons.IH [OF bs'(1)] split_def)
qed

lemma read_message_prefix:
  assumes "length payload \<le> MAX_FRAME_SIZE" and "k < 4 + length payload"
  shows "read_message de (take k (to_be_bytes (of_nat (length payload)) @ payload)) = Inl UnexpectedEof"
proof (cases "k < 4")
  case True
  then show ?thesis by (simp add: read_message_def read_exact_def)
next
  case False
  then have "take k (to_be_bytes (of_nat (length payload)) @ payload) =
      to_be_bytes (of_nat (length payload)) @ take (k - 4) payload" by simp
  moreover have "k - 4 < length payload"
    using False assms(2) by simp
  then have "read_exact (length payload) (take (k - 4) payload) = Inl UnexpectedEof"
    by (simp add: read_exact_def)
  ultimately show ?thesis
    using assms(1) by (simp add: read_message_def read_exact_append unat_frame_length)
qed

section \<open>Properties\<close>

text \<open>C26. Round trip of a connection: the messages one side writes, in order, are the messages the
  other side reads, in order, whatever follows them on the stream; and if the stream ends after
  them the reader stops with \<open>UnexpectedEof\<close>. The hypothesis on the serializer is that
  deserializing gives back what was serialized.\<close>

theorem frames_roundtrip:
  assumes "\<And>m payload. ser m = Inr payload \<Longrightarrow> de payload = Inr m" and "write_all ser ms = Inr bs"
  shows "read_all de bs = (ms, UnexpectedEof) \<and>
    read_all de (bs @ tail) = (ms @ fst (read_all de tail), snd (read_all de tail))"
proof -
  have "read_all de [] = ([], UnexpectedEof)"
    by (simp add: read_all.simps read_message_def read_exact_def)
  then show ?thesis
    using read_all_frames [of ser de ms bs, OF assms] read_all_frames [of ser de ms bs "[]", OF assms]
    by simp
qed

theorem frames_roundtrip_witness:
  "read_all Inr [0, 0, 0, 2, 7, 9, 0, 0, 0, 0] = ([[7, 9], []], UnexpectedEof)"
proof -
  have "write_all Inr [[7, 9], []] = Inr [0, 0, 0, 2, 7, 9, 0, 0, 0, 0]"
    by (simp add: write_message_def MAX_FRAME_SIZE_def to_be_bytes_def Let_def)
  from frames_roundtrip [OF _ this, of Inr "[]"] show ?thesis by simp
qed

text \<open>C27. Malformed input: a message longer than \<open>MAX_FRAME_SIZE\<close> is not written; a header that
  announces more than \<open>MAX_FRAME_SIZE\<close> bytes is rejected before the payload is read; and every
  proper prefix of a valid frame is reported as \<open>UnexpectedEof\<close>, never as a message.\<close>

theorem frames_malformed:
  "(ser m = Inr payload \<and> length payload > MAX_FRAME_SIZE \<longrightarrow>
      (\<exists>e. write_message ser m = Inl (InvalidData e))) \<and>
   (unat len > MAX_FRAME_SIZE \<longrightarrow>
      (\<exists>e. read_message de (to_be_bytes len @ rest) = Inl (InvalidData e))) \<and>
   (write_message ser m = Inr bs \<and> k < length bs \<longrightarrow>
      read_message de (take k bs) = Inl UnexpectedEof)"
proof (intro conjI impI)
  show "\<exists>e. write_message ser m = Inl (InvalidData e)"
    if "ser m = Inr payload \<and> length payload > MAX_FRAME_SIZE"
    using that by (simp add: write_message_def)
  show "\<exists>e. read_message de (to_be_bytes len @ rest) = Inl (InvalidData e)"
    if "unat len > MAX_FRAME_SIZE"
    using that by (simp add: read_message_def read_exact_append)
  show "read_message de (take k bs) = Inl UnexpectedEof"
    if "write_message ser m = Inr bs \<and> k < length bs"
    using that write_message_Inr [of ser m bs] by (auto intro: read_message_prefix)
qed

theorem frames_malformed_witness:
  "read_message Inr (to_be_bytes 0x01000001 @ [1, 2]) \<noteq> Inr ([1], [2]) \<and>
   read_message Inr (take 5 [0, 0, 0, 2, 7, 9]) = Inl UnexpectedEof"
  using frames_malformed [of Inr "[7, 9]" "[7, 9]" "0x01000001" Inr "[1, 2]" "[0, 0, 0, 2, 7, 9]" 5]
  by (auto simp: write_message_def MAX_FRAME_SIZE_def to_be_bytes_def)

end
