(* ===== verification/Client.thy ===== *)
theory Client
  imports Protocol
begin

text \<open>
  The client, \<open>tp-kv-distributed/src/client.rs\<close>.

  \<open>client_call\<close> is one request on the shared connection. The stream is the list of responses
  the server has sent and nobody has read yet; the server \<open>srv\<close> is a parameter that answers a
  request in its state, in the order in which requests arrive. \<open>call_fate\<close> is what the network
  and the clock do to the call: the answer comes in time, the deadline passes after the request
  was written, or the transport fails.

  The other operations turn a request into a response and then read the response; they take the
  call as a parameter \<open>call\<close>, so that the cluster can plug in its own nodes. \<open>dbg\<close> is the
  \<open>Debug\<close> text of a response, used in one error message.
\<close>

section \<open>One call on the connection\<close>

text \<open>An \<open>io::Error\<close> is its kind and its text.\<close>

datatype client_error = TimedOut string | Other string | Wire string

fun io_display :: "client_error \<Rightarrow> string" where
  "io_display (TimedOut e) = e"
| "io_display (Other e) = e"
| "io_display (Wire e) = e"

datatype call_fate = InTime | Late | Broken string

definition client_call ::
  "(request \<Rightarrow> 's \<Rightarrow> response \<times> 's) \<Rightarrow> call_fate \<Rightarrow> request \<Rightarrow> response list \<times> 's \<Rightarrow>
   (client_error + response) \<times> response list \<times> 's" where
  "client_call srv fate req conn =
     (let (unread, s) = conn in
      case fate of
        Broken e \<Rightarrow> (Inl (Wire e), unread, s)
      | InTime \<Rightarrow>
          (let (resp, s) = srv req s; unread = unread @ [resp]
           in (Inr (hd unread), tl unread, s))
      | Late \<Rightarrow>
          (let (resp, s) = srv req s; unread = unread @ [resp]
           in (Inl (TimedOut ''rpc timeout''), unread, s)))"

section \<open>Operations\<close>

definition unexpected :: "(response \<Rightarrow> string) \<Rightarrow> response \<Rightarrow> client_error" where
  "unexpected dbg other =
     Other (''r'' @ [CHR 0xC3, CHR 0xA9] @ ''ponse inattendue : '' @ dbg other)"

definition client_get ::
  "(response \<Rightarrow> string) \<Rightarrow> (request \<Rightarrow> 'w \<Rightarrow> (client_error + response) \<times> 'w) \<Rightarrow> string \<Rightarrow> 'w \<Rightarrow>
   (client_error + u8 list option) \<times> 'w" where
  "client_get dbg call key w =
     (let (r, w) = call (Get key) w in
      (case r of
         Inl e \<Rightarrow> Inl e
       | Inr resp \<Rightarrow>
           (case resp of
              Value data _ \<Rightarrow> Inr data
            | Error e \<Rightarrow> Inl (Other e)
            | other \<Rightarrow> Inl (unexpected dbg other)), w))"

definition client_put_with_ttl ::
  "(response \<Rightarrow> string) \<Rightarrow> (request \<Rightarrow> 'w \<Rightarrow> (client_error + response) \<times> 'w) \<Rightarrow>
   string \<Rightarrow> u8 list \<Rightarrow> u64 option \<Rightarrow> 'w \<Rightarrow> (client_error + u64) \<times> 'w" where
  "client_put_with_ttl dbg call key val ttl_ms w =
     (let (r, w) = call (Put key val ttl_ms) w in
      (case r of
         Inl e \<Rightarrow> Inl e
       | Inr resp \<Rightarrow>
           (case resp of
              Ack version _ \<Rightarrow> Inr version
            | Error e \<Rightarrow> Inl (Other e)
            | other \<Rightarrow> Inl (unexpected dbg other)), w))"

definition client_put ::
  "(response \<Rightarrow> string) \<Rightarrow> (request \<Rightarrow> 'w \<Rightarrow> (client_error + response) \<times> 'w) \<Rightarrow>
   string \<Rightarrow> u8 list \<Rightarrow> 'w \<Rightarrow> (client_error + u64) \<times> 'w" where
  "client_put dbg call key val w = client_put_with_ttl dbg call key val None w"

definition client_delete ::
  "(response \<Rightarrow> string) \<Rightarrow> (request \<Rightarrow> 'w \<Rightarrow> (client_error + response) \<times> 'w) \<Rightarrow> string \<Rightarrow> 'w \<Rightarrow>
   (client_error + bool) \<times> 'w" where
  "client_delete dbg call key w =
     (let (r, w) = call (Delete key) w in
      (case r of
         Inl e \<Rightarrow> Inl e
       | Inr resp \<Rightarrow>
           (case resp of
              Deleted b \<Rightarrow> Inr b
            | Error e \<Rightarrow> Inl (Other e)
            | other \<Rightarrow> Inl (unexpected dbg other)), w))"

definition client_scan ::
  "(response \<Rightarrow> string) \<Rightarrow> (request \<Rightarrow> 'w \<Rightarrow> (client_error + response) \<times> 'w) \<Rightarrow> string \<Rightarrow> u32 \<Rightarrow> 'w \<Rightarrow>
   (client_error + (string \<times> u8 list) list) \<times> 'w" where
  "client_scan dbg call pfx limit w =
     (let (r, w) = call (Scan pfx limit) w in
      (case r of
         Inl e \<Rightarrow> Inl e
       | Inr resp \<Rightarrow>
           (case resp of
              ScanResult items \<Rightarrow> Inr items
            | Error e \<Rightarrow> Inl (Other e)
            | other \<Rightarrow> Inl (unexpected dbg other)), w))"

definition client_replicate ::
  "(response \<Rightarrow> string) \<Rightarrow> (request \<Rightarrow> 'w \<Rightarrow> (client_error + response) \<times> 'w) \<Rightarrow>
   string \<Rightarrow> u8 list \<Rightarrow> u64 \<Rightarrow> u64 option \<Rightarrow> u32 \<Rightarrow> 'w \<Rightarrow> (client_error + unit) \<times> 'w" where
  "client_replicate dbg call key val version ttl_ms source_node_id w =
     (let req = Replicate key val version ttl_ms source_node_id; (r, w) = call req w in
      (case r of
         Inl e \<Rightarrow> Inl e
       | Inr resp \<Rightarrow>
           (case resp of
              Ack _ _ \<Rightarrow> Inr ()
            | Error e \<Rightarrow> Inl (Other e)
            | other \<Rightarrow> Inl (unexpected dbg other)), w))"

text \<open>\<open>heartbeat\<close>: the wall clock in milliseconds is an argument.\<close>

definition client_heartbeat ::
  "(request \<Rightarrow> 'w \<Rightarrow> (client_error + response) \<times> 'w) \<Rightarrow> u64 \<Rightarrow> u32 \<Rightarrow> 'w \<Rightarrow>
   (client_error + response) \<times> 'w" where
  "client_heartbeat call timestamp_ms node_id w =
     (let req = Heartbeat node_id timestamp_ms in call req w)"

section \<open>Runs of calls\<close>

text \<open>The answers of the server to a list of requests, in order.\<close>

fun answers :: "(request \<Rightarrow> 's \<Rightarrow> response \<times> 's) \<Rightarrow> request list \<Rightarrow> 's \<Rightarrow> response list \<times> 's" where
  "answers srv [] s = ([], s)"
| "answers srv (r # rs) s =
     (let (resp, s) = srv r s; (resps, s) = answers srv rs s in (resp # resps, s))"

text \<open>A client issuing requests one after the other.\<close>

fun run_calls ::
  "(request \<Rightarrow> 's \<Rightarrow> response \<times> 's) \<Rightarrow> (call_fate \<times> request) list \<Rightarrow> response list \<times> 's \<Rightarrow>
   (client_error + response) list \<times> response list \<times> 's" where
  "run_calls srv [] conn = ([], conn)"
| "run_calls srv ((fate, req) # cs) conn =
     (let (r, conn) = client_call srv fate req conn; (rs, conn) = run_calls srv cs conn
      in (r # rs, conn))"

lemma run_calls_in_time:
  "run_calls srv (map (Pair InTime) reqs) (unread, s) =
     (let (resps, s') = answers srv reqs s; all = unread @ resps
      in (map Inr (take (length reqs) all), drop (length reqs) all, s'))"
proof (induction reqs arbitrary: unread s)
  case Nil
  then show ?case by simp
next
  case (Cons req reqs)
  obtain resp s1 where r: "srv req s = (resp, s1)" by fastforce
  obtain resps s2 where rs: "answers srv reqs s1 = (resps, s2)" by fastforce
  show ?case
    using Cons.IH [of "tl (unread @ [resp])" s1]
    by (cases unread) (simp_all add: client_call_def r rs Let_def)
qed

section \<open>Properties\<close>

text \<open>Requests and responses are paired in order as long as no call times out: on a connection
  with nothing unread, every call returns the server's answer to its own request and nothing is
  left unread.\<close>

theorem client_calls_paired:
  "run_calls srv (map (Pair InTime) reqs) ([], s) =
     (map Inr (fst (answers srv reqs s)), [], snd (answers srv reqs s))"
proof -
  have "length (fst (answers srv reqs s)) = length reqs"
    by (induction reqs arbitrary: s) (auto simp: split_def Let_def)
  then show ?thesis by (simp add: run_calls_in_time split_def Let_def)
qed

text \<open>One timeout shifts the connection for ever: after a call that timed out, every later call
  returns the answer to the request before its own. The response of the timed-out call stays in
  the stream, because \<open>call\<close> keeps the connection and its requests carry no identifier.\<close>

theorem client_timeout_desynchronises:
  "run_calls srv ((Late, req) # map (Pair InTime) reqs) ([], s) =
     (let resps = fst (answers srv (req # reqs) s)
      in (Inl (TimedOut ''rpc timeout'') # map Inr (butlast resps), [last resps],
          snd (answers srv (req # reqs) s)))"
proof -
  obtain resp s1 where r: "srv req s = (resp, s1)" by fastforce
  obtain resps s2 where rs: "answers srv reqs s1 = (resps, s2)" by fastforce
  have "length (fst (answers srv reqs s)) = length reqs" for s
    by (induction reqs arbitrary: s) (auto simp: split_def Let_def)
  from this [of s1] have len: "length resps = length reqs" by (simp add: rs)
  then have "take (length reqs) (resp # resps) = butlast (resp # resps)"
    by (simp add: butlast_conv_take)
  moreover have "drop (length reqs) (resp # resps) = [last (resp # resps)]"
    using len by (metis append_butlast_last_id append_eq_conv_conj length_butlast length_Cons
        diff_Suc_1 list.distinct(1))
  ultimately show ?thesis
    by (simp add: client_call_def r rs Let_def run_calls_in_time)
qed

end
