(* ===== verification/Metrics.thy ===== *)
theory Metrics
  imports Storage
begin

text \<open>
  The counters of a node and its HTTP endpoints, \<open>tp-kv-distributed/src/metrics.rs\<close>.

  The lag in milliseconds is a quotient of floating-point numbers printed with three decimals:
  \<open>fmt_lag\<close>, a parameter, is its text as a function of the lag in microseconds. The HTTP library
  is reduced to the path of a request and the status, content type and body of a response.
\<close>

section \<open>Counters\<close>

record metrics =
  mt_node_id :: u32
  mt_started_at :: instant
  mt_ops_total :: u64
  mt_get_total :: u64
  mt_put_total :: u64
  mt_delete_total :: u64
  mt_errors_total :: u64
  mt_replication_lag_us :: u64
  mt_active_connections :: u64
  mt_peers_alive :: u64
  mt_peers_total :: u64

definition metrics_new :: "instant \<Rightarrow> u32 \<Rightarrow> metrics" where
  "metrics_new now node_id =
     \<lparr>mt_node_id = node_id, mt_started_at = now, mt_ops_total = 0, mt_get_total = 0,
      mt_put_total = 0, mt_delete_total = 0, mt_errors_total = 0, mt_replication_lag_us = 0,
      mt_active_connections = 0, mt_peers_alive = 0, mt_peers_total = 0\<rparr>"

definition update_replication_lag :: "u64 \<Rightarrow> metrics \<Rightarrow> metrics" where
  "update_replication_lag lat_ms m =
     (let lat_us = saturating_mul lat_ms 1000;
          prev = mt_replication_lag_us m;
          next = (if prev = 0 then lat_us
                  else saturating_add (saturating_mul prev 7) lat_us div 8)
      in m\<lparr>mt_replication_lag_us := next\<rparr>)"

section \<open>The Prometheus text\<close>

definition newline :: char where
  "newline = CHR 0x0A"

definition metric_lines :: "string \<Rightarrow> string \<Rightarrow> string \<Rightarrow> u32 \<Rightarrow> string \<Rightarrow> string list" where
  "metric_lines name help kind nid val =
     [''# HELP '' @ name @ '' '' @ help,
      ''# TYPE '' @ name @ '' '' @ kind,
      name @ ''{node='' @ [CHR 0x22] @ show_word nid @ [CHR 0x22] @ ''} '' @ val]"

definition format_prometheus_lines ::
  "(u64 \<Rightarrow> string) \<Rightarrow> instant \<Rightarrow> storage_engine \<Rightarrow> metrics \<Rightarrow> string list" where
  "format_prometheus_lines fmt_lag now storage m =
     (let uptime_s = as_secs (elapsed now (mt_started_at m));
          lag_ms = fmt_lag (mt_replication_lag_us m);
          snap = stats_take_snapshot (se_stats storage);
          nid = mt_node_id m
      in concat
           [metric_lines ''kv_ops_total'' ''Total number of operations'' ''counter'' nid
              (show_word (mt_ops_total m)),
            metric_lines ''kv_get_total'' ''Total GET operations'' ''counter'' nid
              (show_word (mt_get_total m)),
            metric_lines ''kv_put_total'' ''Total PUT operations'' ''counter'' nid
              (show_word (mt_put_total m)),
            metric_lines ''kv_delete_total'' ''Total DELETE operations'' ''counter'' nid
              (show_word (mt_delete_total m)),
            metric_lines ''kv_errors_total'' ''Total error responses'' ''counter'' nid
              (show_word (mt_errors_total m)),
            metric_lines ''kv_storage_hits'' ''Storage layer hits'' ''counter'' nid
              (show_word (ss_hits snap)),
            metric_lines ''kv_storage_misses'' ''Storage layer misses'' ''counter'' nid
              (show_word (ss_misses snap)),
            metric_lines ''kv_storage_expired'' ''Lazily expired entries'' ''counter'' nid
              (show_word (ss_expired snap)),
            metric_lines ''kv_keys_count'' ''Current number of keys stored'' ''gauge'' nid
              (show_nat (engine_len storage)),
            metric_lines ''kv_active_connections'' ''Open TCP connections'' ''gauge'' nid
              (show_word (mt_active_connections m)),
            metric_lines ''kv_replication_lag_ms'' ''EWMA of PUT replication latency'' ''gauge'' nid
              lag_ms,
            metric_lines ''kv_peers_alive'' ''Peers currently reachable'' ''gauge'' nid
              (show_word (mt_peers_alive m)),
            metric_lines ''kv_peers_total'' ''Total peers configured'' ''gauge'' nid
              (show_word (mt_peers_total m)),
            metric_lines ''kv_uptime_seconds'' ''Uptime in seconds'' ''gauge'' nid
              (show_word uptime_s)])"

definition format_prometheus ::
  "(u64 \<Rightarrow> string) \<Rightarrow> instant \<Rightarrow> storage_engine \<Rightarrow> metrics \<Rightarrow> string" where
  "format_prometheus fmt_lag now storage m =
     concat (map (\<lambda>l. l @ [newline]) (format_prometheus_lines fmt_lag now storage m))"

section \<open>The HTTP endpoints\<close>

datatype status_code = OK | NOT_FOUND | SERVICE_UNAVAILABLE

record http_response =
  hp_status :: status_code
  hp_content_type :: "string option"
  hp_body :: string

record metrics_server =
  ms_metrics :: metrics
  ms_storage :: storage_engine
  ms_min_peers_alive :: u64

definition metrics_server_new :: "metrics \<Rightarrow> storage_engine \<Rightarrow> metrics_server" where
  "metrics_server_new m storage =
     \<lparr>ms_metrics = m, ms_storage = storage, ms_min_peers_alive = 1\<rparr>"

definition handle_metrics :: "(u64 \<Rightarrow> string) \<Rightarrow> instant \<Rightarrow> metrics_server \<Rightarrow> http_response" where
  "handle_metrics fmt_lag now srv =
     (let body = format_prometheus fmt_lag now (ms_storage srv) (ms_metrics srv) in
      \<lparr>hp_status = OK, hp_content_type = Some ''text/plain; version=0.0.4'', hp_body = body\<rparr>)"

definition quoted :: "string \<Rightarrow> string" where
  "quoted s = [CHR 0x22] @ s @ [CHR 0x22]"

definition handle_health :: "instant \<Rightarrow> metrics_server \<Rightarrow> http_response" where
  "handle_health now srv =
     (let m = ms_metrics srv;
          uptime_s = as_secs (elapsed now (mt_started_at m));
          alive = mt_peers_alive m;
          total = mt_peers_total m;
          healthy = (alive \<ge> ms_min_peers_alive srv \<or> total = 0);
          status = (if healthy then ''ok'' else ''degraded'');
          code = (if healthy then OK else SERVICE_UNAVAILABLE);
          body = ''{'' @ quoted ''status'' @ '':'' @ quoted status @ '','' @
                 quoted ''node_id'' @ '':'' @ show_word (mt_node_id m) @ '','' @
                 quoted ''uptime_s'' @ '':'' @ show_word uptime_s @ '','' @
                 quoted ''peers_alive'' @ '':'' @ show_word alive @ '','' @
                 quoted ''peers_total'' @ '':'' @ show_word total @ ''}''
      in \<lparr>hp_status = code, hp_content_type = Some ''application/json'', hp_body = body\<rparr>)"

definition metrics_dispatch :: "(u64 \<Rightarrow> string) \<Rightarrow> instant \<Rightarrow> metrics_server \<Rightarrow> string \<Rightarrow> http_response" where
  "metrics_dispatch fmt_lag now srv path =
     (if path = ''/metrics'' then handle_metrics fmt_lag now srv
      else if path = ''/health'' then handle_health now srv
      else if path = ''/'' then
        \<lparr>hp_status = OK, hp_content_type = Some ''text/plain; charset=utf-8'',
         hp_body = ''kv-distributed '' @ [CHR 0xE2, CHR 0x80, CHR 0x93] @
                   '' endpoints: /metrics /health''\<rparr>
      else \<lparr>hp_status = NOT_FOUND, hp_content_type = None, hp_body = ''not found''\<rparr>)"

section \<open>Lemmas\<close>

lemma unat_lat_us: "unat lat_ms * 1000 < 2 ^ 64 \<Longrightarrow> unat (saturating_mul lat_ms 1000) = unat lat_ms * 1000"
  by (simp add: unat_saturating_mul)

lemma lag_step:
  assumes "lo \<le> unat lat_ms * 1000" and "unat lat_ms * 1000 \<le> hi" and "8 * hi < 2 ^ 64"
    and "unat (mt_replication_lag_us m) = 0 \<or>
      lo \<le> unat (mt_replication_lag_us m) \<and> unat (mt_replication_lag_us m) \<le> hi"
  shows "lo \<le> unat (mt_replication_lag_us (update_replication_lag lat_ms m)) \<and>
    unat (mt_replication_lag_us (update_replication_lag lat_ms m)) \<le> hi"
proof -
  let ?p = "mt_replication_lag_us m"
  have lat: "unat (saturating_mul lat_ms 1000) = unat lat_ms * 1000"
    using assms(2,3) by (intro unat_lat_us) simp
  show ?thesis
  proof (cases "?p = 0")
    case True
    with assms(1,2) lat show ?thesis by (simp add: update_replication_lag_def Let_def)
  next
    case False
    then have p: "lo \<le> unat ?p" "unat ?p \<le> hi"
      using assms(4) by (auto simp: unat_eq_0)
    have "unat (saturating_add (saturating_mul ?p 7) (saturating_mul lat_ms 1000) div 8) =
        (unat ?p * 7 + unat lat_ms * 1000) div 8"
      using p(2) assms(2,3) lat
      by (simp add: unat_div_distrib unat_saturating_add unat_saturating_mul min_def)
    moreover have "lo \<le> (unat ?p * 7 + unat lat_ms * 1000) div 8 \<and>
        (unat ?p * 7 + unat lat_ms * 1000) div 8 \<le> hi"
      using p assms(1,2) div_le_mono [of "unat ?p * 7 + unat lat_ms * 1000" "hi * 8" 8]
      by (simp add: less_eq_div_iff_mult_less_eq)
    ultimately show ?thesis
      using False by (simp add: update_replication_lag_def Let_def)
  qed
qed

text \<open>Reading the value of a metric back from the text.\<close>

definition metric_prefix :: "string \<Rightarrow> u32 \<Rightarrow> string" where
  "metric_prefix name nid = name @ ''{node='' @ [CHR 0x22] @ show_word nid @ [CHR 0x22] @ ''} ''"

definition scrape :: "string \<Rightarrow> u32 \<Rightarrow> string \<Rightarrow> string option" where
  "scrape name nid out =
     map_option (drop (length (metric_prefix name nid)))
       (List.find (prefix (metric_prefix name nid)) (split_on newline out))"

lemma split_on_lines:
  "\<forall>l \<in> set ls. newline \<notin> set l \<Longrightarrow>
   split_on newline (concat (map (\<lambda>l. l @ [newline]) ls)) = ls @ [[]]"
  by (induction ls) (auto simp: split_on_append)

lemma newline_show_nat [simp]: "newline \<notin> set (show_nat n)"
proof
  assume "newline \<in> set (show_nat n)"
  then obtain d where "d < 10" "newline = digit_char d" using set_show_nat by blast
  then have "(of_char newline :: nat) = of_char (digit_char d)" by simp
  also have "\<dots> = 48 + d"
    using \<open>d < 10\<close> by (simp add: digit_char_def)
  finally show False by (simp add: newline_def)
qed

lemma metric_prefix_eq: "metric_prefix name nid @ val = metric_lines name help kind nid val ! 2"
  by (simp add: metric_prefix_def metric_lines_def)

lemma prefix_other_metric:
  assumes "CHR ''{'' \<notin> set name" and "CHR ''{'' \<notin> set name'"
  shows "prefix (metric_prefix name nid) (name' @ ''{'' @ xs) \<Longrightarrow> name = name'"
  using assms
proof (induction name arbitrary: name')
  case Nil
  then show ?case by (cases name') (auto simp: metric_prefix_def)
next
  case (Cons c name)
  show ?case
  proof (cases name')
    case Nil
    with Cons.prems show ?thesis by (auto simp: metric_prefix_def)
  next
    case (Cons c' name'')
    with Cons.prems Cons.IH [of name''] show ?thesis by (auto simp: metric_prefix_def)
  qed
qed

definition metric_name :: "string \<Rightarrow> bool" where
  "metric_name name \<longleftrightarrow> name \<noteq> [] \<and> hd name \<noteq> CHR ''#'' \<and> CHR ''{'' \<notin> set name"

lemma find_metric_lines:
  assumes "metric_name name" and "metric_name name'"
  shows "List.find (prefix (metric_prefix name nid)) (metric_lines name' help kind nid val @ rest) =
    (if name' = name then Some (metric_prefix name nid @ val)
     else List.find (prefix (metric_prefix name nid)) rest)"
proof -
  have no: "\<not> prefix (metric_prefix name nid) (CHR ''#'' # l)" for l
    using assms(1) by (cases name) (auto simp: metric_prefix_def metric_name_def)
  show ?thesis
    using assms no prefix_other_metric [of name name' nid]
    by (auto simp: metric_lines_def metric_name_def) (auto simp: metric_prefix_def)
qed

lemma scrape_lines:
  "\<forall>l \<in> set ls. newline \<notin> set l \<Longrightarrow>
   scrape name nid (concat (map (\<lambda>l. l @ [newline]) ls)) =
     map_option (drop (length (metric_prefix name nid)))
       (List.find (prefix (metric_prefix name nid)) (ls @ [[]]))"
  by (simp only: scrape_def split_on_lines)

lemma metric_lines_no_newline:
  "newline \<notin> set name \<Longrightarrow> newline \<notin> set help \<Longrightarrow> newline \<notin> set kind \<Longrightarrow> newline \<notin> set val \<Longrightarrow>
   \<forall>l \<in> set (metric_lines name help kind nid val). newline \<notin> set l"
  by (simp add: metric_lines_def) (simp add: newline_def)

lemma format_prometheus_no_newline:
  assumes "newline \<notin> set (fmt_lag (mt_replication_lag_us m))"
  shows "\<forall>l \<in> set (format_prometheus_lines fmt_lag now storage m). newline \<notin> set l"
  unfolding format_prometheus_lines_def Let_def concat.simps set_append ball_Un append_Nil2
  by (intro conjI metric_lines_no_newline) (use assms in \<open>simp_all add: newline_def [symmetric]\<close>, simp_all add: newline_def)

section \<open>Properties\<close>

text \<open>The replication lag is an average: after any non-empty sequence of measured latencies that
  all lie between \<open>lo\<close> and \<open>hi\<close> milliseconds, the reported lag lies between them, as long as
  \<open>8000 * hi\<close> fits a \<open>u64\<close>, so that nothing saturates.\<close>

theorem replication_lag_bounded:
  assumes "lats \<noteq> []" and "\<forall>l \<in> set lats. lo \<le> unat l \<and> unat l \<le> hi" and "8000 * hi < 2 ^ 64"
  shows "lo * 1000 \<le> unat (mt_replication_lag_us
           (foldl (\<lambda>m l. update_replication_lag l m) (metrics_new now nid) lats)) \<and>
         unat (mt_replication_lag_us
           (foldl (\<lambda>m l. update_replication_lag l m) (metrics_new now nid) lats)) \<le> hi * 1000"
  using assms(1,2)
proof (induction lats rule: rev_induct)
  case (snoc l lats)
  let ?m = "foldl (\<lambda>m l. update_replication_lag l m) (metrics_new now nid) lats"
  have "unat (mt_replication_lag_us ?m) = 0 \<or> lo * 1000 \<le> unat (mt_replication_lag_us ?m) \<and>
      unat (mt_replication_lag_us ?m) \<le> hi * 1000"
    using snoc by (cases "lats = []") (auto simp: metrics_new_def)
  then show ?case
    using lag_step [of "lo * 1000" l "hi * 1000" ?m] snoc.prems assms(3) by simp
qed simp

theorem replication_lag_bounded_witness:
  "10 * 1000 \<le> unat (mt_replication_lag_us
     (foldl (\<lambda>m l. update_replication_lag l m) (metrics_new 0 1) [10, 20, 30]))"
  by (rule replication_lag_bounded [where hi = 30, THEN conjunct1]) simp_all

definition metrics_page :: "(u64 \<Rightarrow> string) \<Rightarrow> instant \<Rightarrow> storage_engine \<Rightarrow> metrics \<Rightarrow> string" where
  "metrics_page fmt_lag now storage m =
     hp_body (metrics_dispatch fmt_lag now (metrics_server_new m storage) ''/metrics'')"

text \<open>Scraping the metrics endpoint gives back the counters: looking up a metric by name and node
  in the text of \<open>/metrics\<close> returns the printed value of the counter it is named after, for the
  operation counters, the storage counters, the number of keys, the connections, the lag and the
  peers. The only condition is that the printed lag holds no line break.\<close>

theorem prometheus_scrape:
  assumes "newline \<notin> set (fmt_lag (mt_replication_lag_us m))"
  shows "scrape ''kv_ops_total'' (mt_node_id m) (metrics_page fmt_lag now storage m) = Some (show_word (mt_ops_total m)) \<and>
    scrape ''kv_get_total'' (mt_node_id m) (metrics_page fmt_lag now storage m) = Some (show_word (mt_get_total m)) \<and>
    scrape ''kv_put_total'' (mt_node_id m) (metrics_page fmt_lag now storage m) = Some (show_word (mt_put_total m)) \<and>
    scrape ''kv_delete_total'' (mt_node_id m) (metrics_page fmt_lag now storage m) = Some (show_word (mt_delete_total m)) \<and>
    scrape ''kv_errors_total'' (mt_node_id m) (metrics_page fmt_lag now storage m) = Some (show_word (mt_errors_total m)) \<and>
    scrape ''kv_storage_hits'' (mt_node_id m) (metrics_page fmt_lag now storage m) = Some (show_word (st_hits (se_stats storage))) \<and>
    scrape ''kv_storage_misses'' (mt_node_id m) (metrics_page fmt_lag now storage m) = Some (show_word (st_misses (se_stats storage))) \<and>
    scrape ''kv_storage_expired'' (mt_node_id m) (metrics_page fmt_lag now storage m) = Some (show_word (st_expired (se_stats storage))) \<and>
    scrape ''kv_keys_count'' (mt_node_id m) (metrics_page fmt_lag now storage m) = Some (show_nat (card (dom (se_store storage)))) \<and>
    scrape ''kv_active_connections'' (mt_node_id m) (metrics_page fmt_lag now storage m) = Some (show_word (mt_active_connections m)) \<and>
    scrape ''kv_replication_lag_ms'' (mt_node_id m) (metrics_page fmt_lag now storage m) = Some (fmt_lag (mt_replication_lag_us m)) \<and>
    scrape ''kv_peers_alive'' (mt_node_id m) (metrics_page fmt_lag now storage m) = Some (show_word (mt_peers_alive m)) \<and>
    scrape ''kv_peers_total'' (mt_node_id m) (metrics_page fmt_lag now storage m) = Some (show_word (mt_peers_total m))"
proof -
  have out: "metrics_page fmt_lag now storage m = concat (map (\<lambda>l. l @ [newline]) (format_prometheus_lines fmt_lag now storage m))"
    by (simp add: metrics_page_def metrics_dispatch_def handle_metrics_def metrics_server_new_def
        format_prometheus_def)
  show ?thesis
    unfolding out scrape_lines [OF format_prometheus_no_newline [where fmt_lag = fmt_lag, OF assms(1)]]
    unfolding format_prometheus_lines_def Let_def concat.simps append_assoc append_Nil
    by (intro conjI) (simp_all add: find_metric_lines metric_name_def stats_take_snapshot_def engine_len_def)
qed

theorem prometheus_scrape_witness:
  "scrape ''kv_ops_total'' 7 (metrics_page (\<lambda>_. ''0.000'') 5 engine_new ((metrics_new 0 7)\<lparr>mt_ops_total := 42\<rparr>)) =
   Some ''42''"
  using prometheus_scrape [of "\<lambda>_. ''0.000''" "(metrics_new 0 7)\<lparr>mt_ops_total := 42\<rparr>" 5 engine_new]
  by (simp add: newline_def metrics_new_def show_nat.simps)

end
