(* ===== verification/Replication.thy ===== *)
theory Replication
  imports Storage HashRing Client
begin

text \<open>
  The quorum replication layer, \<open>tp-kv-distributed/src/replication.rs\<close>.

  The replicator runs in a world \<open>'w\<close> that it reaches through \<open>node_env\<close>: the local storage,
  the clock, and the calls to the other nodes. A call takes the world to a new world, so what the
  other nodes do, and what they call back, is part of the model; \<open>Cluster\<close> instantiates the world
  with the nodes themselves. The replication tasks, which run in parallel, are run in the order in
  which they are spawned. The pool of clients is the set of names it holds.

  \<open>h\<close> is the hash function of the ring and \<open>dbg\<close> the debug text of a response.
\<close>

section \<open>Errors, configuration and environment\<close>

datatype replication_error =
    QuorumNotMet usize usize
  | NoReplicaAvailable
  | Network string

definition e_acute :: string where
  "e_acute = [CHR 0xC3, CHR 0xA9]"

fun replication_display :: "replication_error \<Rightarrow> string" where
  "replication_display (QuorumNotMet acks required) =
     ''quorum non atteint : '' @ show_nat acks @ ''/'' @ show_nat required @ '' acks re'' @
     [CHR 0xC3, CHR 0xA7] @ ''us''"
| "replication_display NoReplicaAvailable =
     ''aucun r'' @ e_acute @ ''plica disponible pour la cl'' @ e_acute"
| "replication_display (Network e) = ''erreur r'' @ e_acute @ ''seau : '' @ e"

record replicator =
  rp_node_id :: u32
  rp_local_node_name :: string
  rp_ring :: chring
  rp_peers :: "string set"
  rp_replication_factor :: usize
  rp_write_quorum :: usize
  rp_op_timeout :: duration

definition replicator_new :: "u32 \<Rightarrow> string \<Rightarrow> chring \<Rightarrow> string set \<Rightarrow> replicator" where
  "replicator_new node_id local_node_name ring peers =
     \<lparr>rp_node_id = node_id, rp_local_node_name = local_node_name, rp_ring = ring,
      rp_peers = peers, rp_replication_factor = 2, rp_write_quorum = 2,
      rp_op_timeout = duration_from_millis 500\<rparr>"

text \<open>How a task under \<open>timeout\<close> ends: it finishes, its deadline passes, or it panics.\<close>

datatype task_end = Finishes | Elapses | Panics

record 'w node_env =
  ne_storage :: "'w \<Rightarrow> storage_engine"
  ne_set_storage :: "storage_engine \<Rightarrow> 'w \<Rightarrow> 'w"
  ne_now :: "'w \<Rightarrow> instant"
  ne_deadline :: "duration \<Rightarrow> string \<Rightarrow> request \<Rightarrow> 'w \<Rightarrow> task_end \<times> 'w"
  ne_call :: "string \<Rightarrow> request \<Rightarrow> 'w \<Rightarrow> (client_error + response) \<times> 'w"

definition replicas_of :: "(string \<Rightarrow> u64) \<Rightarrow> replicator \<Rightarrow> string \<Rightarrow> string list" where
  "replicas_of h r key = ring_get_nodes h key (rp_replication_factor r) (rp_ring r)"

section \<open>PUT\<close>

text \<open>The local write, or the forward to the first replica: the version and the first ack.\<close>

definition put_first ::
  "(response \<Rightarrow> string) \<Rightarrow> ('w, 'z) node_env_scheme \<Rightarrow> replicator \<Rightarrow> string list \<Rightarrow>
   string \<Rightarrow> u8 list \<Rightarrow> u64 option \<Rightarrow> 'w \<Rightarrow> (replication_error + u64 \<times> usize) \<times> 'w" where
  "put_first dbg env r replicas key val ttl_ms w =
     (if rp_local_node_name r \<in> set replicas then
        (let ttl = map_option duration_from_millis ttl_ms;
             (v, s) = engine_put (ne_now env w) key val ttl (ne_storage env w)
         in (Inr (v, 1), ne_set_storage env s w))
      else
        (let target = hd replicas in
         if target \<notin> rp_peers r then (Inl NoReplicaAvailable, w)
         else
           (case client_put_with_ttl dbg (ne_call env target) key val ttl_ms w of
              (Inl e, w) \<Rightarrow> (Inl (Network (io_display e)), w)
            | (Inr ver, w) \<Rightarrow> (Inr (ver, 1), w))))"

text \<open>The loop over the other replicas and the join of its tasks: the acks and the world.\<close>

fun replicate_loop ::
  "(response \<Rightarrow> string) \<Rightarrow> ('w, 'z) node_env_scheme \<Rightarrow> replicator \<Rightarrow> string \<Rightarrow> u8 list \<Rightarrow> u64 \<Rightarrow>
   u64 option \<Rightarrow> string list \<Rightarrow> usize \<Rightarrow> 'w \<Rightarrow> usize \<times> 'w" where
  "replicate_loop dbg env r key val version ttl_ms [] acks w = (acks, w)"
| "replicate_loop dbg env r key val version ttl_ms (replica # replicas) acks w =
     (if replica = rp_local_node_name r then
        replicate_loop dbg env r key val version ttl_ms replicas acks w
      else if replica \<notin> rp_peers r then
        replicate_loop dbg env r key val version ttl_ms replicas acks w
      else
        (let source = rp_node_id r;
             (task, w) = ne_deadline env (rp_op_timeout r) replica
                           (Replicate key val version ttl_ms source) w
         in case task of
              Finishes \<Rightarrow>
                (case client_replicate dbg (ne_call env replica) key val version ttl_ms source w of
                   (Inr _, w) \<Rightarrow> replicate_loop dbg env r key val version ttl_ms replicas (acks + 1) w
                 | (Inl e, w) \<Rightarrow> replicate_loop dbg env r key val version ttl_ms replicas acks w)
            | Elapses \<Rightarrow> replicate_loop dbg env r key val version ttl_ms replicas acks w
            | Panics \<Rightarrow> replicate_loop dbg env r key val version ttl_ms replicas acks w))"

definition put_replicated ::
  "(string \<Rightarrow> u64) \<Rightarrow> (response \<Rightarrow> string) \<Rightarrow> ('w, 'z) node_env_scheme \<Rightarrow> replicator \<Rightarrow>
   string \<Rightarrow> u8 list \<Rightarrow> u64 option \<Rightarrow> 'w \<Rightarrow> (replication_error + u64) \<times> 'w" where
  "put_replicated h dbg env r key val ttl_ms w =
     (let replicas = replicas_of h r key in
      if replicas = [] then (Inl NoReplicaAvailable, w)
      else
        (case put_first dbg env r replicas key val ttl_ms w of
           (Inl e, w) \<Rightarrow> (Inl e, w)
         | (Inr (version, acks), w) \<Rightarrow>
             (let (acks, w) = replicate_loop dbg env r key val version ttl_ms replicas acks w in
              if acks \<ge> rp_write_quorum r then (Inr version, w)
              else (Inl (QuorumNotMet acks (rp_write_quorum r)), w))))"

section \<open>GET\<close>

fun get_loop ::
  "(response \<Rightarrow> string) \<Rightarrow> ('w, 'z) node_env_scheme \<Rightarrow> replicator \<Rightarrow> string \<Rightarrow> string list \<Rightarrow> 'w \<Rightarrow>
   u8 list option \<times> 'w" where
  "get_loop dbg env r key [] w = (None, w)"
| "get_loop dbg env r key (replica # replicas) w =
     (if replica = rp_local_node_name r then
        (let (found, s) = engine_get (ne_now env w) key (ne_storage env w);
             w = ne_set_storage env s w
         in case found of
              Some v \<Rightarrow> (Some (ve_data v), w)
            | None \<Rightarrow> get_loop dbg env r key replicas w)
      else if replica \<in> rp_peers r then
        (case ne_deadline env (rp_op_timeout r) replica (Get key) w of
           (Finishes, w) \<Rightarrow>
             (case client_get dbg (ne_call env replica) key w of
                (Inr (Some v), w) \<Rightarrow> (Some v, w)
              | (Inr None, w) \<Rightarrow> get_loop dbg env r key replicas w
              | (Inl e, w) \<Rightarrow> get_loop dbg env r key replicas w)
         | (_, w) \<Rightarrow> get_loop dbg env r key replicas w)
      else get_loop dbg env r key replicas w)"

definition get_replicated ::
  "(string \<Rightarrow> u64) \<Rightarrow> (response \<Rightarrow> string) \<Rightarrow> ('w, 'z) node_env_scheme \<Rightarrow> replicator \<Rightarrow>
   string \<Rightarrow> 'w \<Rightarrow> (replication_error + u8 list option) \<times> 'w" where
  "get_replicated h dbg env r key w =
     (let replicas = replicas_of h r key in
      if replicas = [] then (Inl NoReplicaAvailable, w)
      else (let (v, w) = get_loop dbg env r key replicas w in (Inr v, w)))"

section \<open>DELETE\<close>

fun delete_loop ::
  "(response \<Rightarrow> string) \<Rightarrow> ('w, 'z) node_env_scheme \<Rightarrow> replicator \<Rightarrow> string \<Rightarrow> string list \<Rightarrow>
   bool \<Rightarrow> 'w \<Rightarrow> bool \<times> 'w" where
  "delete_loop dbg env r key [] existed_anywhere w = (existed_anywhere, w)"
| "delete_loop dbg env r key (replica # replicas) existed_anywhere w =
     (if replica = rp_local_node_name r then
        (let (b, s) = engine_delete key (ne_storage env w)
         in delete_loop dbg env r key replicas (if b then True else existed_anywhere)
              (ne_set_storage env s w))
      else if replica \<in> rp_peers r then
        (case ne_deadline env (rp_op_timeout r) replica (Delete key) w of
           (Finishes, w) \<Rightarrow>
             (case client_delete dbg (ne_call env replica) key w of
                (Inr True, w) \<Rightarrow> delete_loop dbg env r key replicas True w
              | (_, w) \<Rightarrow> delete_loop dbg env r key replicas existed_anywhere w)
         | (_, w) \<Rightarrow> delete_loop dbg env r key replicas existed_anywhere w)
      else delete_loop dbg env r key replicas existed_anywhere w)"

definition delete_replicated ::
  "(string \<Rightarrow> u64) \<Rightarrow> (response \<Rightarrow> string) \<Rightarrow> ('w, 'z) node_env_scheme \<Rightarrow> replicator \<Rightarrow>
   string \<Rightarrow> 'w \<Rightarrow> (replication_error + bool) \<times> 'w" where
  "delete_replicated h dbg env r key w =
     (let replicas = replicas_of h r key;
          (existed_anywhere, w) = delete_loop dbg env r key replicas False w
      in (Inr existed_anywhere, w))"

end
