(* ===== verification/Server.thy ===== *)
theory Server
  imports Replication Metrics
begin

text \<open>
  The request dispatcher and the connection loop, \<open>tp-kv-distributed/src/server.rs\<close>.

  The environment of a server adds to the replicator's the node's metrics and the order in which
  its store is iterated. \<open>handle_request\<close> has one branch per request; \<open>handle_connection\<close> is the
  loop over the requests of one connection, on the byte streams of \<open>Protocol\<close>.
\<close>

record kv_server =
  ks_node_id :: u32
  ks_replicator :: replicator
  ks_started_at :: instant

definition kv_server_new :: "instant \<Rightarrow> u32 \<Rightarrow> replicator \<Rightarrow> kv_server" where
  "kv_server_new now node_id r =
     \<lparr>ks_node_id = node_id, ks_replicator = r, ks_started_at = now\<rparr>"

record 'w server_env = "'w node_env" +
  sn_metrics :: "'w \<Rightarrow> metrics"
  sn_set_metrics :: "metrics \<Rightarrow> 'w \<Rightarrow> 'w"
  sn_iter :: "'w \<Rightarrow> (string \<times> value_entry) list"

definition upd_metrics :: "('w, 'z) server_env_scheme \<Rightarrow> (metrics \<Rightarrow> metrics) \<Rightarrow> 'w \<Rightarrow> 'w" where
  "upd_metrics env f w = sn_set_metrics env (f (sn_metrics env w)) w"

definition count_op :: "metrics \<Rightarrow> metrics" where
  "count_op m = m\<lparr>mt_ops_total := mt_ops_total m + 1\<rparr>"

definition count_error :: "metrics \<Rightarrow> metrics" where
  "count_error m = m\<lparr>mt_errors_total := mt_errors_total m + 1\<rparr>"

fun handle_request ::
  "(string \<Rightarrow> u64) \<Rightarrow> (response \<Rightarrow> string) \<Rightarrow> ('w, 'z) server_env_scheme \<Rightarrow> kv_server \<Rightarrow>
   request \<Rightarrow> 'w \<Rightarrow> response \<times> 'w" where
  "handle_request h dbg env srv (Get key) w =
     (let w = upd_metrics env count_op w;
          w = upd_metrics env (\<lambda>m. m\<lparr>mt_get_total := mt_get_total m + 1\<rparr>) w
      in case get_replicated h dbg env (ks_replicator srv) key w of
           (Inr (Some data), w) \<Rightarrow> (Value (Some data) 0, w)
         | (Inr None, w) \<Rightarrow> (Value None 0, w)
         | (Inl e, w) \<Rightarrow> (Error (replication_display e), upd_metrics env count_error w))"
| "handle_request h dbg env srv (Put key val ttl_ms) w =
     (let w = upd_metrics env count_op w;
          w = upd_metrics env (\<lambda>m. m\<lparr>mt_put_total := mt_put_total m + 1\<rparr>) w;
          start = ne_now env w;
          (result, w) = put_replicated h dbg env (ks_replicator srv) key val ttl_ms w;
          lat_ms = as_millis_u64 (elapsed (ne_now env w) start);
          w = upd_metrics env (update_replication_lag lat_ms) w
      in case result of
           Inr version \<Rightarrow> (Ack version (ks_node_id srv), w)
         | Inl e \<Rightarrow> (Error (replication_display e), upd_metrics env count_error w))"
| "handle_request h dbg env srv (Delete key) w =
     (let w = upd_metrics env count_op w;
          w = upd_metrics env (\<lambda>m. m\<lparr>mt_delete_total := mt_delete_total m + 1\<rparr>) w
      in case delete_replicated h dbg env (ks_replicator srv) key w of
           (Inr b, w) \<Rightarrow> (Deleted b, w)
         | (Inl e, w) \<Rightarrow> (Error (replication_display e), upd_metrics env count_error w))"
| "handle_request h dbg env srv (Scan pfx limit) w =
     (let w = upd_metrics env count_op w;
          items = map (\<lambda>(k, v). (k, ve_data v))
                    (engine_scan (\<lambda>_. ne_now env w) pfx (unat limit) (sn_iter env w))
      in (ScanResult items, w))"
| "handle_request h dbg env srv (Replicate key val version ttl_ms source_node_id) w =
     (let w = upd_metrics env count_op w;
          ttl = map_option duration_from_millis ttl_ms;
          (_, s) = engine_put_with_version (ne_now env w) key val version ttl (ne_storage env w)
      in (Ack version (ks_node_id srv), ne_set_storage env s w))"
| "handle_request h dbg env srv (Heartbeat node_id timestamp_ms) w =
     (let w = upd_metrics env count_op w
      in (Pong (ks_node_id srv) (of_nat (engine_len (ne_storage env w)))
            (as_secs (elapsed (ne_now env w) (ks_started_at srv))), w))"

definition uptime_s :: "instant \<Rightarrow> kv_server \<Rightarrow> u64" where
  "uptime_s now srv = as_secs (elapsed now (ks_started_at srv))"

text \<open>\<open>handle_connection\<close>: the bytes still to be read, the bytes written back and how the loop
  ends. The accept loop counts the connection before and after.\<close>

function handle_connection ::
  "(u8 list \<Rightarrow> string + request) \<Rightarrow> (response \<Rightarrow> string + u8 list) \<Rightarrow>
   (request \<Rightarrow> 'w \<Rightarrow> response \<times> 'w) \<Rightarrow> u8 list \<Rightarrow> 'w \<Rightarrow> (io_error + unit) \<times> u8 list \<times> 'w" where
  "handle_connection de ser handle stream w =
     (case read_message de stream of
        Inl UnexpectedEof \<Rightarrow> (Inr (), [], w)
      | Inl e \<Rightarrow> (Inl e, [], w)
      | Inr (req, stream') \<Rightarrow>
          (let (resp, w) = handle req w in
           case write_message ser resp of
             Inl e \<Rightarrow> (Inl e, [], w)
           | Inr bytes \<Rightarrow>
               (let (r, out, w) = handle_connection de ser handle stream' w
                in (r, bytes @ out, w))))"
  by pat_completeness auto
termination
  by (relation "measure (\<lambda>(de, ser, handle, stream, w). length stream)")
     (auto simp: read_message_shrinks)

declare handle_connection.simps [simp del]

definition accept_connection ::
  "('w, 'z) server_env_scheme \<Rightarrow> ('w \<Rightarrow> (io_error + unit) \<times> u8 list \<times> 'w) \<Rightarrow> 'w \<Rightarrow> u8 list \<times> 'w" where
  "accept_connection env connection w =
     (let w = upd_metrics env (\<lambda>m. m\<lparr>mt_active_connections := mt_active_connections m + 1\<rparr>) w;
          (_, out, w) = connection w
      in (out, upd_metrics env (\<lambda>m. m\<lparr>mt_active_connections := mt_active_connections m - 1\<rparr>) w))"

section \<open>Lemmas\<close>

lemma handle_connection_frames:
  assumes "\<And>m payload. ser_rq m = Inr payload \<Longrightarrow> de_rq payload = Inr m"
    and "write_all ser_rq reqs = Inr input"
    and "write_all ser_rs (fst (answers handle reqs w)) = Inr out"
  shows "handle_connection de_rq ser_rs handle input w = (Inr (), out, snd (answers handle reqs w))"
  using assms(2,3)
proof (induction reqs arbitrary: input out w)
  case Nil
  then show ?case by (simp add: handle_connection.simps read_message_def read_exact_def)
next
  case (Cons req reqs)
  obtain resp w1 where r: "handle req w = (resp, w1)" by fastforce
  obtain b input' where b: "write_message ser_rq req = Inr b"
    and input': "write_all ser_rq reqs = Inr input'" "input = b @ input'"
    using Cons.prems(1) by (auto split: sum.splits)
  obtain o1 out' where o1: "write_message ser_rs resp = Inr o1"
    and out': "write_all ser_rs (fst (answers handle reqs w1)) = Inr out'" "out = o1 @ out'"
    using Cons.prems(2) by (auto simp: r split_def Let_def split: sum.splits)
  from write_message_Inr [OF b] obtain payload where "ser_rq req = Inr payload"
    "length payload \<le> MAX_FRAME_SIZE" "b = to_be_bytes (of_nat (length payload)) @ payload"
    by blast
  with assms(1) have "read_message de_rq (b @ input') = Inr (req, input')"
    by (simp only: read_frame)
  with Cons.IH [OF input'(1) out'(1)] show ?case
    by (simp add: handle_connection.simps [of de_rq ser_rs handle "b @ input'"] input'(2) out'(2)
        r o1 split_def Let_def)
qed

section \<open>Properties\<close>

text \<open>C25. The connection loop, from bytes to bytes: a client that writes any requests on a connection
  and closes it gets back, on the wire, exactly the frames of the server's answers in order, the
  loop ends without error, and reading the frames gives the answers back. The hypotheses are that
  the serializer round trips and that no answer exceeds the frame limit.\<close>

theorem connection_answers:
  assumes "\<And>m payload. ser_rq m = Inr payload \<Longrightarrow> de_rq payload = Inr m"
    and "\<And>m payload. ser_rs m = Inr payload \<Longrightarrow> de_rs payload = Inr m"
    and "write_all ser_rq reqs = Inr input"
    and "write_all ser_rs (fst (answers (handle_request h dbg env srv) reqs w)) = Inr out"
  shows "handle_connection de_rq ser_rs (handle_request h dbg env srv) input w =
      (Inr (), out, snd (answers (handle_request h dbg env srv) reqs w)) \<and>
    read_all de_rs out = (fst (answers (handle_request h dbg env srv) reqs w), UnexpectedEof)"
  using handle_connection_frames [OF assms(1,3,4)] frames_roundtrip [OF assms(2,4)]
  by simp

definition solo_env :: "(storage_engine \<times> metrics) server_env" where
  "solo_env =
     \<lparr>ne_storage = fst, ne_set_storage = (\<lambda>s w. (s, snd w)), ne_now = (\<lambda>_. 0),
      ne_deadline = (\<lambda>_ _ _ w. (Elapses, w)), ne_call = (\<lambda>_ _ w. (Inl (Wire ''no peer''), w)),
      sn_metrics = snd, sn_set_metrics = (\<lambda>m w. (fst w, m)), sn_iter = (\<lambda>_. [])\<rparr>"

definition solo_server :: kv_server where
  "solo_server = kv_server_new 0 1 (replicator_new 1 ''self'' (ring_new 50) {})"

theorem connection_answers_witness:
  "fst (snd (handle_connection (\<lambda>_. Inr (Heartbeat 1 0))
     (\<lambda>m. if m = Pong 1 0 0 then Inr [2] else Inl ''other'')
     (handle_request (\<lambda>_. 0) (\<lambda>_. []) solo_env solo_server)
     [0, 0, 0, 1, 9, 0, 0, 0, 1, 9] (engine_new, metrics_new 0 1))) =
   [0, 0, 0, 1, 2, 0, 0, 0, 1, 2]"
  by (subst connection_answers
        [where ser_rq = "\<lambda>m. if m = Heartbeat 1 0 then Inr [9] else Inl ''other''"
           and de_rs = "\<lambda>_. Inr (Pong 1 0 0)" and reqs = "[Heartbeat 1 0, Heartbeat 1 0]"
           and out = "[0, 0, 0, 1, 2, 0, 0, 0, 1, 2]", THEN conjunct1])
     (auto simp: write_message_def MAX_FRAME_SIZE_def to_be_bytes_def solo_server_def solo_env_def
        kv_server_new_def upd_metrics_def engine_len_def engine_new_def as_secs_def elapsed_def
        split: if_splits)

end
