(* ===== verification/Cluster.thy ===== *)
theory Cluster
  imports Server
begin

text \<open>
  Several nodes of \<open>tp-kv-distributed\<close> together: the world of \<open>Replication\<close> and \<open>Server\<close> is the
  set of nodes itself, so a call to a peer runs the peer's \<open>handle_request\<close> on the peer's state,
  including whatever that calls in turn.

  For each ordered pair of nodes the cluster holds the responses left unread on the connection
  and whether the connection's mutex is held. \<open>cl_fates\<close> is what happens to the successive remote
  calls (\<open>Client.call_fate\<close>; all in time once the list is used up), and a node that is absent
  refuses connections. \<open>fuel\<close> bounds the depth of nested calls: a call at depth zero times out.
  Two levels are enough for every answer of the theorems below, since a node that holds a
  key's first replica answers without calling anyone. Clock readings are constant during a
  request.
\<close>

section \<open>Nodes and the network\<close>

record node =
  nd_server :: kv_server
  nd_storage :: storage_engine
  nd_metrics :: metrics

record cluster =
  cl_nodes :: "string \<rightharpoonup> node"
  cl_unread :: "string \<times> string \<Rightarrow> response list"
  cl_busy :: "(string \<times> string) set"
  cl_fates :: "call_fate list"
  cl_clock :: instant

type_synonym rpc = "string \<Rightarrow> string \<Rightarrow> request \<Rightarrow> cluster \<Rightarrow> (client_error + response) \<times> cluster"

definition node_of :: "cluster \<Rightarrow> string \<Rightarrow> node" where
  "node_of c me = the (cl_nodes c me)"

definition upd_node :: "string \<Rightarrow> (node \<Rightarrow> node) \<Rightarrow> cluster \<Rightarrow> cluster" where
  "upd_node me f c = c\<lparr>cl_nodes := (cl_nodes c)(me := map_option f (cl_nodes c me))\<rparr>"

definition next_fate :: "cluster \<Rightarrow> call_fate \<times> cluster" where
  "next_fate c = (case cl_fates c of [] \<Rightarrow> (InTime, c) | f # fs \<Rightarrow> (f, c\<lparr>cl_fates := fs\<rparr>))"

definition cluster_env ::
  "((string \<rightharpoonup> value_entry) \<Rightarrow> (string \<times> value_entry) list) \<Rightarrow> rpc \<Rightarrow> string \<Rightarrow> cluster server_env" where
  "cluster_env it call me =
     \<lparr>ne_storage = (\<lambda>c. nd_storage (node_of c me)),
      ne_set_storage = (\<lambda>s. upd_node me (\<lambda>nd. nd\<lparr>nd_storage := s\<rparr>)),
      ne_now = cl_clock,
      ne_deadline = (\<lambda>_ target _ c. (if (me, target) \<in> cl_busy c then Elapses else Finishes, c)),
      ne_call = call me,
      sn_metrics = (\<lambda>c. nd_metrics (node_of c me)),
      sn_set_metrics = (\<lambda>m. upd_node me (\<lambda>nd. nd\<lparr>nd_metrics := m\<rparr>)),
      sn_iter = (\<lambda>c. it (se_store (nd_storage (node_of c me))))\<rparr>"

definition serve_with ::
  "(string \<Rightarrow> u64) \<Rightarrow> (response \<Rightarrow> string) \<Rightarrow>
   ((string \<rightharpoonup> value_entry) \<Rightarrow> (string \<times> value_entry) list) \<Rightarrow> rpc \<Rightarrow>
   string \<Rightarrow> request \<Rightarrow> cluster \<Rightarrow> response \<times> cluster" where
  "serve_with h dbg it call me req c =
     handle_request h dbg (cluster_env it call me) (nd_server (node_of c me)) req c"

text \<open>One remote call: the connection is locked while it lasts.\<close>

definition remote_call ::
  "(string \<Rightarrow> request \<Rightarrow> cluster \<Rightarrow> response \<times> cluster) \<Rightarrow> rpc" where
  "remote_call serve me target req c =
     (if (me, target) \<in> cl_busy c then (Inl (TimedOut ''rpc timeout''), c)
      else
        (let (fate, c) = next_fate c;
             fate = (if cl_nodes c target = None then Broken ''connection refused'' else fate);
             (r, unread, c) = client_call (serve target) fate req
               (cl_unread c (me, target), c\<lparr>cl_busy := insert (me, target) (cl_busy c)\<rparr>)
         in (r, c\<lparr>cl_busy := cl_busy c - {(me, target)},
                  cl_unread := (cl_unread c)((me, target) := unread)\<rparr>)))"

primrec cluster_call ::
  "(string \<Rightarrow> u64) \<Rightarrow> (response \<Rightarrow> string) \<Rightarrow>
   ((string \<rightharpoonup> value_entry) \<Rightarrow> (string \<times> value_entry) list) \<Rightarrow> nat \<Rightarrow> rpc" where
  "cluster_call h dbg it 0 = (\<lambda>me target req c. (Inl (TimedOut ''rpc timeout''), c))"
| "cluster_call h dbg it (Suc fuel) = remote_call (serve_with h dbg it (cluster_call h dbg it fuel))"

text \<open>A request of an outside client to the node \<open>me\<close>.\<close>

definition cluster_serve ::
  "(string \<Rightarrow> u64) \<Rightarrow> (response \<Rightarrow> string) \<Rightarrow>
   ((string \<rightharpoonup> value_entry) \<Rightarrow> (string \<times> value_entry) list) \<Rightarrow> nat \<Rightarrow>
   string \<Rightarrow> request \<Rightarrow> cluster \<Rightarrow> response \<times> cluster" where
  "cluster_serve h dbg it fuel = serve_with h dbg it (cluster_call h dbg it fuel)"

section \<open>What a node stores\<close>

definition stored :: "cluster \<Rightarrow> string \<Rightarrow> string \<Rightarrow> value_entry option" where
  "stored c m key = (case cl_nodes c m of Some nd \<Rightarrow> se_store (nd_storage nd) key | None \<Rightarrow> None)"

definition holds :: "cluster \<Rightarrow> string \<Rightarrow> u64 \<Rightarrow> string \<Rightarrow> bool" where
  "holds c key v m \<longleftrightarrow> (\<exists>e. stored c m key = Some e \<and> v \<le> ve_version e)"

lemma stored_upd_storage:
  "stored (upd_node me (\<lambda>nd. nd\<lparr>nd_storage := s\<rparr>) c) m key =
     (if m = me \<and> cl_nodes c me \<noteq> None then se_store s key else stored c m key)"
  by (auto simp: stored_def upd_node_def split: option.splits)

lemma stored_upd_metrics [simp]:
  "stored (upd_node me (\<lambda>nd. nd\<lparr>nd_metrics := x\<rparr>) c) m key = stored c m key"
  by (auto simp: stored_def upd_node_def split: option.splits)

lemma upd_node_simps [simp]:
  "cl_unread (upd_node me f c) = cl_unread c" "cl_busy (upd_node me f c) = cl_busy c"
  "cl_fates (upd_node me f c) = cl_fates c" "cl_clock (upd_node me f c) = cl_clock c"
  "cl_nodes (upd_node me f c) = (cl_nodes c)(me := map_option f (cl_nodes c me))"
  by (simp_all add: upd_node_def)

lemma next_fate_simps:
  assumes "next_fate c = (f, c')"
  shows "cl_nodes c' = cl_nodes c" "cl_unread c' = cl_unread c" "cl_busy c' = cl_busy c"
    "cl_clock c' = cl_clock c" "stored c' = stored c"
  using assms by (auto simp: next_fate_def stored_def fun_eq_iff split: list.splits)

lemma cluster_env_simps [simp]:
  "ne_storage (cluster_env it call me) c = nd_storage (node_of c me)"
  "ne_set_storage (cluster_env it call me) s = upd_node me (\<lambda>nd. nd\<lparr>nd_storage := s\<rparr>)"
  "ne_now (cluster_env it call me) = cl_clock"
  "ne_deadline (cluster_env it call me) d target req c =
     (if (me, target) \<in> cl_busy c then Elapses else Finishes, c)"
  "ne_call (cluster_env it call me) = call me"
  "upd_metrics (cluster_env it call me) g c =
     upd_node me (\<lambda>nd. nd\<lparr>nd_metrics := g (nd_metrics (node_of c me))\<rparr>) c"
  "sn_iter (cluster_env it call me) c = it (se_store (nd_storage (node_of c me)))"
  by (simp_all add: cluster_env_def upd_metrics_def)

section \<open>A replicated write\<close>

text \<open>What a \<open>Replicate\<close> call from \<open>me\<close> to \<open>target\<close> changes.\<close>

definition only_node :: "string \<Rightarrow> string \<Rightarrow> cluster \<Rightarrow> cluster \<Rightarrow> bool" where
  "only_node me target c c' \<longleftrightarrow>
     (\<forall>m. m \<noteq> target \<longrightarrow> cl_nodes c' m = cl_nodes c m) \<and>
     dom (cl_nodes c') = dom (cl_nodes c) \<and> cl_busy c' = cl_busy c \<and>
     (\<forall>p. p \<noteq> (me, target) \<longrightarrow> cl_unread c' p = cl_unread c p) \<and> cl_clock c' = cl_clock c"

lemma serve_replicate:
  assumes "cl_nodes c target = Some nd"
    and "serve_with h dbg it call target (Replicate key val v ttl_ms src) c = (resp, c')"
  shows "resp = Ack v (ks_node_id (nd_server nd))"
    and "cl_unread c' = cl_unread c" "cl_busy c' = cl_busy c" "cl_clock c' = cl_clock c"
    and "cl_nodes c' = (cl_nodes c)(target \<mapsto> nd\<lparr>nd_metrics := count_op (nd_metrics nd),
           nd_storage := snd (engine_put_with_version (cl_clock c) key val v
             (map_option duration_from_millis ttl_ms) (nd_storage nd))\<rparr>)"
  using assms by (auto simp: serve_with_def node_of_def Let_def split: prod.splits)

lemma put_with_version_holds:
  "\<exists>e. se_store (snd (engine_put_with_version now key val v ttl s)) key = Some e \<and> v \<le> ve_version e"
  by (auto simp: engine_simps split: option.splits)

lemma put_with_version_keeps:
  "se_store s key = Some e \<Longrightarrow>
   \<exists>e'. se_store (snd (engine_put_with_version now key' val v ttl s)) key = Some e' \<and>
     ve_version e \<le> ve_version e'"
  by (auto simp: engine_simps)

definition locked :: "string \<Rightarrow> string \<Rightarrow> cluster \<Rightarrow> cluster" where
  "locked me target c = (snd (next_fate c))\<lparr>cl_busy := insert (me, target) (cl_busy c)\<rparr>"

definition unlocked :: "string \<Rightarrow> string \<Rightarrow> response list \<Rightarrow> cluster \<Rightarrow> cluster" where
  "unlocked me target unread c =
     c\<lparr>cl_busy := cl_busy c - {(me, target)}, cl_unread := (cl_unread c)((me, target) := unread)\<rparr>"

lemma remote_call_free:
  assumes "(me, target) \<notin> cl_busy c" and "cl_unread c (me, target) = []"
  shows "remote_call serve me target req c =
    (let c1 = locked me target c in
     if cl_nodes c target = None then (Inl (Wire ''connection refused''), unlocked me target [] c1)
     else (case fst (next_fate c) of
             Broken e \<Rightarrow> (Inl (Wire e), unlocked me target [] c1)
           | InTime \<Rightarrow> (let (resp, c2) = serve target req c1 in (Inr resp, unlocked me target [] c2))
           | Late \<Rightarrow> (let (resp, c2) = serve target req c1
                      in (Inl (TimedOut ''rpc timeout''), unlocked me target [resp] c2))))"
proof -
  obtain f c1 where f: "next_fate c = (f, c1)" by fastforce
  note nf = next_fate_simps [OF f]
  show ?thesis
    using assms nf
    by (cases f) (auto simp: remote_call_def client_call_def locked_def unlocked_def f Let_def split_def)
qed

lemma locked_simps [simp]:
  "cl_nodes (locked me target c) = cl_nodes c" "cl_unread (locked me target c) = cl_unread c"
  "cl_busy (locked me target c) = insert (me, target) (cl_busy c)"
  "cl_clock (locked me target c) = cl_clock c" "stored (locked me target c) = stored c"
  using next_fate_simps [of c "fst (next_fate c)" "snd (next_fate c)"]
  by (simp_all add: locked_def stored_def fun_eq_iff)

lemma unlocked_simps [simp]:
  "cl_nodes (unlocked me target u c) = cl_nodes c"
  "cl_unread (unlocked me target u c) = (cl_unread c)((me, target) := u)"
  "cl_busy (unlocked me target u c) = cl_busy c - {(me, target)}"
  "cl_clock (unlocked me target u c) = cl_clock c" "stored (unlocked me target u c) = stored c"
  by (simp_all add: unlocked_def stored_def fun_eq_iff)

lemma replicate_call:
  assumes "cluster_call h dbg it fuel me target (Replicate key val v ttl_ms src) c = (r, c')"
    and free: "(me, target) \<notin> cl_busy c" "cl_unread c (me, target) = []"
  shows "only_node me target c c' \<and> (\<forall>k u m. holds c k u m \<longrightarrow> holds c' k u m) \<and>
    (isl r \<or> holds c' key v target)"
proof (cases fuel)
  case 0
  with assms(1) show ?thesis by (auto simp: only_node_def)
next
  case (Suc n)
  let ?sv = "serve_with h dbg it (cluster_call h dbg it n)"
  note call = assms(1) [unfolded Suc cluster_call.simps remote_call_free [OF free] Let_def]
  show ?thesis
  proof (cases "cl_nodes c target")
    case None
    with call free show ?thesis by (auto simp: only_node_def holds_def)
  next
    case (Some nd)
    obtain rp c2 where s: "?sv target (Replicate key val v ttl_ms src) (locked me target c) = (rp, c2)"
      by fastforce
    have nd: "cl_nodes (locked me target c) target = Some nd" using Some by simp
    note sr = serve_replicate [OF nd s]
    have keep: "holds c2 k u m" if "holds c k u m" for k u m
      using that Some put_with_version_keeps [of "nd_storage nd" k]
      by (fastforce simp: holds_def stored_def sr(5) intro: order_trans split: if_splits)
    have got: "holds c2 key v target"
      using put_with_version_holds by (auto simp: holds_def stored_def sr(5))
    have nodes: "cl_nodes c2 m = cl_nodes c m" if "m \<noteq> target" for m
      using that by (simp add: sr(5))
    have doms: "dom (cl_nodes c2) = dom (cl_nodes c)"
      using Some by (auto simp: sr(5))
    have none: "only_node me target c (unlocked me target [] (locked me target c))"
      using free by (simp add: only_node_def)
    have eff: "only_node me target c (unlocked me target u c2)" for u
      using free by (simp add: only_node_def nodes doms sr(2,3,4))
    have holds: "holds (unlocked me target u x) = holds x" "holds (locked me target c) = holds c" for u x
      by (simp_all add: holds_def fun_eq_iff)
    show ?thesis
    proof (cases "fst (next_fate c)")
      case InTime
      with call Some s have "r = Inr rp" "c' = unlocked me target [] c2" by simp_all
      with eff keep got holds show ?thesis by simp
    next
      case Late
      with call Some s have "isl r" "c' = unlocked me target [rp] c2" by auto
      with eff keep holds show ?thesis by simp
    next
      case (Broken e)
      with call Some have "isl r" "c' = unlocked me target [] (locked me target c)" by auto
      with none holds show ?thesis by simp
    qed
  qed
qed

text \<open>The replication loop: the acks beyond the first are distinct replicas that hold the version.\<close>

lemma client_replicate_Inr:
  "client_replicate dbg call key val v ttl_ms src w = (Inr u, w') \<Longrightarrow>
   \<exists>resp. call (Replicate key val v ttl_ms src) w = (Inr resp, w')"
  by (auto simp: client_replicate_def Let_def split: prod.splits sum.splits response.splits)

lemma client_replicate_world:
  "client_replicate dbg call key val v ttl_ms src w = (x, w') \<Longrightarrow>
   snd (call (Replicate key val v ttl_ms src) w) = w'"
  by (auto simp: client_replicate_def Let_def split: prod.splits sum.splits response.splits)

lemma replicate_loop_holds:
  assumes "replicate_loop dbg (cluster_env it (cluster_call h dbg it fuel) me) r key val v ttl_ms
      replicas acks c = (acks', c')"
    and "rp_local_node_name r = me" and "distinct replicas"
    and "\<forall>m. (me, m) \<notin> cl_busy c" and "\<forall>m \<in> set replicas. cl_unread c (me, m) = []"
  shows "\<exists>S. S \<subseteq> set replicas - {me} \<and> acks' = acks + card S \<and> (\<forall>m \<in> S. holds c' key v m) \<and>
    (\<forall>k u m. holds c k u m \<longrightarrow> holds c' k u m) \<and> cl_busy c' = cl_busy c \<and>
    cl_nodes c' me = cl_nodes c me"
  using assms(1,3-5)
proof (induction replicas arbitrary: acks c)
  case Nil
  then show ?case by auto
next
  case (Cons t replicas)
  let ?env = "cluster_env it (cluster_call h dbg it fuel) me"
  let ?loop = "replicate_loop dbg ?env r key val v ttl_ms replicas"
  show ?case
  proof (cases "t = me \<or> t \<notin> rp_peers r")
    case True
    then have "?loop acks c = (acks', c')" using Cons.prems(1) assms(2) by (cases "t = me") auto
    with Cons.IH [OF this] Cons.prems(2-4) show ?thesis by auto
  next
    case False
    obtain x c1 where x: "client_replicate dbg (cluster_call h dbg it fuel me t) key val v ttl_ms
        (rp_node_id r) c = (x, c1)" by fastforce
    let ?acks = "case x of Inr _ \<Rightarrow> acks + 1 | Inl _ \<Rightarrow> acks"
    have loop: "?loop ?acks c1 = (acks', c')"
      using Cons.prems(1,3) False assms(2) by (cases x) (simp_all add: x)
    obtain y c2 where y: "cluster_call h dbg it fuel me t (Replicate key val v ttl_ms (rp_node_id r)) c
        = (y, c2)" by fastforce
    have "c2 = c1" using client_replicate_world [OF x] by (simp add: y)
    then have eff: "only_node me t c c1" "\<And>k u m. holds c k u m \<Longrightarrow> holds c1 k u m"
      "isl y \<or> holds c1 key v t"
      using replicate_call [OF y] Cons.prems(3,4) by auto
    have ack: "holds c1 key v t" if "x = Inr u" for u
      using client_replicate_Inr [of dbg "cluster_call h dbg it fuel me t"] x that eff(3) y by force
    obtain S where S: "S \<subseteq> set replicas - {me}" "acks' = ?acks + card S" "\<forall>m \<in> S. holds c' key v m"
      "\<forall>k u m. holds c1 k u m \<longrightarrow> holds c' k u m" "cl_busy c' = cl_busy c1"
      "cl_nodes c' me = cl_nodes c1 me"
    proof -
      have "cl_unread c1 (me, m) = []" if "m \<in> set replicas" for m
      proof -
        have "(me, m) \<noteq> (me, t)" using that Cons.prems(2) by auto
        with eff(1) have "cl_unread c1 (me, m) = cl_unread c (me, m)"
          unfolding only_node_def by blast
        with that Cons.prems(4) show ?thesis by simp
      qed
      moreover have "cl_busy c1 = cl_busy c" using eff(1) by (simp add: only_node_def)
      ultimately show thesis
        using Cons.IH [OF loop] Cons.prems(2,3) that by auto
    qed
    have fin: "finite S" "t \<notin> S" using S(1) Cons.prems(2) finite_subset by auto
    have busy: "cl_busy c' = cl_busy c" using S(5) eff(1) by (simp add: only_node_def)
    have keep: "\<forall>k u m. holds c k u m \<longrightarrow> holds c' k u m" using S(4) eff(2) by blast
    have self: "cl_nodes c' me = cl_nodes c me"
      using S(6) eff(1) False by (auto simp: only_node_def)
    show ?thesis
    proof (cases x)
      case (Inl e)
      have "S \<subseteq> set (t # replicas) - {me}" using S(1) by auto
      with Inl S(2,3) busy keep self show ?thesis by (intro exI [of _ S]) simp
    next
      case (Inr u)
      have "insert t S \<subseteq> set (t # replicas) - {me}" using S(1) False by auto
      moreover have "acks' = acks + card (insert t S)" using S(2) Inr fin by simp
      moreover have "\<forall>m \<in> insert t S. holds c' key v m" using S(3,4) ack [OF Inr] by auto
      ultimately show ?thesis using busy keep self by blast
    qed
  qed
qed

lemma put_replicated_Inr:
  assumes "put_replicated h dbg env r key val ttl_ms w = (Inr v, w')"
  obtains acks0 acks w1 where
    "put_first dbg env r (replicas_of h r key) key val ttl_ms w = (Inr (v, acks0), w1)"
    "replicate_loop dbg env r key val v ttl_ms (replicas_of h r key) acks0 w1 = (acks, w')"
    "rp_write_quorum r \<le> acks"
  using assms
  by (auto simp: put_replicated_def Let_def split: if_splits prod.splits sum.splits)

abbreviation set_metrics :: "string \<Rightarrow> metrics \<Rightarrow> cluster \<Rightarrow> cluster" where
  "set_metrics me x \<equiv> upd_node me (\<lambda>nd. nd\<lparr>nd_metrics := x\<rparr>)"

lemma set_metrics_twice [simp]: "set_metrics me x (set_metrics me y c) = set_metrics me x c"
  by (simp add: upd_node_def option.map_comp comp_def)

lemma serve_put_Ack:
  assumes "serve_with h dbg it call me (Put key val ttl_ms) c = (Ack v nid, c')"
  obtains x y c1 where
    "put_replicated h dbg (cluster_env it call me) (ks_replicator (nd_server (node_of c me)))
       key val ttl_ms (set_metrics me x c) = (Inr v, c1)"
    "c' = set_metrics me y c1"
proof -
  define x where "x = (let m = count_op (nd_metrics (node_of c me));
      c0 = set_metrics me m c in (nd_metrics (node_of c0 me))
        \<lparr>mt_put_total := mt_put_total (nd_metrics (node_of c0 me)) + 1\<rparr>)"
  obtain res c1 where p: "put_replicated h dbg (cluster_env it call me)
      (ks_replicator (nd_server (node_of c me))) key val ttl_ms (set_metrics me x c) = (res, c1)"
    by fastforce
  with assms have "res = Inr v \<and> (\<exists>y. c' = set_metrics me y c1)"
    by (auto simp: serve_with_def x_def Let_def split: sum.splits)
  with p that show thesis by blast
qed

lemma serve_put_Error:
  assumes "serve_with h dbg it call me (Put key val ttl_ms) c = (Error e, c')"
  obtains x y c1 err where
    "put_replicated h dbg (cluster_env it call me) (ks_replicator (nd_server (node_of c me)))
       key val ttl_ms (set_metrics me x c) = (Inl err, c1)"
    "c' = set_metrics me y c1" "e = replication_display err"
proof -
  define x where "x = (let m = count_op (nd_metrics (node_of c me));
      c0 = set_metrics me m c in (nd_metrics (node_of c0 me))
        \<lparr>mt_put_total := mt_put_total (nd_metrics (node_of c0 me)) + 1\<rparr>)"
  obtain res c1 where p: "put_replicated h dbg (cluster_env it call me)
      (ks_replicator (nd_server (node_of c me))) key val ttl_ms (set_metrics me x c) = (res, c1)"
    by fastforce
  with assms have "\<exists>err. res = Inl err \<and> e = replication_display err \<and> (\<exists>y. c' = set_metrics me y c1)"
    by (auto simp: serve_with_def x_def Let_def split: sum.splits)
  with p that show thesis by blast
qed

lemma put_first_local:
  assumes "put_first dbg (cluster_env it call me) r replicas key val ttl_ms c = (Inr (v, acks), c')"
    and "me \<in> set replicas" and "rp_local_node_name r = me" and "cl_nodes c me \<noteq> None"
  shows "acks = 1" and "holds c' key v me" and "cl_busy c' = cl_busy c" and "cl_unread c' = cl_unread c"
    and "cl_nodes c' = (cl_nodes c)(me \<mapsto> (node_of c me)\<lparr>nd_storage :=
           snd (engine_put (cl_clock c) key val (map_option duration_from_millis ttl_ms)
                  (nd_storage (node_of c me)))\<rparr>)"
    and "cl_clock c' = cl_clock c" and "cl_fates c' = cl_fates c"
    and "v = se_version_counter (nd_storage (node_of c me)) + 1"
  using assms
  by (auto simp: put_first_def Let_def holds_def stored_upd_storage engine_put_def node_of_def)

section \<open>A write without quorum\<close>

lemma put_replicated_local_Inl:
  assumes "put_replicated h dbg (cluster_env it (cluster_call h dbg it fuel) me) r key val ttl_ms c = (Inl err, c')"
    and "rp_local_node_name r = me" and "me \<in> set (replicas_of h r key)"
    and "distinct (replicas_of h r key)" and "cl_nodes c me = Some nd"
    and "\<forall>m. (me, m) \<notin> cl_busy c \<and> cl_unread c (me, m) = []"
  shows "(\<exists>acks. err = QuorumNotMet acks (rp_write_quorum r) \<and> acks < rp_write_quorum r) \<and>
    stored c' me key = Some (the (se_store (snd (engine_put (cl_clock c) key val
      (map_option duration_from_millis ttl_ms) (nd_storage nd))) key))"
proof -
  let ?env = "cluster_env it (cluster_call h dbg it fuel) me" and ?rs = "replicas_of h r key"
  obtain v acks0 c1 where first: "put_first dbg ?env r ?rs key val ttl_ms c = (Inr (v, acks0), c1)"
    using assms(2,3) by (cases "put_first dbg ?env r ?rs key val ttl_ms c") (auto simp: put_first_def Let_def split_def)
  note local = put_first_local [OF first assms(3,2)]
  obtain acks c2 where loop: "replicate_loop dbg ?env r key val v ttl_ms ?rs acks0 c1 = (acks, c2)"
    by fastforce
  have "?rs \<noteq> []" using assms(3) by auto
  with assms(1) first loop have "c' = c2" "err = QuorumNotMet acks (rp_write_quorum r)"
    "acks < rp_write_quorum r"
    by (auto simp: put_replicated_def Let_def split: if_splits)
  moreover have "cl_nodes c2 me = cl_nodes c1 me"
    using replicate_loop_holds [OF loop assms(2,4)] local(3,4) assms(5,6) by auto
  ultimately show ?thesis
    using local(5) assms(5)
    by (simp add: stored_def node_of_def engine_put_def Let_def)
qed

section \<open>A quiet cluster\<close>

text \<open>No call pending, nothing unread, and a network that delivers everything in time.\<close>

definition quiet :: "cluster \<Rightarrow> bool" where
  "quiet c \<longleftrightarrow> cl_fates c = [] \<and> cl_busy c = {} \<and> (\<forall>p. cl_unread c p = [])"

text \<open>The same with the connections \<open>X\<close> held, by the calls that are being served.\<close>

definition calm :: "(string \<times> string) set \<Rightarrow> cluster \<Rightarrow> bool" where
  "calm X c \<longleftrightarrow> cl_fates c = [] \<and> cl_busy c = X \<and> (\<forall>p. cl_unread c p = [])"

lemma quiet_calm: "quiet c \<longleftrightarrow> calm {} c"
  by (simp add: quiet_def calm_def)

text \<open>Every node knows its own name and computes the same replicas for the key.\<close>

definition same_view :: "(string \<Rightarrow> u64) \<Rightarrow> cluster \<Rightarrow> string \<Rightarrow> string list \<Rightarrow> bool" where
  "same_view h c key ps \<longleftrightarrow>
     (\<forall>m nd. cl_nodes c m = Some nd \<longrightarrow>
        rp_local_node_name (ks_replicator (nd_server nd)) = m \<and>
        replicas_of h (ks_replicator (nd_server nd)) key = ps)"

definition same_servers :: "cluster \<Rightarrow> cluster \<Rightarrow> bool" where
  "same_servers c c' \<longleftrightarrow>
     cl_clock c' = cl_clock c \<and>
     (\<forall>m. map_option nd_server (cl_nodes c' m) = map_option nd_server (cl_nodes c m))"

definition wrote ::
  "(string \<times> string) set \<Rightarrow> string \<Rightarrow> value_entry \<Rightarrow> string set \<Rightarrow> cluster \<Rightarrow> cluster \<Rightarrow> bool" where
  "wrote X key e T c c' \<longleftrightarrow>
     calm X c' \<and> same_servers c c' \<and>
     (\<forall>m k. stored c' m k = (if m \<in> T \<and> k = key then newer (stored c m key) e else stored c m k))"

lemma same_servers_refl: "same_servers c c"
  by (simp add: same_servers_def)

lemma same_servers_trans: "same_servers c c1 \<Longrightarrow> same_servers c1 c2 \<Longrightarrow> same_servers c c2"
  by (simp add: same_servers_def)

lemma same_servers_set_metrics: "same_servers c (set_metrics me x c)"
  by (auto simp: same_servers_def option.map_comp comp_def)

lemma same_servers_node:
  "same_servers c c' \<Longrightarrow> cl_nodes c m = Some nd \<Longrightarrow>
   \<exists>nd'. cl_nodes c' m = Some nd' \<and> nd_server nd' = nd_server nd"
  by (metis map_option_eq_Some same_servers_def)

lemma same_servers_view: "same_servers c c' \<Longrightarrow> same_view h c key ps \<Longrightarrow> same_view h c' key ps"
proof -
  assume same: "same_servers c c'" and view: "same_view h c key ps"
  show ?thesis
    unfolding same_view_def
  proof (intro allI impI)
    fix m nd assume nd: "cl_nodes c' m = Some nd"
    have "map_option nd_server (cl_nodes c m) = Some (nd_server nd)"
      using same nd unfolding same_servers_def by (metis option.map(2))
    then obtain nd0 where "cl_nodes c m = Some nd0" "nd_server nd0 = nd_server nd" by auto
    with view show "rp_local_node_name (ks_replicator (nd_server nd)) = m \<and>
        replicas_of h (ks_replicator (nd_server nd)) key = ps"
      unfolding same_view_def by metis
  qed
qed

lemma newer_idem: "newer (newer x e) e = newer x e"
  by (cases x) auto

lemma wrote_trans: "wrote X key e T c c1 \<Longrightarrow> wrote X key e U c1 c2 \<Longrightarrow> wrote X key e (T \<union> U) c c2"
  using same_servers_trans [of c c1 c2] by (auto simp: wrote_def newer_idem)

lemma wrote_refl: "calm X c \<Longrightarrow> wrote X key e {} c c"
  by (simp add: wrote_def same_servers_refl)

definition replica_value :: "instant \<Rightarrow> u8 list \<Rightarrow> u64 \<Rightarrow> u64 option \<Rightarrow> value_entry" where
  "replica_value now val v ttl_ms =
     \<lparr>ve_data = val, ve_version = v, ve_created_at = now,
      ve_ttl = map_option duration_from_millis ttl_ms\<rparr>"

lemma put_with_version_newer:
  "se_store (snd (engine_put_with_version now key val v (map_option duration_from_millis ttl_ms) s)) =
     (se_store s)(key := newer (se_store s key) (replica_value now val v ttl_ms))"
  using deliver_store [of key s "(now, val, v, map_option duration_from_millis ttl_ms)"]
  by (simp add: replica_value_def)

lemma calm_locked: "calm X c \<Longrightarrow> next_fate c = (InTime, c)"
  by (simp add: calm_def next_fate_def)

lemmas quiet_locked = calm_locked [of "{}", folded quiet_calm]

lemma calm_replicate_call:
  assumes "calm X c" and "cl_nodes c t = Some nd" and "(me, t) \<notin> X"
  obtains c' where "cluster_call h dbg it (Suc n) me t (Replicate key val v ttl_ms src) c =
      (Inr (Ack v (ks_node_id (nd_server nd))), c')"
    and "wrote X key (replica_value (cl_clock c) val v ttl_ms) {t} c c'"
proof -
  obtain rp c2 where s: "serve_with h dbg it (cluster_call h dbg it n) t
      (Replicate key val v ttl_ms src) (locked me t c) = (rp, c2)" by fastforce
  have nd: "cl_nodes (locked me t c) t = Some nd" using assms(2) by simp
  note sr = serve_replicate [OF nd s]
  let ?c' = "unlocked me t [] c2"
  have fates: "cl_fates c2 = cl_fates (locked me t c)"
    using s nd by (auto simp: serve_with_def node_of_def Let_def split: prod.splits)
  have free: "(me, t) \<notin> cl_busy c" "cl_unread c (me, t) = []"
    using assms(1,3) by (simp_all add: calm_def)
  have "cluster_call h dbg it (Suc n) me t (Replicate key val v ttl_ms src) c = (Inr rp, ?c')"
    using assms calm_locked [OF assms(1)] by (simp add: remote_call_free [OF free] s Let_def)
  moreover have "wrote X key (replica_value (cl_clock c) val v ttl_ms) {t} c ?c'"
  proof -
    have held: "insert (me, t) X - {(me, t)} = X" using assms(3) by simp
    have "calm X ?c'"
      using assms(1) fates calm_locked [OF assms(1)] sr(2,3) held by (simp add: calm_def locked_def unlocked_def)
    moreover have "same_servers c ?c'"
      using assms(2) sr(4,5) by (simp add: same_servers_def)
    moreover have "stored ?c' m k = (if m \<in> {t} \<and> k = key
        then newer (stored c m key) (replica_value (cl_clock c) val v ttl_ms) else stored c m k)" for m k
      using assms(2) sr(5) by (simp add: stored_def put_with_version_newer)
    ultimately show ?thesis by (simp add: wrote_def)
  qed
  ultimately show thesis using that sr(1) by simp
qed

lemma calm_replicate_loop:
  assumes "calm X c" and "rp_local_node_name r = me" and "set replicas - {me} \<subseteq> rp_peers r"
    and "\<forall>m \<in> set replicas. cl_nodes c m \<noteq> None" and "\<forall>m \<in> set replicas. (me, m) \<notin> X"
  shows "\<exists>c'. replicate_loop dbg (cluster_env it (cluster_call h dbg it (Suc n)) me) r key val v ttl_ms
      replicas acks c = (acks + length (filter (\<lambda>m. m \<noteq> me) replicas), c') \<and>
    wrote X key (replica_value (cl_clock c) val v ttl_ms) (set replicas - {me}) c c'"
  using assms(1,3,4,5)
proof (induction replicas arbitrary: acks c)
  case Nil
  then show ?case by (simp add: wrote_refl)
next
  case (Cons t replicas)
  show ?case
  proof (cases "t = me")
    case True
    with Cons.IH [of c acks] Cons.prems assms(2) show ?thesis by auto
  next
    case False
    obtain nd where nd: "cl_nodes c t = Some nd" using Cons.prems(3) by auto
    have free: "(me, t) \<notin> X" using Cons.prems(4) by simp
    obtain c1 where c1: "cluster_call h dbg it (Suc n) me t (Replicate key val v ttl_ms (rp_node_id r)) c =
        (Inr (Ack v (ks_node_id (nd_server nd))), c1)"
      and w1: "wrote X key (replica_value (cl_clock c) val v ttl_ms) {t} c c1"
      using calm_replicate_call [OF Cons.prems(1) nd free] by blast
    have "cl_nodes c1 m \<noteq> None" if "m \<in> set replicas" for m
      using that Cons.prems(3) w1 same_servers_node [of c c1 m] by (force simp: wrote_def)
    then obtain c2 where c2: "replicate_loop dbg (cluster_env it (cluster_call h dbg it (Suc n)) me) r
        key val v ttl_ms replicas (acks + 1) c1 =
        (acks + 1 + length (filter (\<lambda>m. m \<noteq> me) replicas), c2)"
      and w2: "wrote X key (replica_value (cl_clock c1) val v ttl_ms) (set replicas - {me}) c1 c2"
      using Cons.IH [of c1 "acks + 1"] Cons.prems(2,4) w1 by (auto simp: wrote_def)
    have clock: "cl_clock c1 = cl_clock c" using w1 by (simp add: wrote_def same_servers_def)
    have "insert t (set replicas) - {me} = {t} \<union> (set replicas - {me})" using False by auto
    moreover have "(me, t) \<notin> cl_busy c" using Cons.prems(1) free by (simp add: calm_def)
    ultimately show ?thesis
      using False Cons.prems(2) c1 c2 assms(2) wrote_trans [OF w1 w2 [unfolded clock]]
      by (simp add: client_replicate_def del: cluster_call.simps)
  qed
qed

lemma serve_get_primary:
  assumes "cl_nodes c p = Some nd" and "rp_local_node_name (ks_replicator (nd_server nd)) = p"
    and "replicas_of h (ks_replicator (nd_server nd)) key = p # ps"
    and "stored c p key = Some e" and "\<not> is_expired (cl_clock c) e"
  shows "fst (serve_with h dbg it call p (Get key) c) = Value (Some (ve_data e)) 0"
proof -
  have "fst (engine_get (cl_clock c) key (nd_storage nd)) = Some e"
    using assms(1,4,5) by (simp add: fst_engine_get live_def stored_def)
  then obtain s where "engine_get (cl_clock c) key (nd_storage nd) = (Some e, s)"
    by (cases "engine_get (cl_clock c) key (nd_storage nd)") simp
  with assms(1-3) show ?thesis
    by (simp add: serve_with_def node_of_def Let_def get_replicated_def)
qed

lemma quiet_get:
  assumes "quiet c" and "same_view h c key (p # ps)" and "cl_nodes c g = Some nd"
    and "g = p \<or> p \<in> rp_peers (ks_replicator (nd_server nd))"
    and "stored c p key = Some e" and "\<not> is_expired (cl_clock c) e"
  shows "fst (cluster_serve h dbg it (Suc n) g (Get key) c) = Value (Some (ve_data e)) 0"
proof -
  from assms(5) obtain ndp where ndp: "cl_nodes c p = Some ndp"
    by (auto simp: stored_def split: option.splits)
  have view: "rp_local_node_name (ks_replicator (nd_server x)) = m"
    "replicas_of h (ks_replicator (nd_server x)) key = p # ps" if "cl_nodes c m = Some x" for m x
    using assms(2) that by (simp_all add: same_view_def)
  show ?thesis
  proof (cases "g = p")
    case True
    with serve_get_primary [OF ndp view(1) [OF ndp] view(2) [OF ndp] assms(5,6)] show ?thesis
      by (simp add: cluster_serve_def)
  next
    case False
    define c0 where "c0 = (let m = count_op (nd_metrics nd); c0 = set_metrics g m c
      in set_metrics g (nd_metrics (node_of c0 g)\<lparr>mt_get_total := mt_get_total (nd_metrics (node_of c0 g)) + 1\<rparr>) c0)"
    have c0: "cl_nodes c0 p = Some ndp" "cl_busy c0 = {}" "cl_unread c0 x = []" "cl_fates c0 = []"
      "stored c0 p key = Some e" "cl_clock c0 = cl_clock c" for x
      using False ndp assms(1,5) by (cases x; simp add: c0_def Let_def quiet_def)+
    then have quiet: "quiet c0" by (simp add: quiet_def)
    obtain rp c1 where s: "serve_with h dbg it (cluster_call h dbg it n) p (Get key) (locked g p c0) = (rp, c1)"
      by fastforce
    have "cl_nodes (locked g p c0) p = Some ndp" using c0(1) by simp
    from serve_get_primary [OF this view(1) [OF ndp] view(2) [OF ndp], of e] c0 assms(6) s
    have "rp = Value (Some (ve_data e)) 0" by (metis fst_conv locked_simps(4,5))
    then have call: "cluster_call h dbg it (Suc n) g p (Get key) c0 =
        (Inr (Value (Some (ve_data e)) 0), unlocked g p [] c1)"
      using c0 s quiet_locked [OF quiet] by (simp add: remote_call_free Let_def)
    have "(g, p) \<notin> cl_busy c0" using c0(2) by simp
    then show ?thesis
      using False call view [OF assms(3)] assms(3,4) c0_def
      by (simp add: cluster_serve_def serve_with_def get_replicated_def Let_def node_of_def
          client_get_def del: cluster_call.simps)
  qed
qed

lemma calm_put:
  assumes "calm X c" and "same_view h c key ps" and "me \<in> set ps" and "distinct ps"
    and "cl_nodes c me = Some nd" and "r = ks_replicator (nd_server nd)"
    and "set ps - {me} \<subseteq> rp_peers r" and "\<forall>m \<in> set ps. cl_nodes c m \<noteq> None"
    and "rp_write_quorum r \<le> length ps" and "v = se_version_counter (nd_storage nd) + 1"
    and "\<forall>m \<in> set ps. (me, m) \<notin> X"
  obtains c' where
    "cluster_serve h dbg it (Suc n) me (Put key val ttl_ms) c = (Ack v (ks_node_id (nd_server nd)), c')"
    "calm X c'" "same_servers c c'"
    "\<And>m. m \<in> set ps \<Longrightarrow> stored c' m key =
       (if m = me then Some (replica_value (cl_clock c) val v ttl_ms)
        else newer (stored c m key) (replica_value (cl_clock c) val v ttl_ms))"
    "\<And>m k. k \<noteq> key \<or> m \<notin> set ps \<Longrightarrow> stored c' m k = stored c m k"
proof -
  let ?e = "replica_value (cl_clock c) val v ttl_ms" and ?env = "cluster_env it (cluster_call h dbg it (Suc n)) me"
  have me: "rp_local_node_name r = me" and rs: "replicas_of h r key = ps"
    using assms(2,5,6) by (simp_all add: same_view_def)
  define c0 where "c0 = (let m = count_op (nd_metrics nd); c0 = set_metrics me m c
    in set_metrics me (nd_metrics (node_of c0 me)\<lparr>mt_put_total := mt_put_total (nd_metrics (node_of c0 me)) + 1\<rparr>) c0)"
  obtain ms where ms: "c0 = set_metrics me ms c" by (simp add: c0_def Let_def)
  define c1 where "c1 = upd_node me (\<lambda>nd. nd\<lparr>nd_storage :=
    snd (engine_put (cl_clock c) key val (map_option duration_from_millis ttl_ms) (nd_storage nd))\<rparr>) c0"
  have calm1: "calm X c1" using assms(1) by (simp add: calm_def c1_def ms)
  have same1: "same_servers c c1"
    by (auto simp: same_servers_def c1_def ms option.map_comp comp_def)
  have alive1: "\<forall>m \<in> set ps. cl_nodes c1 m \<noteq> None"
    using assms(8) by (simp add: c1_def ms)
  have first: "put_first dbg ?env r ps key val ttl_ms c0 = (Inr (v, 1), c1)"
    using assms(3,5,10) me
    by (simp add: put_first_def c1_def ms Let_def engine_put_def node_of_def upd_node_def)
  obtain c2 where loop: "replicate_loop dbg ?env r key val v ttl_ms ps 1 c1 =
      (1 + length (filter (\<lambda>m. m \<noteq> me) ps), c2)"
    and w: "wrote X key (replica_value (cl_clock c1) val v ttl_ms) (set ps - {me}) c1 c2"
    using calm_replicate_loop [OF calm1 me assms(7) alive1 assms(11)] by blast
  have "length (filter (\<lambda>m. m \<noteq> me) ps) + 1 = length ps"
  proof -
    have "length (filter (\<lambda>m. m = me) ps) = 1"
      using assms(3,4) by (simp add: distinct_length_filter)
    then show ?thesis using sum_length_filter_compl [of "\<lambda>m. m = me" ps] by simp
  qed
  then have acks: "rp_write_quorum r \<le> 1 + length (filter (\<lambda>m. m \<noteq> me) ps)"
    using assms(9) by simp
  have "ps \<noteq> []" using assms(3) by auto
  with first loop acks have put: "put_replicated h dbg ?env r key val ttl_ms c0 = (Inr v, c2)"
    by (simp add: put_replicated_def rs Let_def)
  then obtain ms' where served: "cluster_serve h dbg it (Suc n) me (Put key val ttl_ms) c =
      (Ack v (ks_node_id (nd_server nd)), set_metrics me ms' c2)"
    using assms(5,6)
    by (simp add: cluster_serve_def serve_with_def Let_def node_of_def c0_def del: cluster_call.simps)
  have calm2: "calm X (set_metrics me ms' c2)"
    using w by (simp add: wrote_def calm_def)
  have same2: "same_servers c (set_metrics me ms' c2)"
    using same1 w same_servers_set_metrics unfolding wrote_def by (meson same_servers_trans)
  have at_key: "stored (set_metrics me ms' c2) m key = (if m = me then Some ?e else newer (stored c m key) ?e)"
    if "m \<in> set ps" for m
    using w that same1 assms(5,10)
    by (simp add: wrote_def same_servers_def c1_def ms stored_upd_storage)
       (simp add: stored_def upd_node_def engine_put_def replica_value_def Let_def)
  have elsewhere: "stored (set_metrics me ms' c2) m k = stored c m k" if "k \<noteq> key \<or> m \<notin> set ps" for m k
    using w that assms(3,5)
    by (auto simp: wrote_def c1_def ms stored_upd_storage)
       (auto simp: stored_def upd_node_def engine_put_def Let_def)
  show thesis by (rule that [OF served calm2 same2 at_key elsewhere])
qed

lemma none_held: "\<forall>m \<in> A. (me, m) \<notin> {}"
  by simp

lemmas quiet_put = calm_put [where X = "{}", folded quiet_calm, OF _ _ _ _ _ _ _ _ _ _ none_held]

section \<open>Properties\<close>

text \<open>C1. Quorum: when a node that is a replica of the key acknowledges a PUT, at least
  \<open>write_quorum\<close> distinct replicas, itself among them, hold an entry of the key with a version at
  least the acknowledged one, whatever the network did to each of the calls: lost, answered late,
  refused. The connections of the node are idle when the request arrives.\<close>

theorem put_quorum_durable:
  assumes "cl_nodes c me = Some nd" and "ks_replicator (nd_server nd) = r"
    and "rp_local_node_name r = me" and "ring_inv (rp_ring r)" and "me \<in> set (replicas_of h r key)"
    and "\<forall>m. (me, m) \<notin> cl_busy c \<and> cl_unread c (me, m) = []"
    and "cluster_serve h dbg it fuel me (Put key val ttl_ms) c = (Ack v nid, c')"
  shows "rp_write_quorum r \<le> card {m \<in> set (replicas_of h r key). holds c' key v m} \<and>
    holds c' key v me"
proof -
  let ?call = "cluster_call h dbg it fuel" and ?rs = "replicas_of h r key"
  obtain x y c1 where put: "put_replicated h dbg (cluster_env it ?call me) r key val ttl_ms
      (set_metrics me x c) = (Inr v, c1)" and c': "c' = set_metrics me y c1"
    using serve_put_Ack assms(1,2,7) unfolding cluster_serve_def node_of_def by (metis option.sel)
  from put obtain acks0 acks c2 where
    first: "put_first dbg (cluster_env it ?call me) r ?rs key val ttl_ms (set_metrics me x c) =
      (Inr (v, acks0), c2)"
    and loop: "replicate_loop dbg (cluster_env it ?call me) r key val v ttl_ms ?rs acks0 c2 = (acks, c1)"
    and W: "rp_write_quorum r \<le> acks"
    by (rule put_replicated_Inr)
  have "cl_nodes (set_metrics me x c) me \<noteq> None" using assms(1) by simp
  note local = put_first_local [OF first assms(5,3) this]
  have "distinct ?rs"
    unfolding replicas_of_def ring_get_nodes_eq [OF assms(4)] by (simp add: distinct_preference)
  moreover have "\<forall>m. (me, m) \<notin> cl_busy c2" "\<forall>m \<in> set ?rs. cl_unread c2 (me, m) = []"
    using assms(6) by (simp_all add: local(3,4))
  ultimately obtain S where S: "S \<subseteq> set ?rs - {me}" "acks = acks0 + card S"
    "\<forall>m \<in> S. holds c1 key v m" "\<forall>k u m. holds c2 k u m \<longrightarrow> holds c1 k u m"
    using replicate_loop_holds [OF loop assms(3)] by blast
  have "insert me S \<subseteq> {m \<in> set ?rs. holds c1 key v m}"
    using S local(2) assms(5) by blast
  then have "card (insert me S) \<le> card {m \<in> set ?rs. holds c1 key v m}"
    by (intro card_mono) simp_all
  moreover have "card (insert me S) = acks"
    using S(1,2) local(1) finite_subset [OF S(1)] by (subst card_insert_disjoint) auto
  ultimately have "acks \<le> card {m \<in> set ?rs. holds c1 key v m}" by simp
  moreover have "holds c' = holds c1"
    by (simp add: c' holds_def fun_eq_iff)
  ultimately show ?thesis using W S(4) local(2) by auto
qed

lemma replica_value_fresh [simp]: "\<not> is_expired now (replica_value now val v ttl_ms)"
  by (auto simp: is_expired_def replica_value_def elapsed_def split: option.splits)

lemma quiet_put_get:
  assumes "quiet c" and "same_view h c key ps" and "me \<in> set ps" and "distinct ps"
    and "cl_nodes c me = Some nd" and "r = ks_replicator (nd_server nd)"
    and "set ps - {me} \<subseteq> rp_peers r" and "\<forall>m \<in> set ps. cl_nodes c m \<noteq> None"
    and "rp_write_quorum r \<le> length ps" and "v = se_version_counter (nd_storage nd) + 1"
    and fresh: "\<forall>m e. m \<in> set ps - {me} \<longrightarrow> stored c m key = Some e \<longrightarrow> ve_version e < v"
    and g: "cl_nodes c g = Some ndg" "g = hd ps \<or> hd ps \<in> rp_peers (ks_replicator (nd_server ndg))"
    and put: "cluster_serve h dbg it (Suc n) me (Put key val ttl_ms) c = (resp, c')"
  shows "resp = Ack v (ks_node_id (nd_server nd)) \<and>
    fst (cluster_serve h dbg it (Suc n) g (Get key) c') = Value (Some val) 0"
proof -
  let ?e = "replica_value (cl_clock c) val v ttl_ms"
  obtain c2 where p: "cluster_serve h dbg it (Suc n) me (Put key val ttl_ms) c =
      (Ack v (ks_node_id (nd_server nd)), c2)"
    and c2: "quiet c2" "same_servers c c2"
      "\<And>m. m \<in> set ps \<Longrightarrow> stored c2 m key = (if m = me then Some ?e else newer (stored c m key) ?e)"
      "\<And>m k. k \<noteq> key \<or> m \<notin> set ps \<Longrightarrow> stored c2 m k = stored c m k"
    by (rule quiet_put [OF assms(1-10), of dbg it n val ttl_ms]) (rule that)
  then have c': "c' = c2" "resp = Ack v (ks_node_id (nd_server nd))" using put by simp_all
  obtain q qs where ps: "ps = q # qs" using assms(3) by (cases ps) auto
  have "newer (stored c q key) ?e = Some ?e" if "q \<noteq> me"
    using fresh that by (cases "stored c q key") (auto simp: ps replica_value_def not_le)
  then have "stored c2 q key = Some ?e" using c2(3) [of q] by (simp add: ps)
  moreover have "cl_clock c2 = cl_clock c" using c2(2) by (simp add: same_servers_def)
  moreover obtain ndg' where "cl_nodes c2 g = Some ndg'" "nd_server ndg' = nd_server ndg"
    using same_servers_node [OF c2(2) g(1)] by blast
  ultimately have "fst (cluster_serve h dbg it (Suc n) g (Get key) c2) = Value (Some (ve_data ?e)) 0"
    using g(2) same_servers_view [OF c2(2) assms(2)] c2(1)
    by (intro quiet_get [where p = q and ps = qs and nd = ndg']) (simp_all add: ps)
  then show ?thesis by (simp add: c' replica_value_def)
qed


text \<open>C4. A write can be acknowledged and lost. In the same quiet cluster, if the first replica of
  the key is another node and already holds an unexpired entry whose version is at least the one
  the coordinator assigns, the PUT is still acknowledged: the replica discards the write as stale
  but answers \<open>Ack\<close>, which the coordinator counts. The next GET returns the old value.\<close>

theorem cluster_acknowledged_write_lost:
  assumes "quiet c" and "same_view h c key ps" and "me \<in> set ps" and "distinct ps"
    and "cl_nodes c me = Some nd" and "r = ks_replicator (nd_server nd)"
    and "set ps - {me} \<subseteq> rp_peers r" and "\<forall>m \<in> set ps. cl_nodes c m \<noteq> None"
    and "rp_write_quorum r \<le> length ps" and "v = se_version_counter (nd_storage nd) + 1"
    and old: "hd ps \<noteq> me" "stored c (hd ps) key = Some e" "v \<le> ve_version e"
      "\<not> is_expired (cl_clock c) e"
    and g: "cl_nodes c g = Some ndg" "g = hd ps \<or> hd ps \<in> rp_peers (ks_replicator (nd_server ndg))"
    and put: "cluster_serve h dbg it (Suc n) me (Put key val ttl_ms) c = (resp, c')"
  shows "resp = Ack v (ks_node_id (nd_server nd)) \<and>
    fst (cluster_serve h dbg it (Suc n) g (Get key) c') = Value (Some (ve_data e)) 0"
proof -
  let ?e = "replica_value (cl_clock c) val v ttl_ms"
  obtain c2 where p: "cluster_serve h dbg it (Suc n) me (Put key val ttl_ms) c =
      (Ack v (ks_node_id (nd_server nd)), c2)"
    and c2: "quiet c2" "same_servers c c2"
      "\<And>m. m \<in> set ps \<Longrightarrow> stored c2 m key = (if m = me then Some ?e else newer (stored c m key) ?e)"
      "\<And>m k. k \<noteq> key \<or> m \<notin> set ps \<Longrightarrow> stored c2 m k = stored c m k"
    by (rule quiet_put [OF assms(1-10), of dbg it n val ttl_ms]) (rule that)
  then have c': "c' = c2" "resp = Ack v (ks_node_id (nd_server nd))" using put by simp_all
  obtain q qs where ps: "ps = q # qs" using assms(3) by (cases ps) auto
  have "stored c2 q key = Some e" using c2(3) [of q] old by (simp add: ps replica_value_def)
  moreover have "cl_clock c2 = cl_clock c" using c2(2) by (simp add: same_servers_def)
  moreover obtain ndg' where "cl_nodes c2 g = Some ndg'" "nd_server ndg' = nd_server ndg"
    using same_servers_node [OF c2(2) g(1)] by blast
  ultimately have "fst (cluster_serve h dbg it (Suc n) g (Get key) c2) = Value (Some (ve_data e)) 0"
    using g(2) same_servers_view [OF c2(2) assms(2)] c2(1) old(4)
    by (intro quiet_get [where p = q and ps = qs and nd = ndg']) (simp_all add: ps)
  then show ?thesis by (simp add: c')
qed

definition missed :: "storage_engine \<Rightarrow> storage_engine" where
  "missed s = s\<lparr>se_stats := (se_stats s)\<lparr>st_gets := st_gets (se_stats s) + 1,
                                        st_misses := st_misses (se_stats s) + 1\<rparr>\<rparr>"

lemma engine_get_None: "se_store s key = None \<Longrightarrow> engine_get now key s = (None, missed s)"
  by (simp add: engine_get_def missed_def)

lemma missed_store [simp]: "se_store (missed s) = se_store s"
  by (simp add: missed_def)

definition get_count :: "cluster \<Rightarrow> string \<Rightarrow> u64" where
  "get_count c m = mt_get_total (nd_metrics (node_of c m))"

text \<open>A write refused for lack of quorum is not rolled back: when a node that is a replica of the
  key answers a PUT with an error, the error is \<open>QuorumNotMet\<close> with fewer acks than required, and
  the node's own store holds the refused value under a fresh version, so that later GETs may
  return it.\<close>

theorem refused_put_stays:
  assumes "cl_nodes c me = Some nd" and "ks_replicator (nd_server nd) = r"
    and "rp_local_node_name r = me" and "ring_inv (rp_ring r)" and "me \<in> set (replicas_of h r key)"
    and "\<forall>m. (me, m) \<notin> cl_busy c \<and> cl_unread c (me, m) = []"
    and "cluster_serve h dbg it fuel me (Put key val ttl_ms) c = (Error e, c')"
  shows "(\<exists>acks < rp_write_quorum r. e = replication_display (QuorumNotMet acks (rp_write_quorum r))) \<and>
    stored c' me key =
      Some (replica_value (cl_clock c) val (se_version_counter (nd_storage nd) + 1) ttl_ms)"
proof -
  obtain x y c1 err where put: "put_replicated h dbg (cluster_env it (cluster_call h dbg it fuel) me) r
      key val ttl_ms (set_metrics me x c) = (Inl err, c1)"
    and c': "c' = set_metrics me y c1" and e: "e = replication_display err"
    using serve_put_Error assms(1,2,7) unfolding cluster_serve_def node_of_def by (metis option.sel)
  have "distinct (replicas_of h r key)"
    unfolding replicas_of_def ring_get_nodes_eq [OF assms(4)] by (simp add: distinct_preference)
  moreover have "cl_nodes (set_metrics me x c) me = Some (nd\<lparr>nd_metrics := x\<rparr>)"
    using assms(1) by simp
  ultimately show ?thesis
    using put_replicated_local_Inl [OF put assms(3,5)] assms(6)
    by (auto simp: e c' engine_put_def Let_def replica_value_def)
qed

text \<open>A GET of an absent key comes back to the node that sent it. In a quiet cluster where two
  connected nodes are the replicas of a key neither holds, one client request to the first makes
  the second serve a GET, which makes the first serve a second GET; that one finds the connection
  held by the first call and waits for its deadline. The answer is right, but two more requests
  than the client sent are served and the first node ends by waiting for itself.\<close>

theorem cluster_absent_get_calls_back:
  assumes "quiet c" and "same_view h c key [a, b]" and "a \<noteq> b"
    and "cl_nodes c a = Some na" and "cl_nodes c b = Some nb"
    and "b \<in> rp_peers (ks_replicator (nd_server na))" and "a \<in> rp_peers (ks_replicator (nd_server nb))"
    and "stored c a key = None" and "stored c b key = None"
    and "cluster_serve h dbg it (Suc (Suc n)) a (Get key) c = (resp, c')"
  shows "resp = Value None 0 \<and> get_count c' a = get_count c a + 2 \<and> get_count c' b = get_count c b + 1"
proof -
  have ra: "rp_local_node_name (ks_replicator (nd_server na)) = a"
    "replicas_of h (ks_replicator (nd_server na)) key = [a, b]"
    and rb: "rp_local_node_name (ks_replicator (nd_server nb)) = b"
    "replicas_of h (ks_replicator (nd_server nb)) key = [a, b]"
    using assms(2,4,5) by (simp_all add: same_view_def)
  have sa: "se_store (nd_storage na) key = None" and sb: "se_store (nd_storage nb) key = None"
    using assms(4,5,8,9) by (simp_all add: stored_def)
  have "\<exists>c1. cluster_serve h dbg it (Suc (Suc n)) a (Get key) c = (Value None 0, c1) \<and>
      get_count c1 a = get_count c a + 2 \<and> get_count c1 b = get_count c b + 1"
    using assms(1,3-7) ra rb sa sb
    by (simp add: cluster_serve_def serve_with_def node_of_def Let_def get_replicated_def engine_get_None
        remote_call_def client_call_def client_get_def next_fate_def quiet_def get_count_def count_op_def
        upd_node_def)
  with assms(10) show ?thesis by auto
qed

section \<open>An example cluster\<close>

text \<open>Two nodes on a ring with one virtual node each.\<close>

definition pair_ring :: chring where
  "pair_ring = ring_add_node sum_hash ''b'' (ring_add_node sum_hash ''a'' (ring_new 1))"

definition pair_node :: "u32 \<Rightarrow> string \<Rightarrow> string \<Rightarrow> storage_engine \<Rightarrow> node" where
  "pair_node nid me peer s =
     \<lparr>nd_server = kv_server_new 0 nid (replicator_new nid me pair_ring {peer}),
      nd_storage = s, nd_metrics = metrics_new 0 nid\<rparr>"

definition pair_cluster :: "storage_engine \<Rightarrow> storage_engine \<Rightarrow> cluster" where
  "pair_cluster sa sb =
     \<lparr>cl_nodes = [''a'' \<mapsto> pair_node 1 ''a'' ''b'' sa, ''b'' \<mapsto> pair_node 2 ''b'' ''a'' sb],
      cl_unread = (\<lambda>_. []), cl_busy = {}, cl_fates = [], cl_clock = 0\<rparr>"

lemma pair_ring_points: "hr_ring pair_ring = [(765, ''a''), (766, ''b'')]" "hr_nodes pair_ring = [''a'', ''b'']"
  by (simp_all add: pair_ring_def ring_simps ring_new_def insert_points_def vnode_key_def sum_hash_def
      show_nat.simps)

lemma ring_inv_pair: "ring_inv pair_ring"
  by (simp add: pair_ring_def ring_inv_add ring_inv_new)

lemma pair_replicas: "replicas_of sum_hash (replicator_new nid me pair_ring ps) ''k'' = [''a'', ''b'']"
  by (simp add: replicas_of_def replicator_new_def ring_get_nodes_def pair_ring_points btm_range_from_def
      sum_hash_def)

lemma pair_same_view: "same_view sum_hash (pair_cluster sa sb) ''k'' [''a'', ''b'']"
  by (auto simp: same_view_def pair_cluster_def pair_node_def kv_server_new_def pair_replicas)
     (auto simp: replicator_new_def)

lemma pair_quiet: "quiet (pair_cluster sa sb)"
  by (simp add: quiet_def pair_cluster_def)

lemma pair_nodes [simp]:
  "cl_nodes (pair_cluster sa sb) ''a'' = Some (pair_node 1 ''a'' ''b'' sa)"
  "cl_nodes (pair_cluster sa sb) ''b'' = Some (pair_node 2 ''b'' ''a'' sb)"
  "nd_storage (pair_node nid me peer s) = s"
  "ks_replicator (nd_server (pair_node nid me peer s)) = replicator_new nid me pair_ring {peer}"
  "ks_node_id (nd_server (pair_node nid me peer s)) = nid"
  "cl_unread (pair_cluster sa sb) p = []" "cl_busy (pair_cluster sa sb) = {}"
  by (simp_all add: pair_cluster_def pair_node_def kv_server_new_def)

lemma pair_replicator [simp]:
  "rp_local_node_name (replicator_new nid me pair_ring ps) = me"
  "rp_peers (replicator_new nid me pair_ring ps) = ps"
  "rp_write_quorum (replicator_new nid me pair_ring ps) = 2"
  "rp_ring (replicator_new nid me pair_ring ps) = pair_ring"
  by (simp_all add: replicator_new_def)

definition unreplicated :: cluster where
  "unreplicated = (pair_cluster engine_new engine_new)\<lparr>cl_fates := [Broken ''reset'']\<rparr>"

theorem put_quorum_durable_witness:
  "2 \<le> card {m \<in> {''a'', ''b''}. holds (snd (cluster_serve sum_hash (\<lambda>_. []) (\<lambda>_. []) (Suc 0) ''a''
       (Put ''k'' [7] None) (pair_cluster engine_new engine_new))) ''k'' 1 m}"
proof -
  let ?c = "pair_cluster engine_new engine_new"
  obtain c' where c': "cluster_serve sum_hash (\<lambda>_. []) (\<lambda>_. []) (Suc 0) ''a'' (Put ''k'' [7] None) ?c =
      (Ack 1 1, c')"
  proof (rule quiet_put [OF pair_quiet pair_same_view _ _ pair_nodes(1) refl _ _ _ refl])
    fix c'
    assume "cluster_serve sum_hash (\<lambda>_. []) (\<lambda>_. []) (Suc 0) ''a'' (Put ''k'' [7] None) ?c =
      (Ack (se_version_counter (nd_storage (pair_node 1 ''a'' ''b'' engine_new)) + 1)
         (ks_node_id (nd_server (pair_node 1 ''a'' ''b'' engine_new))), c')"
    then show thesis using that by (simp only: pair_nodes engine_new_def storage_engine.simps) simp
  qed auto
  from put_quorum_durable [OF pair_nodes(1) pair_nodes(4) _ _ _ _ c']
  have "2 \<le> card {m \<in> {''a'', ''b''}. holds c' ''k'' 1 m}"
    by (simp add: pair_replicas ring_inv_pair del: cluster_call.simps)
  then show ?thesis by (simp only: c' snd_conv)
qed


theorem refused_put_stays_witness:
  "stored (snd (cluster_serve sum_hash (\<lambda>_. []) (\<lambda>_. []) (Suc 0) ''a'' (Put ''k'' [7] None) unreplicated)) ''a'' ''k'' =
     Some (replica_value 0 [7] 1 None)"
proof -
  have nodes: "cl_nodes unreplicated ''a'' = Some (pair_node 1 ''a'' ''b'' engine_new)"
    by (simp add: unreplicated_def)
  have idle: "\<forall>m. (''a'', m) \<notin> cl_busy unreplicated \<and> cl_unread unreplicated (''a'', m) = []"
    by (simp add: unreplicated_def)
  have clock: "cl_clock unreplicated = 0" by (simp add: unreplicated_def pair_cluster_def)
  have "fst (cluster_serve sum_hash (\<lambda>_. []) (\<lambda>_. []) (Suc 0) ''a'' (Put ''k'' [7] None) unreplicated) =
      Error (replication_display (QuorumNotMet 1 2))"
    by (simp add: cluster_serve_def serve_with_def node_of_def Let_def nodes put_replicated_def pair_replicas
        put_first_def engine_put_def client_replicate_def remote_call_def client_call_def next_fate_def
        idle)
       (simp add: unreplicated_def pair_cluster_def)
  then obtain c' where c': "cluster_serve sum_hash (\<lambda>_. []) (\<lambda>_. []) (Suc 0) ''a'' (Put ''k'' [7] None) unreplicated =
      (Error (replication_display (QuorumNotMet 1 2)), c')"
    by (metis prod.collapse)
  from refused_put_stays [OF nodes pair_nodes(4) _ _ _ idle c', THEN conjunct2]
  show ?thesis
    by (simp add: c' clock pair_replicas ring_inv_pair engine_new_def del: cluster_call.simps)
qed

definition old_entry :: value_entry where
  "old_entry = \<lparr>ve_data = [1], ve_version = 5, ve_created_at = 0, ve_ttl = None\<rparr>"

theorem cluster_acknowledged_write_lost_witness:
  "fst (cluster_serve sum_hash (\<lambda>_. []) (\<lambda>_. []) (Suc 0) ''b'' (Get ''k'')
     (snd (cluster_serve sum_hash (\<lambda>_. []) (\<lambda>_. []) (Suc 0) ''b'' (Put ''k'' [7] None)
        (pair_cluster (engine_new\<lparr>se_store := [''k'' \<mapsto> old_entry], se_version_counter := 5\<rparr>) engine_new)))) =
   Value (Some [1]) 0"
proof -
  let ?s = "engine_new\<lparr>se_store := [''k'' \<mapsto> old_entry], se_version_counter := 5\<rparr>"
  have "stored (pair_cluster ?s engine_new) (hd [''a'', ''b'']) ''k'' = Some old_entry"
    by (simp add: stored_def)
  then have "fst (cluster_serve sum_hash (\<lambda>_. []) (\<lambda>_. []) (Suc 0) ''b'' (Get ''k'')
     (snd (cluster_serve sum_hash (\<lambda>_. []) (\<lambda>_. []) (Suc 0) ''b'' (Put ''k'' [7] None)
        (pair_cluster ?s engine_new)))) = Value (Some (ve_data old_entry)) 0"
    by (intro cluster_acknowledged_write_lost [OF pair_quiet pair_same_view _ _ pair_nodes(2) refl _ _ _ refl _ _ _ _
          pair_nodes(2) _ surjective_pairing, THEN conjunct2])
       (auto simp: engine_new_def old_entry_def is_expired_def)
  then show ?thesis by (simp add: old_entry_def)
qed

theorem cluster_absent_get_calls_back_witness:
  "get_count (snd (cluster_serve sum_hash (\<lambda>_. []) (\<lambda>_. []) (Suc (Suc 0)) ''a'' (Get ''k'')
     (pair_cluster engine_new engine_new))) ''a'' = 2"
proof -
  have "get_count (pair_cluster engine_new engine_new) ''a'' = 0"
    by (simp add: get_count_def node_of_def pair_cluster_def pair_node_def metrics_new_def)
  moreover have "stored (pair_cluster engine_new engine_new) m ''k'' = None" for m
    by (simp add: stored_def pair_cluster_def pair_node_def engine_new_def)
  ultimately show ?thesis
    using cluster_absent_get_calls_back [OF pair_quiet pair_same_view _ pair_nodes(1,2) _ _ _ _ surjective_pairing]
    by simp
qed

end
