(* ===== verification/NodeMain.thy ===== *)
theory NodeMain
  imports Server
begin

text \<open>
  The start-up and the background loops of a node, \<open>tp-kv-distributed/src/main.rs\<close>, and the
  command line client, \<open>tp-kv-distributed/src/bin/kvc.rs\<close>.

  A socket address is an IP and a port; the parser of addresses is the parameter \<open>parse\<close>, the
  outcome of a connection attempt the parameter \<open>connect\<close> and that of a heartbeat \<open>beats\<close>.
  \<open>trim\<close> strips the ASCII white space.
\<close>

section \<open>Arguments\<close>

record 'ip socket_addr =
  sa_ip :: 'ip
  sa_port :: u16

record 'ip args =
  ar_node_id :: u32
  ar_listen :: "'ip socket_addr"
  ar_port :: "u16 option"
  ar_peers :: string
  ar_metrics_addr :: "'ip socket_addr option"
  ar_metrics_port :: u16
  ar_replication_factor :: usize
  ar_write_quorum :: usize

definition effective_listen :: "'ip args \<Rightarrow> 'ip socket_addr" where
  "effective_listen a =
     (case ar_port a of
        Some p \<Rightarrow> (let addr = ar_listen a in addr\<lparr>sa_port := p\<rparr>)
      | None \<Rightarrow> ar_listen a)"

text \<open>\<open>any_ip\<close> is the address \<open>0.0.0.0\<close>.\<close>

definition effective_metrics_addr :: "'ip \<Rightarrow> 'ip args \<Rightarrow> 'ip socket_addr" where
  "effective_metrics_addr any_ip a =
     (case ar_metrics_addr a of
        Some addr \<Rightarrow> addr
      | None \<Rightarrow> \<lparr>sa_ip = any_ip, sa_port = ar_metrics_port a\<rparr>)"

definition is_space :: "char \<Rightarrow> bool" where
  "is_space c \<longleftrightarrow> c \<in> {CHR 0x09, CHR 0x0A, CHR 0x0B, CHR 0x0C, CHR 0x0D, CHR 0x20}"

definition trim :: "string \<Rightarrow> string" where
  "trim s = rev (dropWhile is_space (rev (dropWhile is_space s)))"

definition parsed_peers :: "(string \<Rightarrow> 'ip socket_addr option) \<Rightarrow> 'ip args \<Rightarrow> 'ip socket_addr list" where
  "parsed_peers parse a =
     List.map_filter parse (filter (\<lambda>s. s \<noteq> []) (map trim (split_on CHR '','' (ar_peers a))))"

section \<open>Start-up\<close>

definition node_name :: "u32 \<Rightarrow> string" where
  "node_name nid = ''node-'' @ show_word nid"

definition peer_id :: "u32 \<Rightarrow> nat \<Rightarrow> u32" where
  "peer_id node_id i = (if of_nat i + 1 \<ge> node_id then of_nat i + 2 else of_nat i + 1)"

definition peer_node_names :: "u32 \<Rightarrow> 'a list \<Rightarrow> string list" where
  "peer_node_names node_id addrs = map (\<lambda>i. node_name (peer_id node_id i)) [0..<length addrs]"

definition build_ring :: "(string \<Rightarrow> u64) \<Rightarrow> u32 \<Rightarrow> 'a list \<Rightarrow> chring" where
  "build_ring h node_id addrs =
     (let ring = ring_add_node h (node_name node_id) (ring_new 150)
      in foldl (\<lambda>ring n. ring_add_node h n ring) ring (peer_node_names node_id addrs))"

definition connect_peers ::
  "('ip socket_addr \<Rightarrow> 'c option) \<Rightarrow> (string \<times> 'ip socket_addr) list \<Rightarrow> string \<rightharpoonup> 'c" where
  "connect_peers connect pairs =
     foldl (\<lambda>peers_map (name, addr). case connect addr of
              Some c \<Rightarrow> peers_map(name \<mapsto> c) | None \<Rightarrow> peers_map) Map.empty pairs"

text \<open>The state built before the loops start.\<close>

definition node_start ::
  "(string \<Rightarrow> u64) \<Rightarrow> (string \<Rightarrow> 'ip socket_addr option) \<Rightarrow> ('ip socket_addr \<Rightarrow> 'c option) \<Rightarrow> instant \<Rightarrow>
   'ip args \<Rightarrow> kv_server \<times> storage_engine \<times> metrics \<times> (string \<rightharpoonup> 'c)" where
  "node_start h parse connect now a =
     (let storage = engine_new;
          m = metrics_new now (ar_node_id a);
          local_node_name = node_name (ar_node_id a);
          peer_addrs = parsed_peers parse a;
          ring = build_ring h (ar_node_id a) peer_addrs;
          names = peer_node_names (ar_node_id a) peer_addrs;
          peers = connect_peers connect (zip names peer_addrs);
          m = m\<lparr>mt_peers_total := of_nat (length peer_addrs)\<rparr>;
          m = m\<lparr>mt_peers_alive := of_nat (card (dom peers))\<rparr>;
          r = replicator_new (ar_node_id a) local_node_name ring (dom peers);
          r = r\<lparr>rp_replication_factor := ar_replication_factor a,
                rp_write_quorum := ar_write_quorum a\<rparr>
      in (kv_server_new now (ar_node_id a) r, storage, m, peers))"

section \<open>Background loops\<close>

text \<open>One tick of the heartbeat loop: the clients, and the number alive.\<close>

fun heartbeat_peers ::
  "('ip socket_addr \<Rightarrow> 'c option) \<Rightarrow> ('c \<Rightarrow> bool) \<Rightarrow> (string \<times> 'ip socket_addr) list \<Rightarrow>
   (string \<rightharpoonup> 'c) \<Rightarrow> u64 \<Rightarrow> (string \<rightharpoonup> 'c) \<times> u64" where
  "heartbeat_peers connect beats [] peers alive = (peers, alive)"
| "heartbeat_peers connect beats ((name, addr) # pairs) peers alive =
     (let (already, alive) =
            (case peers name of
               Some c \<Rightarrow> if beats c then (True, alive + 1) else (False, alive)
             | None \<Rightarrow> (False, alive));
          (peers, alive) =
            (if \<not> already then
               (case connect addr of
                  Some c \<Rightarrow> if beats c then (peers(name \<mapsto> c), alive + 1) else (peers, alive)
                | None \<Rightarrow> (peers, alive))
             else (peers, alive))
      in heartbeat_peers connect beats pairs peers alive)"

definition heartbeat_tick ::
  "('ip socket_addr \<Rightarrow> 'c option) \<Rightarrow> ('c \<Rightarrow> bool) \<Rightarrow> (string \<times> 'ip socket_addr) list \<Rightarrow>
   (string \<rightharpoonup> 'c) \<times> metrics \<Rightarrow> (string \<rightharpoonup> 'c) \<times> metrics" where
  "heartbeat_tick connect beats pairs st =
     (let (peers, m) = st; (peers, alive) = heartbeat_peers connect beats pairs peers 0
      in (peers, m\<lparr>mt_peers_alive := alive\<rparr>))"

definition purge_tick ::
  "(string \<Rightarrow> instant) \<Rightarrow> (string \<times> value_entry) list \<Rightarrow> storage_engine \<Rightarrow> storage_engine" where
  "purge_tick clk items storage = (let (purged, storage) = engine_purge_expired clk items storage in storage)"

section \<open>The command line client\<close>

datatype cmd =
    CmdGet string
  | CmdPut string string "u64 option"
  | CmdDelete string
  | CmdScan string u32

text \<open>What the command prints and its exit status; \<open>Inl\<close> is the error \<open>main\<close> returns. \<open>lossy\<close> is
  \<open>String::from_utf8_lossy\<close> and \<open>bytes\<close> the bytes of a string.\<close>

definition kvc_run ::
  "(response \<Rightarrow> string) \<Rightarrow> (u8 list \<Rightarrow> string) \<Rightarrow> (string \<Rightarrow> u8 list) \<Rightarrow>
   (request \<Rightarrow> 'w \<Rightarrow> (client_error + response) \<times> 'w) \<Rightarrow> cmd \<Rightarrow> 'w \<Rightarrow>
   (client_error + string list \<times> nat) \<times> 'w" where
  "kvc_run dbg lossy bytes call cmd w =
     (case cmd of
        CmdGet key \<Rightarrow>
          (let (r, w) = client_get dbg call key w in
           (case r of Inl e \<Rightarrow> Inl e
            | Inr (Some v) \<Rightarrow> Inr ([lossy v], 0)
            | Inr None \<Rightarrow> Inr ([''(absent)''], 2), w))
      | CmdPut key val ttl_ms \<Rightarrow>
          (let (r, w) = client_put_with_ttl dbg call key (bytes val) ttl_ms w in
           (case r of Inl e \<Rightarrow> Inl e
            | Inr version \<Rightarrow> Inr ([''OK version='' @ show_word version], 0), w))
      | CmdDelete key \<Rightarrow>
          (let (r, w) = client_delete dbg call key w in
           (case r of Inl e \<Rightarrow> Inl e
            | Inr existed \<Rightarrow> Inr ([''deleted='' @ (if existed then ''true'' else ''false'')], 0), w))
      | CmdScan pfx limit \<Rightarrow>
          (let (r, w) = client_scan dbg call pfx limit w in
           (case r of Inl e \<Rightarrow> Inl e
            | Inr items \<Rightarrow> Inr (map (\<lambda>(k, v). k @ [CHR 0x09] @ lossy v) items, 0), w)))"

section \<open>Lemmas\<close>

lemma unat_u32_lt: "unat (x :: u32) < 2 ^ 32"
proof -
  have "unat x < 2 ^ LENGTH(32)" by (rule unsigned_less)
  then show ?thesis by simp
qed

lemma unat_peer_id:
  assumes "i + 2 < 2 ^ 32"
  shows "unat (peer_id node_id i) = (if i + 1 \<ge> unat node_id then i + 2 else i + 1)"
proof -
  have "unat (of_nat i + 1 :: u32) = i + 1" "unat (of_nat i + 2 :: u32) = i + 2"
    using assms by (simp_all add: unat_word_ariths unat_of_nat)
  then show ?thesis by (simp add: peer_id_def word_le_nat_alt)
qed

lemma node_name_inject [simp]: "node_name a = node_name b \<longleftrightarrow> a = b"
  by (simp add: node_name_def word_unat_eq_iff)

lemma peer_ids_range:
  assumes "k + 2 \<le> 2 ^ 32" and "1 \<le> unat node_id" and "unat node_id \<le> k + 1"
  shows "insert (unat node_id) ((\<lambda>i. unat (peer_id node_id i)) ` {0..<k}) = {1..k + 1}"
proof -
  have "(\<lambda>i. unat (peer_id node_id i)) ` {0..<k} =
      (\<lambda>i. if i + 1 \<ge> unat node_id then i + 2 else i + 1) ` {0..<k}"
    using assms(1) by (intro image_cong) (auto simp: unat_peer_id)
  also have "insert (unat node_id) \<dots> = {1..k + 1}"
  proof (rule set_eqI)
    fix x
    show "x \<in> insert (unat node_id) ((\<lambda>i. if i + 1 \<ge> unat node_id then i + 2 else i + 1) ` {0..<k}) \<longleftrightarrow>
        x \<in> {1..k + 1}"
    proof (cases "x > unat node_id")
      case True
      then have "x = (\<lambda>i. if i + 1 \<ge> unat node_id then i + 2 else i + 1) (x - 2)"
        using assms(2) by auto
      with True assms(2,3) show ?thesis
        by (auto simp: image_iff split: if_splits intro!: bexI [of _ "x - 2"])
    next
      case False
      with assms(2,3) show ?thesis
        by (auto simp: image_iff split: if_splits intro!: bexI [of _ "x - 1"])
    qed
  qed
  finally show ?thesis .
qed

lemma hr_nodes_add: "set (hr_nodes (ring_add_node h n s)) = insert n (set (hr_nodes s))"
  by (auto simp: ring_simps list_ex_iff)

lemma hr_nodes_adds:
  "set (hr_nodes (foldl (\<lambda>ring n. ring_add_node h n ring) s ns)) = set (hr_nodes s) \<union> set ns"
  by (induction ns arbitrary: s) (auto simp: hr_nodes_add)

lemma build_ring_run:
  "build_ring h node_id addrs =
     ring_run h 150 (map AddNode (node_name node_id # peer_node_names node_id addrs))"
proof -
  have "foldl (\<lambda>ring n. ring_add_node h n ring) s ns = foldl (ring_exec h) s (map AddNode ns)" for s ns
    by (induction ns arbitrary: s) auto
  then show ?thesis by (simp add: build_ring_def ring_run_def Let_def)
qed

lemma set_node_names:
  assumes "length addrs + 2 \<le> 2 ^ 32" and "1 \<le> unat node_id" and "unat node_id \<le> length addrs + 1"
  shows "set (node_name node_id # peer_node_names node_id addrs) =
    (\<lambda>i. ''node-'' @ show_nat i) ` {1..length addrs + 1}"
  using peer_ids_range [OF assms]
  by (simp add: peer_node_names_def node_name_def image_image flip: image_insert)
     (metis image_image image_insert)

text \<open>A peer answers when its client in the pool or a new connection does.\<close>

definition answers_beat ::
  "('ip socket_addr \<Rightarrow> 'c option) \<Rightarrow> ('c \<Rightarrow> bool) \<Rightarrow> (string \<rightharpoonup> 'c) \<Rightarrow> string \<times> 'ip socket_addr \<Rightarrow> bool" where
  "answers_beat connect beats peers = (\<lambda>(name, addr).
     (\<exists>c. peers name = Some c \<and> beats c) \<or> (\<exists>c. connect addr = Some c \<and> beats c))"

lemma heartbeat_step:
  obtains peers1 where
    "heartbeat_peers connect beats ((name, addr) # pairs) peers alive =
       heartbeat_peers connect beats pairs peers1
         (if answers_beat connect beats peers (name, addr) then alive + 1 else alive)"
    "\<And>m. m \<noteq> name \<Longrightarrow> peers1 m = peers m"
    "answers_beat connect beats peers (name, addr) \<Longrightarrow> \<exists>c. peers1 name = Some c \<and> beats c"
proof -
  let ?q = "\<lambda>x. case x of Some c \<Rightarrow> beats c | None \<Rightarrow> False"
  consider "?q (peers name)" | "\<not> ?q (peers name)" "?q (connect addr)"
    | "\<not> ?q (peers name)" "\<not> ?q (connect addr)" by blast
  then show thesis
  proof cases
    case 1
    then obtain c where "peers name = Some c" "beats c" by (auto split: option.splits)
    then show ?thesis by (intro that [of peers]) (simp_all add: answers_beat_def)
  next
    case 2
    then obtain c where "connect addr = Some c" "beats c" by (auto split: option.splits)
    with 2(1) show ?thesis
      by (intro that [of "peers(name \<mapsto> c)"])
         (simp_all add: answers_beat_def split: option.splits)
  next
    case 3
    then have "\<not> answers_beat connect beats peers (name, addr)"
      by (auto simp: answers_beat_def)
    with 3 show ?thesis
      by (intro that [of peers]) (simp_all split: option.splits)
  qed
qed

lemma heartbeat_peers_counts:
  assumes "distinct (map fst pairs)" and "unat alive + length pairs < 2 ^ 64"
    and "heartbeat_peers connect beats pairs peers alive = (peers', alive')"
  shows "unat alive' = unat alive + length (filter (answers_beat connect beats peers) pairs) \<and>
    (\<forall>p \<in> set pairs. answers_beat connect beats peers p \<longrightarrow> (\<exists>c. peers' (fst p) = Some c \<and> beats c)) \<and>
    (\<forall>m. m \<notin> fst ` set pairs \<longrightarrow> peers' m = peers m)"
  using assms
proof (induction pairs arbitrary: peers alive)
  case (Cons p pairs)
  obtain name addr where p: "p = (name, addr)" by fastforce
  let ?ans = "answers_beat connect beats peers"
  let ?alive = "if ?ans (name, addr) then alive + 1 else alive"
  obtain peers1 where step: "heartbeat_peers connect beats pairs peers1 ?alive = (peers', alive')"
    and other: "\<And>m. m \<noteq> name \<Longrightarrow> peers1 m = peers m"
    and mine: "?ans (name, addr) \<Longrightarrow> \<exists>c. peers1 name = Some c \<and> beats c"
    using heartbeat_step [of connect beats name addr pairs peers alive] Cons.prems(3) p by metis
  have notin: "name \<notin> fst ` set pairs" and dist: "distinct (map fst pairs)"
    using Cons.prems(1) by (simp_all add: p)
  have same: "answers_beat connect beats peers1 q = ?ans q" if "q \<in> set pairs" for q
  proof -
    have "fst q \<noteq> name" using that notin by auto
    then show ?thesis using other by (simp add: answers_beat_def split_def)
  qed
  have "alive \<noteq> u64_max" using Cons.prems(2) by auto
  then have alive: "unat ?alive = unat alive + (if ?ans (name, addr) then 1 else 0)"
    by (simp add: unat_Suc_u64)
  then have "unat ?alive + length pairs < 2 ^ 64" using Cons.prems(2) by simp
  note IH = Cons.IH [OF dist this step]
  have "filter (answers_beat connect beats peers1) pairs = filter ?ans pairs"
    by (rule filter_cong [OF refl]) (rule same)
  moreover have "peers' name = peers1 name" using IH notin by blast
  ultimately show ?case
    using IH alive same mine other notin by (auto simp: p)
qed simp

section \<open>Properties\<close>

lemma member_ring:
  assumes "k + 2 \<le> 2 ^ 32" and "collision_free h 150 ((\<lambda>i. ''node-'' @ show_nat i) ` {1..k + 1})"
    and "length addrs = k" "1 \<le> unat n" "unat n \<le> k + 1"
  shows "set (hr_nodes (build_ring h n addrs)) = (\<lambda>i. ''node-'' @ show_nat i) ` {1..k + 1}"
    and "ring_exact h 150 ((\<lambda>i. ''node-'' @ show_nat i) ` {1..k + 1}) (build_ring h n addrs)"
proof -
  let ?ns = "(\<lambda>i. ''node-'' @ show_nat i) ` {1..k + 1}"
  have ns: "set (node_name n # peer_node_names n addrs) = ?ns"
    using set_node_names [of addrs n] assms by simp
  then show "set (hr_nodes (build_ring h n addrs)) = ?ns"
    by (simp add: build_ring_def Let_def hr_nodes_adds hr_nodes_add ring_new_def)
  have "ring_op_node ` set (map AddNode (node_name n # peer_node_names n addrs)) = ?ns"
    using ns by (simp add: image_image)
  then show "ring_exact h 150 ?ns (build_ring h n addrs)"
    using ring_run_exact [of h 150 "map AddNode (node_name n # peer_node_names n addrs)"] assms(2)
    unfolding build_ring_run by simp
qed

lemma member_replicas:
  assumes "ring_exact h 150 ns s" "set (hr_nodes s) = ns"
  shows "ring_get_nodes h key cnt s = take cnt (preference h key s)" "set (preference h key s) = ns"
    "length (preference h key s) = card ns"
  using assms ring_exact_owners [OF assms(1)] distinct_card [OF distinct_preference [of h key s]]
  by (simp_all add: ring_exact_def ring_get_nodes_eq set_preference)

lemma member_preference:
  assumes "ring_exact h 150 ns s" "set (hr_nodes s) = ns" "ring_exact h 150 ns s'" "set (hr_nodes s') = ns"
  shows "preference h key s = preference h key s'"
  using ring_exact_agree [OF assms(1,3)] assms(2,4) by (simp add: preference_def)

lemma connect_peers_all:
  assumes "\<forall>p \<in> set pairs. connect (snd p) \<noteq> None"
  shows "dom (connect_peers connect pairs) = fst ` set pairs"
proof -
  have "dom (foldl (\<lambda>peers_map (name, addr). case connect addr of
              Some c \<Rightarrow> peers_map(name \<mapsto> c) | None \<Rightarrow> peers_map) m pairs) = dom m \<union> fst ` set pairs" for m
    using assms by (induction pairs arbitrary: m) (auto split: option.splits)
  then show ?thesis by (simp add: connect_peers_def)
qed

text \<open>The members of a cluster name each other alike: nodes with identifiers in \<open>1..k+1\<close>, each
  given \<open>k\<close> peers, build rings over the same \<open>k + 1\<close> names, each node under its own and never
  under a peer's; so any two of them route every key to the same replicas, when the hash puts no
  two nodes at one position.\<close>

theorem members_build_same_ring:
  assumes "length addrs = k" and "length addrs' = k" and "k + 2 \<le> 2 ^ 32"
    and "1 \<le> unat n" "unat n \<le> k + 1" and "1 \<le> unat n'" "unat n' \<le> k + 1"
    and "collision_free h 150 ((\<lambda>i. ''node-'' @ show_nat i) ` {1..k + 1})"
  shows "set (hr_nodes (build_ring h n addrs)) = (\<lambda>i. ''node-'' @ show_nat i) ` {1..k + 1} \<and>
    distinct (node_name n # peer_node_names n addrs) \<and>
    ring_get_nodes h key cnt (build_ring h n addrs) = ring_get_nodes h key cnt (build_ring h n' addrs')"
proof -
  let ?ns = "(\<lambda>i. ''node-'' @ show_nat i) ` {1..k + 1}"
  note a = member_ring [OF assms(3,8,1,4,5)] and b = member_ring [OF assms(3,8,2,6,7)]
  have "hr_ring (build_ring h n addrs) = hr_ring (build_ring h n' addrs')"
    using a b by (intro ring_exact_agree) auto
  then have "ring_get_nodes h key cnt (build_ring h n addrs) = ring_get_nodes h key cnt (build_ring h n' addrs')"
    using a(2) b(2) by (simp add: ring_exact_def ring_get_nodes_eq preference_def)
  moreover have "distinct (node_name n # peer_node_names n addrs)"
  proof (rule card_distinct)
    have "inj_on (\<lambda>i. ''node-'' @ show_nat i) {1..k + 1}" by (simp add: inj_on_def)
    then have "card ?ns = k + 1" by (simp add: card_image)
    then show "card (set (node_name n # peer_node_names n addrs)) = length (node_name n # peer_node_names n addrs)"
      using set_node_names [of addrs n] assms(1,3,4,5) by (simp add: peer_node_names_def)
  qed
  ultimately show ?thesis using a(1) by blast
qed

definition id_hash :: "string \<Rightarrow> u64" where
  "id_hash s = of_nat (of_char (s ! 5))"

theorem members_build_same_ring_witness:
  "ring_get_nodes id_hash ''user:42'' 2 (build_ring id_hash 1 [()]) =
   ring_get_nodes id_hash ''user:42'' 2 (build_ring id_hash 2 [()])"
proof -
  have names: "(\<lambda>i. ''node-'' @ show_nat i) ` {1..1 + 1} = {''node-1'', ''node-2''}"
  proof -
    have "{1..1 + 1} = {1, 2 :: nat}" by auto
    then show ?thesis by (simp add: show_nat.simps)
  qed
  have "collision_free id_hash 150 ((\<lambda>i. ''node-'' @ show_nat i) ` {1..1 + 1})"
    unfolding names by (auto simp: collision_free_def id_hash_def vnode_key_def)
  then show ?thesis
    by (intro members_build_same_ring [where k = 1, THEN conjunct2, THEN conjunct2]) simp_all
qed

text \<open>The heartbeat: with distinct peer names, \<open>peers_alive\<close> after a tick is the number of peers
  that answered, through the client in the pool or a new connection; each of them then has a
  client that answers in the pool, and the other clients are left alone.\<close>

theorem heartbeat_counts_alive:
  assumes "distinct (map fst pairs)" and "length pairs < 2 ^ 64"
    and "heartbeat_tick connect beats pairs (peers, m) = (peers', m')"
  shows "unat (mt_peers_alive m') = length (filter (answers_beat connect beats peers) pairs) \<and>
    (\<forall>p \<in> set pairs. answers_beat connect beats peers p \<longrightarrow> (\<exists>c. peers' (fst p) = Some c \<and> beats c)) \<and>
    (\<forall>k. k \<notin> fst ` set pairs \<longrightarrow> peers' k = peers k)"
proof -
  obtain q alive where q: "heartbeat_peers connect beats pairs peers 0 = (q, alive)" by fastforce
  then show ?thesis
    using heartbeat_peers_counts [OF assms(1) _ q] assms(2,3) by (auto simp: heartbeat_tick_def)
qed

theorem heartbeat_counts_alive_witness:
  "unat (mt_peers_alive (snd (heartbeat_tick (\<lambda>a. if sa_port a = 2 then Some True else None) (\<lambda>c. c)
     [(''node-2'', \<lparr>sa_ip = (), sa_port = 1\<rparr>), (''node-3'', \<lparr>sa_ip = (), sa_port = 2\<rparr>)]
     ([''node-2'' \<mapsto> False], metrics_new 0 1)))) = 1"
  by (subst heartbeat_counts_alive [OF _ _ surjective_pairing, THEN conjunct1])
     (simp_all add: answers_beat_def ex_bool_eq)

end
