(* ===== verification/Startup.thy ===== *)
theory Startup
  imports Cluster NodeMain
begin

text \<open>
  The whole store from start-up to a read: \<open>started_cluster\<close> is the world of \<open>Cluster\<close> in which
  every member is what \<open>node_start\<close> of \<open>NodeMain\<close> (\<open>tp-kv-distributed/src/main.rs\<close>) builds from
  its arguments.
\<close>

section \<open>A cluster as it starts\<close>

text \<open>The world of \<open>Cluster\<close> just after every member has run \<open>node_start\<close> of \<open>NodeMain\<close> with its own
  arguments, each under its own name, all connected and idle.\<close>

definition started_node ::
  "(string \<Rightarrow> u64) \<Rightarrow> (string \<Rightarrow> 'ip socket_addr option) \<Rightarrow> ('ip socket_addr \<Rightarrow> 'c option) \<Rightarrow> instant \<Rightarrow> 'ip args \<Rightarrow> node" where
  "started_node h parse connect now a =
     (let (server, storage, m, peers) = node_start h parse connect now a
      in \<lparr>nd_server = server, nd_storage = storage, nd_metrics = m\<rparr>)"

definition started_cluster ::
  "(string \<Rightarrow> u64) \<Rightarrow> (string \<Rightarrow> 'ip socket_addr option) \<Rightarrow> ('ip socket_addr \<Rightarrow> 'c option) \<Rightarrow> instant \<Rightarrow> 'ip args list \<Rightarrow> cluster" where
  "started_cluster h parse connect now members =
     \<lparr>cl_nodes = map_of (map (\<lambda>a. (node_name (ar_node_id a), started_node h parse connect now a)) members),
      cl_unread = (\<lambda>_. []), cl_busy = {}, cl_fates = [], cl_clock = now\<rparr>"

text \<open>Members numbered from 1, each told of all the others, reachable, with the same factor and a
  quorum the factor can meet.\<close>

definition well_configured ::
  "(string \<Rightarrow> 'ip socket_addr option) \<Rightarrow> ('ip socket_addr \<Rightarrow> 'c option) \<Rightarrow> nat \<Rightarrow> nat \<Rightarrow> nat \<Rightarrow> 'ip args list \<Rightarrow> bool" where
  "well_configured parse connect k factor needed members \<longleftrightarrow>
     map (unat \<circ> ar_node_id) members = [1..<k + 2] \<and> k + 2 \<le> 2 ^ 32 \<and>
     1 \<le> factor \<and> factor \<le> k + 1 \<and> needed \<le> factor \<and>
     (\<forall>a \<in> set members. length (parsed_peers parse a) = k \<and>
        (\<forall>addr \<in> set (parsed_peers parse a). connect addr \<noteq> None) \<and>
        ar_replication_factor a = factor \<and> ar_write_quorum a = needed)"

abbreviation member_names :: "nat \<Rightarrow> string set" where
  "member_names k \<equiv> (\<lambda>i. ''node-'' @ show_nat i) ` {1..k + 1}"

lemma started_node_simps:
  "nd_storage (started_node h parse connect now a) = engine_new"
  "ks_node_id (nd_server (started_node h parse connect now a)) = ar_node_id a"
  "rp_local_node_name (ks_replicator (nd_server (started_node h parse connect now a))) = node_name (ar_node_id a)"
  "rp_ring (ks_replicator (nd_server (started_node h parse connect now a))) =
     build_ring h (ar_node_id a) (parsed_peers parse a)"
  "rp_replication_factor (ks_replicator (nd_server (started_node h parse connect now a))) = ar_replication_factor a"
  "rp_write_quorum (ks_replicator (nd_server (started_node h parse connect now a))) = ar_write_quorum a"
  "rp_peers (ks_replicator (nd_server (started_node h parse connect now a))) =
     dom (connect_peers connect (zip (peer_node_names (ar_node_id a) (parsed_peers parse a)) (parsed_peers parse a)))"
  by (simp_all add: started_node_def node_start_def Let_def kv_server_new_def replicator_new_def)

lemma well_configured_member:
  assumes "well_configured parse connect k factor needed members" "a \<in> set members"
  shows "1 \<le> unat (ar_node_id a)" "unat (ar_node_id a) \<le> k + 1"
proof -
  have "unat (ar_node_id a) \<in> set (map (unat \<circ> ar_node_id) members)" using assms(2) by auto
  then have "unat (ar_node_id a) \<in> set [1..<k + 2]"
    using assms(1) by (simp only: well_configured_def)
  then show "1 \<le> unat (ar_node_id a)" "unat (ar_node_id a) \<le> k + 1" by auto
qed

lemma started_node_peers:
  assumes "well_configured parse connect k factor needed members" "a \<in> set members"
  shows "member_names k - {node_name (ar_node_id a)} \<subseteq>
    rp_peers (ks_replicator (nd_server (started_node h parse connect now a)))"
proof -
  let ?addrs = "parsed_peers parse a"
  have len: "length ?addrs = k" and reach: "\<forall>addr \<in> set ?addrs. connect addr \<noteq> None" and k: "k + 2 \<le> 2 ^ 32"
    using assms by (auto simp: well_configured_def)
  have "\<forall>p \<in> set (zip (peer_node_names (ar_node_id a) ?addrs) ?addrs). connect (snd p) \<noteq> None"
    using reach by (auto dest: set_zip_rightD)
  then have "dom (connect_peers connect (zip (peer_node_names (ar_node_id a) ?addrs) ?addrs)) =
      fst ` set (zip (peer_node_names (ar_node_id a) ?addrs) ?addrs)"
    by (rule connect_peers_all)
  also have "\<dots> = set (map fst (zip (peer_node_names (ar_node_id a) ?addrs) ?addrs))" by simp
  also have "\<dots> = set (peer_node_names (ar_node_id a) ?addrs)"
    by (subst map_fst_zip) (simp_all add: peer_node_names_def)
  finally show ?thesis
    using set_node_names [of ?addrs "ar_node_id a"] well_configured_member [OF assms] len k
    unfolding started_node_simps by auto
qed

lemma started_cluster_nodes:
  assumes "well_configured parse connect k factor needed members"
  shows "cl_nodes (started_cluster h parse connect now members) m = Some nd \<longleftrightarrow>
      (\<exists>a \<in> set members. m = node_name (ar_node_id a) \<and> nd = started_node h parse connect now a)"
    and "dom (cl_nodes (started_cluster h parse connect now members)) = member_names k"
proof -
  let ?entries = "map (\<lambda>a. (node_name (ar_node_id a), started_node h parse connect now a)) members"
  have ids: "map (unat \<circ> ar_node_id) members = [1..<k + 2]" using assms by (simp add: well_configured_def)
  have names: "map fst ?entries = map (\<lambda>i. ''node-'' @ show_nat i) [1..<k + 2]"
    unfolding ids [symmetric] by (simp add: node_name_def)
  have names_distinct: "distinct (map (\<lambda>i. ''node-'' @ show_nat i) ns)" if "distinct ns" for ns
    using that by (simp add: distinct_map inj_on_def)
  have distinct: "distinct (map fst ?entries)"
    unfolding names by (rule names_distinct [OF distinct_upt])
  have nodes: "cl_nodes (started_cluster h parse connect now members) = map_of ?entries"
    by (simp add: started_cluster_def)
  show "cl_nodes (started_cluster h parse connect now members) m = Some nd \<longleftrightarrow>
      (\<exists>a \<in> set members. m = node_name (ar_node_id a) \<and> nd = started_node h parse connect now a)"
    unfolding nodes by (subst map_of_eq_Some_iff [OF distinct]) auto
  have "dom (map_of ?entries) = set (map fst ?entries)" by (simp only: dom_map_of_conv_image_fst set_map)
  also have "\<dots> = member_names k" unfolding names by force
  finally show "dom (cl_nodes (started_cluster h parse connect now members)) = member_names k"
    unfolding nodes .
qed

lemma started_replicas:
  fixes key :: string and now :: instant and h :: "string \<Rightarrow> u64"
    and connect :: "'ip socket_addr \<Rightarrow> 'c option" and parse :: "string \<Rightarrow> 'ip socket_addr option"
    and a b :: "'ip args"
  assumes conf: "well_configured parse connect k factor needed members"
    and free: "collision_free h 150 (member_names k)" and a: "a \<in> set members" and b: "b \<in> set members"
  defines "ps \<equiv> replicas_of h (ks_replicator (nd_server (started_node h parse connect now a))) key"
  shows "length ps = factor" "distinct ps" "set ps \<subseteq> member_names k"
    "replicas_of h (ks_replicator (nd_server (started_node h parse connect now b))) key = ps"
proof -
  let ?r = "\<lambda>a. ks_replicator (nd_server (started_node h parse connect now a))"
  have k: "k + 2 \<le> 2 ^ 32" and factor: "factor \<le> k + 1" using conf by (simp_all add: well_configured_def)
  have ring: "set (hr_nodes (rp_ring (?r x))) = member_names k" "ring_exact h 150 (member_names k) (rp_ring (?r x))"
    "rp_replication_factor (?r x) = factor" if "x \<in> set members" for x
    using member_ring [OF k free _ well_configured_member [OF conf that], of "parsed_peers parse x"] conf that
    by (auto simp: started_node_simps well_configured_def)
  have reps: "replicas_of h (?r x) key = take factor (preference h key (rp_ring (?r x)))" if "x \<in> set members" for x
    unfolding replicas_of_def ring(3) [OF that] by (rule member_replicas(1) [OF ring(2,1) [OF that]])
  show "replicas_of h (?r b) key = ps"
    unfolding ps_def reps [OF a] reps [OF b]
    using member_preference [OF ring(2,1) [OF a] ring(2,1) [OF b]] by simp
  have "card (member_names k) = k + 1" by (simp add: card_image inj_on_def)
  then show "length ps = factor" "distinct ps" "set ps \<subseteq> member_names k"
    unfolding ps_def reps [OF a]
    using member_replicas(2,3) [OF ring(2,1) [OF a], of key] factor
      distinct_preference [of h key "rp_ring (?r a)"] set_take_subset [of factor "preference h key (rp_ring (?r a))"]
    by simp_all
qed

section \<open>The store from start-up to a read\<close>



text \<open>Two members that parse and reach each other.\<close>

definition member_args :: "u32 \<Rightarrow> string \<Rightarrow> unit args" where
  "member_args nid peers =
     \<lparr>ar_node_id = nid, ar_listen = \<lparr>sa_ip = (), sa_port = 7001\<rparr>, ar_port = None, ar_peers = peers,
      ar_metrics_addr = None, ar_metrics_port = 9091, ar_replication_factor = 2, ar_write_quorum = 2\<rparr>"

definition parse_any :: "string \<Rightarrow> unit socket_addr option" where
  "parse_any s = Some \<lparr>sa_ip = (), sa_port = 7002\<rparr>"


end
