(* ===== verification/Deadlines.thy ===== *)
theory Deadlines
  imports Cluster
begin

text \<open>
  The cluster with its deadlines. In \<open>Cluster\<close> what happens to a remote call is an input; here it
  follows from the clock: every hop of a message takes \<open>lat\<close>, a caller gives up when its deadline
  has passed, and one that waits for a held connection waits until then. The deadlines are those of
  \<open>tp-kv-distributed/src/replication.rs\<close> (\<open>op_timeout\<close>) and \<open>client.rs\<close>.

  A caller that gives up goes on at its deadline, and the response of the abandoned request stays
  unread on the connection. What the callee still does after that moment is run before the caller
  goes on. A forwarded PUT waits for the connection without a deadline; it is only ever sent for a
  client, by a node that serves no other call, so it finds the connection free.
\<close>

section \<open>Calls that end in time\<close>

text \<open>How long the caller waits: \<open>timeout(op_timeout, ..)\<close> around the limit of the client's method.\<close>

fun patience :: "duration \<Rightarrow> request \<Rightarrow> duration" where
  "patience op_timeout (Get key) = min op_timeout 2000000000"
| "patience op_timeout (Put key val ttl_ms) = 2000000000"
| "patience op_timeout (Delete key) = min op_timeout 2000000000"
| "patience op_timeout (Scan pfx limit) = 2000000000"
| "patience op_timeout (Replicate key val version ttl_ms source_node_id) = min op_timeout 500000000"
| "patience op_timeout (Heartbeat node_id timestamp_ms) = 500000000"

definition op_timeout_of :: "cluster \<Rightarrow> string \<Rightarrow> duration" where
  "op_timeout_of c me = rp_op_timeout (ks_replicator (nd_server (node_of c me)))"

text \<open>A response that an abandoned request has left on the connection is read at once.\<close>

definition timed_remote ::
  "duration \<Rightarrow> (string \<Rightarrow> request \<Rightarrow> cluster \<Rightarrow> response \<times> cluster) \<Rightarrow> rpc" where
  "timed_remote lat serve me target req c =
     (let start = cl_clock c; deadline = start + patience (op_timeout_of c me) req in
      if (me, target) \<in> cl_busy c then (Inl (TimedOut ''rpc timeout''), c\<lparr>cl_clock := deadline\<rparr>)
      else if cl_nodes c target = None then
        (Inl (Wire ''connection refused''), c\<lparr>cl_clock := start + lat\<rparr>)
      else
        (let stale = cl_unread c (me, target);
             (resp, c) = serve target req
               (c\<lparr>cl_busy := insert (me, target) (cl_busy c), cl_clock := start + lat\<rparr>);
             unread = stale @ [resp];
             c = c\<lparr>cl_busy := cl_busy c - {(me, target)}\<rparr>;
             answered = cl_clock c + lat
         in if stale \<noteq> [] then
              (Inr (hd unread), c\<lparr>cl_unread := (cl_unread c)((me, target) := tl unread), cl_clock := start\<rparr>)
            else if answered \<le> deadline then
              (Inr resp, c\<lparr>cl_unread := (cl_unread c)((me, target) := []), cl_clock := answered\<rparr>)
            else
              (Inl (TimedOut ''rpc timeout''),
               c\<lparr>cl_unread := (cl_unread c)((me, target) := unread), cl_clock := deadline\<rparr>)))"

text \<open>The deadline is part of the call, so a task always finishes, with an error when it is late.\<close>

definition timed_env ::
  "((string \<rightharpoonup> value_entry) \<Rightarrow> (string \<times> value_entry) list) \<Rightarrow> rpc \<Rightarrow> string \<Rightarrow> cluster server_env" where
  "timed_env it call me = (cluster_env it call me)\<lparr>ne_deadline := (\<lambda>_ _ _ c. (Finishes, c))\<rparr>"

definition timed_serve_with ::
  "(string \<Rightarrow> u64) \<Rightarrow> (response \<Rightarrow> string) \<Rightarrow>
   ((string \<rightharpoonup> value_entry) \<Rightarrow> (string \<times> value_entry) list) \<Rightarrow> rpc \<Rightarrow>
   string \<Rightarrow> request \<Rightarrow> cluster \<Rightarrow> response \<times> cluster" where
  "timed_serve_with h dbg it call me req c =
     handle_request h dbg (timed_env it call me) (nd_server (node_of c me)) req c"

primrec timed_call ::
  "duration \<Rightarrow> (string \<Rightarrow> u64) \<Rightarrow> (response \<Rightarrow> string) \<Rightarrow>
   ((string \<rightharpoonup> value_entry) \<Rightarrow> (string \<times> value_entry) list) \<Rightarrow> nat \<Rightarrow> rpc" where
  "timed_call lat h dbg it 0 = (\<lambda>me target req c. (Inl (TimedOut ''rpc timeout''), c))"
| "timed_call lat h dbg it (Suc fuel) =
     timed_remote lat (timed_serve_with h dbg it (timed_call lat h dbg it fuel))"

definition timed_serve ::
  "duration \<Rightarrow> (string \<Rightarrow> u64) \<Rightarrow> (response \<Rightarrow> string) \<Rightarrow>
   ((string \<rightharpoonup> value_entry) \<Rightarrow> (string \<times> value_entry) list) \<Rightarrow> nat \<Rightarrow>
   string \<Rightarrow> request \<Rightarrow> cluster \<Rightarrow> response \<times> cluster" where
  "timed_serve lat h dbg it fuel = timed_serve_with h dbg it (timed_call lat h dbg it fuel)"

lemma timed_env_simps [simp]:
  "ne_storage (timed_env it call me) c = nd_storage (node_of c me)"
  "ne_set_storage (timed_env it call me) s = upd_node me (\<lambda>nd. nd\<lparr>nd_storage := s\<rparr>)"
  "ne_now (timed_env it call me) = cl_clock"
  "ne_deadline (timed_env it call me) d target req c = (Finishes, c)"
  "ne_call (timed_env it call me) = call me"
  "upd_metrics (timed_env it call me) g c =
     upd_node me (\<lambda>nd. nd\<lparr>nd_metrics := g (nd_metrics (node_of c me))\<rparr>) c"
  "sn_iter (timed_env it call me) c = it (se_store (nd_storage (node_of c me)))"
  by (simp_all add: timed_env_def cluster_env_def upd_metrics_def)

section \<open>What a request leaves as it was\<close>

text \<open>Same servers and same stored values; \<open>settled\<close>: the connections and the clock as well.\<close>

definition unwritten :: "cluster \<Rightarrow> cluster \<Rightarrow> bool" where
  "unwritten c c' \<longleftrightarrow> stored c' = stored c \<and>
     (\<forall>m. map_option nd_server (cl_nodes c' m) = map_option nd_server (cl_nodes c m))"

definition settled :: "cluster \<Rightarrow> cluster \<Rightarrow> bool" where
  "settled c c' \<longleftrightarrow> unwritten c c' \<and> cl_busy c' = cl_busy c \<and> cl_unread c' = cl_unread c \<and> cl_clock c' = cl_clock c"

lemma unwritten_refl [simp]: "unwritten c c"
  by (simp add: unwritten_def)

lemma unwritten_trans: "unwritten c c1 \<Longrightarrow> unwritten c1 c2 \<Longrightarrow> unwritten c c2"
  by (simp add: unwritten_def)

lemma settled_trans: "settled c c1 \<Longrightarrow> settled c1 c2 \<Longrightarrow> settled c c2"
  using unwritten_trans [of c c1 c2] by (simp add: settled_def)

lemma unwritten_frame [simp]:
  "unwritten c (c'\<lparr>cl_busy := x\<rparr>) = unwritten c c'" "unwritten c (c'\<lparr>cl_clock := t\<rparr>) = unwritten c c'"
  "unwritten c (c'\<lparr>cl_unread := u\<rparr>) = unwritten c c'"
  "unwritten (c\<lparr>cl_busy := x\<rparr>) c' = unwritten c c'" "unwritten (c\<lparr>cl_clock := t\<rparr>) c' = unwritten c c'"
  by (simp_all add: unwritten_def stored_def fun_eq_iff)

lemma settled_metrics: "settled c (set_metrics me x c)"
  by (auto simp: settled_def unwritten_def fun_eq_iff option.map_comp comp_def)

section \<open>A pair of replicas\<close>

text \<open>The node \<open>x\<close> with the key's replicas \<open>a\<close> and \<open>b\<close>, connected to \<open>y\<close>, with the configuration of
  \<open>Replicator::new\<close>.\<close>

definition replica_member :: "(string \<Rightarrow> u64) \<Rightarrow> string \<Rightarrow> string \<Rightarrow> string \<Rightarrow> string \<Rightarrow> string set \<Rightarrow> cluster \<Rightarrow> bool" where
  "replica_member h key a b x ys c \<longleftrightarrow>
     (\<exists>srv. map_option nd_server (cl_nodes c x) = Some srv \<and>
        rp_local_node_name (ks_replicator srv) = x \<and> replicas_of h (ks_replicator srv) key = [a, b] \<and>
        ys \<subseteq> rp_peers (ks_replicator srv) \<and> rp_op_timeout (ks_replicator srv) = duration_from_millis 500 \<and>
        rp_write_quorum (ks_replicator srv) = 2)"

lemma replica_member_unwritten: "unwritten c c' \<Longrightarrow> replica_member h key a b x ys c \<Longrightarrow> replica_member h key a b x ys c'"
  by (simp add: replica_member_def unwritten_def)

lemma replica_memberE:
  assumes "replica_member h key a b x ys c"
  obtains nd where "cl_nodes c x = Some nd" "rp_local_node_name (ks_replicator (nd_server nd)) = x"
    "replicas_of h (ks_replicator (nd_server nd)) key = [a, b]" "ys \<subseteq> rp_peers (ks_replicator (nd_server nd))"
    "rp_op_timeout (ks_replicator (nd_server nd)) = 500000000" "rp_write_quorum (ks_replicator (nd_server nd)) = 2"
  using assms by (auto simp: replica_member_def duration_from_millis_def)

section \<open>Reading an absent key\<close>

lemma get_loop_local_miss:
  assumes "cl_nodes w x = Some nd" and "rp_local_node_name r = x" and "stored w x key = None"
  obtains w' where "\<And>rs. get_loop dbg (timed_env it call x) r key (x # rs) w =
      get_loop dbg (timed_env it call x) r key rs w'"
    and "settled w w'"
proof -
  have "se_store (nd_storage nd) key = None" using assms by (simp add: stored_def)
  then have "get_loop dbg (timed_env it call x) r key (x # rs) w = get_loop dbg (timed_env it call x) r key rs
      (upd_node x (\<lambda>nd. nd\<lparr>nd_storage := missed (nd_storage (node_of w x))\<rparr>) w)" for rs
    using assms by (simp add: engine_get_None node_of_def Let_def)
  moreover have "settled w (upd_node x (\<lambda>nd. nd\<lparr>nd_storage := missed (nd_storage (node_of w x))\<rparr>) w)"
    using assms(1) by (auto simp: settled_def unwritten_def stored_def upd_node_def node_of_def fun_eq_iff)
  ultimately show thesis using that by blast
qed

lemma get_loop_remote_miss:
  assumes "y \<noteq> rp_local_node_name r" and "y \<in> rp_peers r"
    and "call x y (Get key) w = (res, w')" and "isl res \<or> res = Inr (Value None ver)"
  shows "get_loop dbg (timed_env it call x) r key (y # rs) w = get_loop dbg (timed_env it call x) r key rs w'"
  using assms by (cases res) (auto simp: client_get_def)

lemma timed_get_none:
  assumes member: "replica_member h key a b x ys c"
    and loop: "\<And>r c0. settled c c0 \<Longrightarrow> rp_local_node_name r = x \<Longrightarrow> ys \<subseteq> rp_peers r \<Longrightarrow>
      \<exists>c1. get_loop dbg (timed_env it call x) r key [a, b] c0 = (None, c1) \<and> P c1"
  shows "\<exists>c1. timed_serve_with h dbg it call x (Get key) c = (Value None 0, c1) \<and> P c1"
proof -
  obtain nd where nd: "cl_nodes c x = Some nd" "rp_local_node_name (ks_replicator (nd_server nd)) = x"
      "replicas_of h (ks_replicator (nd_server nd)) key = [a, b]" "ys \<subseteq> rp_peers (ks_replicator (nd_server nd))"
    using member by (rule replica_memberE)
  define c0 where "c0 = (let m = count_op (nd_metrics nd); c0 = set_metrics x m c
    in set_metrics x (nd_metrics (node_of c0 x)\<lparr>mt_get_total := mt_get_total (nd_metrics (node_of c0 x)) + 1\<rparr>) c0)"
  have "settled c c0" unfolding c0_def Let_def by (metis set_metrics_twice settled_metrics)
  from loop [OF this nd(2,4)] obtain c1 where
    "get_loop dbg (timed_env it call x) (ks_replicator (nd_server nd)) key [a, b] c0 = (None, c1)" "P c1" by blast
  then have "timed_serve_with h dbg it call x (Get key) c = (Value None 0, c1)"
    using nd by (simp add: timed_serve_with_def node_of_def Let_def get_replicated_def c0_def del: get_loop.simps)
  with \<open>P c1\<close> show ?thesis by blast
qed

text \<open>A remote call that is answered late, on a free connection.\<close>

lemma timed_remote_late:
  assumes "(x, y) \<notin> cl_busy c" and "cl_unread c (x, y) = []" and "cl_nodes c y \<noteq> None"
    and "serve y req (c\<lparr>cl_busy := insert (x, y) (cl_busy c), cl_clock := cl_clock c + lat\<rparr>) = (resp, c1)"
    and "cl_unread c1 (x, y) = []"
    and "cl_clock c + patience (op_timeout_of c x) req < cl_clock c1 + lat"
  shows "timed_remote lat serve x y req c =
    (Inl (TimedOut ''rpc timeout''), c1\<lparr>cl_busy := cl_busy c1 - {(x, y)},
       cl_unread := (cl_unread c1)((x, y) := [resp]), cl_clock := cl_clock c + patience (op_timeout_of c x) req\<rparr>)"
  using assms by (simp add: timed_remote_def Let_def)


lemma op_timeout_member: "replica_member h key a b x ys c \<Longrightarrow> op_timeout_of c x = 500000000"
  by (auto simp: op_timeout_of_def node_of_def elim!: replica_memberE)

lemma settledD:
  assumes "settled c c'"
  shows "unwritten c c'" "cl_busy c' = cl_busy c" "cl_unread c' = cl_unread c" "cl_clock c' = cl_clock c"
    "stored c' = stored c" "replica_member h key a b x ys c \<Longrightarrow> replica_member h key a b x ys c'"
  using assms replica_member_unwritten [of c c'] by (auto simp: settled_def unwritten_def)

text \<open>The call comes back to the node that waits for it: it misses, waits for its own connection, and
  gives up.\<close>

lemma get_behind_itself:
  assumes m: "replica_member h key a b a {b} c" and "a \<noteq> b" and "(a, b) \<in> cl_busy c" and "stored c a key = None"
  shows "\<exists>c1. timed_serve_with h dbg it (timed_call lat h dbg it (Suc n)) a (Get key) c = (Value None 0, c1) \<and>
    unwritten c c1 \<and> cl_busy c1 = cl_busy c \<and> cl_unread c1 = cl_unread c \<and>
    cl_clock c1 = cl_clock c + 500000000"
proof (rule timed_get_none [OF m])
  fix r :: replicator and c0
  let ?env = "timed_env it (timed_call lat h dbg it (Suc n)) a"
  assume c0: "settled c c0" and r: "rp_local_node_name r = a" "{b} \<subseteq> rp_peers r"
  note s0 = settledD [OF c0]
  obtain nd where "cl_nodes c0 a = Some nd" using s0(6) [OF m] by (rule replica_memberE)
  moreover have "stored c0 a key = None" using s0(5) assms(4) by simp
  ultimately obtain c1 where c1: "\<And>rs. get_loop dbg ?env r key (a # rs) c0 = get_loop dbg ?env r key rs c1"
      "settled c0 c1"
    using get_loop_local_miss [OF _ r(1)] by metis
  note s1 = settledD [OF settled_trans [OF c0 c1(2)]]
  have "timed_call lat h dbg it (Suc n) a b (Get key) c1 =
      (Inl (TimedOut ''rpc timeout''), c1\<lparr>cl_clock := cl_clock c + 500000000\<rparr>)"
    using assms(3) s1(2,4) op_timeout_member [OF s1(6) [OF m]] by (simp add: timed_remote_def)
  then have "get_loop dbg ?env r key (a # [b]) c0 = get_loop dbg ?env r key [] (c1\<lparr>cl_clock := cl_clock c + 500000000\<rparr>)"
    unfolding c1(1) by (rule get_loop_remote_miss [rotated 2]) (use assms(2) r in auto)
  with s1 show "\<exists>c1. get_loop dbg ?env r key [a, b] c0 = (None, c1) \<and> unwritten c c1 \<and>
      cl_busy c1 = cl_busy c \<and> cl_unread c1 = cl_unread c \<and> cl_clock c1 = cl_clock c + 500000000"
    by simp
qed

text \<open>The other replica asks back, is answered too late, and answers itself too late.\<close>

lemma get_asks_back:
  assumes ma: "replica_member h key a b a {b} c" and mb: "replica_member h key a b b {a} c"
    and "a \<noteq> b" and "(a, b) \<in> cl_busy c" and "(b, a) \<notin> cl_busy c" and "cl_unread c (b, a) = []"
    and "stored c a key = None" "stored c b key = None" and "0 < lat"
  shows "\<exists>c1. timed_serve_with h dbg it (timed_call lat h dbg it (Suc (Suc n))) b (Get key) c = (Value None 0, c1) \<and>
    unwritten c c1 \<and> cl_busy c1 = cl_busy c \<and> cl_unread c1 = (cl_unread c)((b, a) := [Value None 0]) \<and>
    cl_clock c1 = cl_clock c + 500000000"
proof (rule timed_get_none [OF mb])
  fix r :: replicator and c0
  let ?env = "timed_env it (timed_call lat h dbg it (Suc (Suc n))) b"
  assume c0: "settled c c0" and r: "rp_local_node_name r = b" "{a} \<subseteq> rp_peers r"
  note s0 = settledD [OF c0]
  let ?c = "c0\<lparr>cl_busy := insert (b, a) (cl_busy c0), cl_clock := cl_clock c0 + lat\<rparr>"
  have sc: "stored ?c = stored c" "unwritten c ?c"
    using s0 by (simp_all add: stored_def fun_eq_iff)
  have "replica_member h key a b a {b} ?c" "(a, b) \<in> cl_busy ?c" "stored ?c a key = None"
    using replica_member_unwritten [OF sc(2) ma] sc(1) assms(4,7) s0(2) by simp_all
  with get_behind_itself [of h key a b ?c dbg it lat n] assms(3) obtain c1 where
    c1: "timed_serve_with h dbg it (timed_call lat h dbg it (Suc n)) a (Get key) ?c = (Value None 0, c1)"
      "unwritten ?c c1" "cl_busy c1 = insert (b, a) (cl_busy c)" "cl_unread c1 = cl_unread c"
      "cl_clock c1 = cl_clock c + lat + 500000000"
    using s0 by auto
  let ?c1 = "c1\<lparr>cl_busy := cl_busy c1 - {(b, a)}, cl_unread := (cl_unread c1)((b, a) := [Value None 0]),
      cl_clock := cl_clock c + 500000000\<rparr>"
  obtain na where "cl_nodes c0 a = Some na" using s0(6) [OF ma] by (rule replica_memberE)
  then have "timed_call lat h dbg it (Suc (Suc n)) b a (Get key) c0 = (Inl (TimedOut ''rpc timeout''), ?c1)"
    using timed_remote_late [where x = b and y = a and c = c0 and lat = lat and req = "Get key" and
        serve = "timed_serve_with h dbg it (timed_call lat h dbg it (Suc n))", OF _ _ _ c1(1)]
      assms(5,6,9) s0(2-4) c1(3-5) op_timeout_member [OF s0(6) [OF mb]] by simp
  then have first: "get_loop dbg ?env r key (a # [b]) c0 = get_loop dbg ?env r key [b] ?c1"
    by (rule get_loop_remote_miss [rotated 2]) (use assms(3) r in auto)
  have u1: "unwritten c ?c1" using unwritten_trans [OF sc(2) c1(2)] by simp
  obtain nd where "cl_nodes ?c1 b = Some nd" using replica_member_unwritten [OF u1 mb] by (rule replica_memberE)
  moreover have "stored ?c1 b key = None" using u1 assms(8) by (simp add: unwritten_def)
  ultimately obtain c2 where c2: "\<And>rs. get_loop dbg ?env r key (b # rs) ?c1 = get_loop dbg ?env r key rs c2"
      "settled ?c1 c2"
    using get_loop_local_miss [OF _ r(1)] by metis
  note s2 = settledD [OF c2(2)]
  have "get_loop dbg ?env r key [a, b] c0 = (None, c2)" unfolding first c2(1) by simp
  moreover have "cl_busy c2 = cl_busy c" using s2(2) c1(3) assms(5) by auto
  ultimately show "\<exists>c1. get_loop dbg ?env r key [a, b] c0 = (None, c1) \<and> unwritten c c1 \<and>
      cl_busy c1 = cl_busy c \<and> cl_unread c1 = (cl_unread c)((b, a) := [Value None 0]) \<and>
      cl_clock c1 = cl_clock c + 500000000"
    using unwritten_trans [OF u1 s2(1)] s2(3,4) c1(4) by auto
qed

definition idle :: "cluster \<Rightarrow> bool" where
  "idle c \<longleftrightarrow> cl_busy c = {} \<and> (\<forall>p. cl_unread c p = [])"

lemma absent_get_timed:
  assumes ma: "replica_member h key a b a {b} c" and mb: "replica_member h key a b b {a} c"
    and "a \<noteq> b" and "idle c" and "stored c a key = None" "stored c b key = None" and "0 < lat"
  shows "\<exists>c1. timed_serve lat h dbg it (Suc (Suc (Suc n))) a (Get key) c = (Value None 0, c1) \<and>
    unwritten c c1 \<and> cl_busy c1 = {} \<and>
    cl_unread c1 = (cl_unread c)((a, b) := [Value None 0], (b, a) := [Value None 0]) \<and>
    cl_clock c1 = cl_clock c + 500000000"
  unfolding timed_serve_def
proof (rule timed_get_none [OF ma])
  fix r :: replicator and c0
  let ?env = "timed_env it (timed_call lat h dbg it (Suc (Suc (Suc n)))) a"
  assume c0: "settled c c0" and r: "rp_local_node_name r = a" "{b} \<subseteq> rp_peers r"
  have i: "cl_busy c = {}" "\<And>p. cl_unread c p = []"
    using assms(4) unfolding idle_def by blast+
  note s0 = settledD [OF c0]
  obtain na where "cl_nodes c0 a = Some na" using s0(6) [OF ma] by (rule replica_memberE)
  moreover have "stored c0 a key = None" using s0(5) assms(5) by simp
  ultimately obtain c1 where c1: "\<And>rs. get_loop dbg ?env r key (a # rs) c0 = get_loop dbg ?env r key rs c1"
      "settled c0 c1"
    using get_loop_local_miss [OF _ r(1)] by metis
  note s1 = settledD [OF settled_trans [OF c0 c1(2)]]
  let ?c = "c1\<lparr>cl_busy := insert (a, b) (cl_busy c1), cl_clock := cl_clock c1 + lat\<rparr>"
  have sc: "stored ?c = stored c" "unwritten c ?c"
    using s1 by (simp_all add: stored_def fun_eq_iff)
  have "(b, a) \<notin> cl_busy ?c" "cl_unread ?c (b, a) = []" "stored ?c a key = None" "stored ?c b key = None"
    using s1 sc(1) i assms(3,5,6) by simp_all
  with get_asks_back [OF replica_member_unwritten [OF sc(2) ma] replica_member_unwritten [OF sc(2) mb] assms(3),
      where lat = lat and dbg = dbg and it = it and n = n] assms(7)
  obtain c2 where c2:
    "timed_serve_with h dbg it (timed_call lat h dbg it (Suc (Suc n))) b (Get key) ?c = (Value None 0, c2)"
      "unwritten ?c c2" "cl_busy c2 = {(a, b)}" "cl_unread c2 = (cl_unread c)((b, a) := [Value None 0])"
      "cl_clock c2 = cl_clock c + lat + 500000000"
    using s1(2-4) i(1) by auto
  let ?c2 = "c2\<lparr>cl_busy := cl_busy c2 - {(a, b)}, cl_unread := (cl_unread c2)((a, b) := [Value None 0]),
      cl_clock := cl_clock c + 500000000\<rparr>"
  obtain nb where "cl_nodes c1 b = Some nb" using s1(6) [OF mb] by (rule replica_memberE)
  then have "timed_call lat h dbg it (Suc (Suc (Suc n))) a b (Get key) c1 = (Inl (TimedOut ''rpc timeout''), ?c2)"
    using timed_remote_late [where x = a and y = b and c = c1 and lat = lat and req = "Get key" and
        serve = "timed_serve_with h dbg it (timed_call lat h dbg it (Suc (Suc n)))", OF _ _ _ c2(1)]
      assms(3,7) i s1(2-4) c2(3-5) op_timeout_member [OF s1(6) [OF ma]] by simp
  then have "get_loop dbg ?env r key (b # []) c1 = get_loop dbg ?env r key [] ?c2"
    by (rule get_loop_remote_miss [rotated 2]) (use assms(3) r in auto)
  then have "get_loop dbg ?env r key [a, b] c0 = (None, ?c2)" unfolding c1(1) by simp
  moreover have "unwritten c ?c2" using unwritten_trans [OF sc(2) c2(2)] by simp
  moreover have "(cl_unread c)((b, a) := [Value None 0], (a, b) := [Value None 0]) =
      (cl_unread c)((a, b) := [Value None 0], (b, a) := [Value None 0])"
    using assms(3) by (simp add: fun_upd_twist)
  ultimately show "\<exists>c1. get_loop dbg ?env r key [a, b] c0 = (None, c1) \<and> unwritten c c1 \<and> cl_busy c1 = {} \<and>
      cl_unread c1 = (cl_unread c)((a, b) := [Value None 0], (b, a) := [Value None 0]) \<and>
      cl_clock c1 = cl_clock c + 500000000"
    using c2(3,4) by auto
qed


section \<open>Writing over a spoiled connection\<close>

text \<open>A response that is not the \<open>Ack\<close> a \<open>Replicate\<close> waits for.\<close>

definition no_ack :: "response \<Rightarrow> bool" where
  "no_ack resp \<longleftrightarrow> (case resp of Ack _ _ \<Rightarrow> False | _ \<Rightarrow> True)"

lemma client_replicate_no_ack:
  assumes "call (Replicate key val v ttl_ms src) w = (Inr resp, w')" and "no_ack resp"
  shows "\<exists>e. client_replicate dbg call key val v ttl_ms src w = (Inl e, w')"
  using assms by (cases resp) (auto simp: client_replicate_def no_ack_def)

lemma timed_replicate:
  assumes "cl_nodes c t = Some nd"
    and "timed_serve_with h dbg it call t (Replicate key val v ttl_ms src) c = (resp, c')"
  shows "cl_unread c' = cl_unread c" "cl_busy c' = cl_busy c"
    and "cl_nodes c' = (cl_nodes c)(t \<mapsto> nd\<lparr>nd_metrics := count_op (nd_metrics nd),
           nd_storage := snd (engine_put_with_version (cl_clock c) key val v
             (map_option duration_from_millis ttl_ms) (nd_storage nd))\<rparr>)"
  using assms by (auto simp: timed_serve_with_def node_of_def Let_def split: prod.splits)

lemma spoiled_replicate:
  assumes "(a, b) \<notin> cl_busy c" and "cl_unread c (a, b) = stale # rest" and "no_ack stale"
    and "a \<noteq> b" and "cl_nodes c b = Some nb"
    and "\<forall>e. stored c b key = Some e \<longrightarrow> ve_version e < v"
    and "rp_local_node_name r = a" and "b \<in> rp_peers r"
  shows "\<exists>c1. replicate_loop dbg (timed_env it (timed_call lat h dbg it (Suc n)) a) r key val v ttl_ms [a, b] acks c =
      (acks, c1) \<and> stored c1 a = stored c a \<and>
    stored c1 b key = Some (replica_value (cl_clock c + lat) val v ttl_ms)"
proof -
  let ?serve = "timed_serve_with h dbg it (timed_call lat h dbg it n)"
  let ?c = "c\<lparr>cl_busy := insert (a, b) (cl_busy c), cl_clock := cl_clock c + lat\<rparr>"
  let ?req = "Replicate key val v ttl_ms (rp_node_id r)"
  obtain resp c2 where s: "?serve b ?req ?c = (resp, c2)" by fastforce
  have nb: "cl_nodes ?c b = Some nb" using assms(5) by simp
  note rep = timed_replicate [OF nb s]
  have "newer (se_store (nd_storage nb) key) (replica_value (cl_clock c + lat) val v ttl_ms) =
      Some (replica_value (cl_clock c + lat) val v ttl_ms)"
    using assms(5,6) by (cases "se_store (nd_storage nb) key") (auto simp: stored_def replica_value_def not_le)
  then have stored2: "stored c2 b key = Some (replica_value (cl_clock c + lat) val v ttl_ms)"
    "stored c2 a = stored c a"
    using assms(4) by (simp_all add: stored_def rep(3) put_with_version_newer fun_eq_iff)
  obtain c3 where call: "timed_call lat h dbg it (Suc n) a b ?req c = (Inr stale, c3)" and c3: "stored c3 = stored c2"
    using s assms(1,2,5) rep(1,2) by (auto simp: timed_remote_def Let_def stored_def fun_eq_iff)
  obtain e where "client_replicate dbg (timed_call lat h dbg it (Suc n) a b) key val v ttl_ms (rp_node_id r) c = (Inl e, c3)"
    using client_replicate_no_ack [where call = "timed_call lat h dbg it (Suc n) a b", OF call assms(3)] by blast
  with assms(4,7,8) c3 stored2 show ?thesis by (simp del: timed_call.simps)
qed

lemma spoiled_put:
  assumes m: "replica_member h key a b a {b} c" and nb: "cl_nodes c b = Some nb" and "a \<noteq> b"
    and "(a, b) \<notin> cl_busy c" and "cl_unread c (a, b) = stale # rest" and "no_ack stale"
    and "stored c b key = None" and "v = se_version_counter (nd_storage (node_of c a)) + 1"
  shows "\<exists>c1. timed_serve lat h dbg it (Suc n) a (Put key val ttl_ms) c =
      (Error (replication_display (QuorumNotMet 1 2)), c1) \<and>
    stored c1 a key = Some (replica_value (cl_clock c) val v ttl_ms) \<and>
    stored c1 b key = Some (replica_value (cl_clock c + lat) val v ttl_ms)"
proof -
  obtain nd where nd: "cl_nodes c a = Some nd" "rp_local_node_name (ks_replicator (nd_server nd)) = a"
      "replicas_of h (ks_replicator (nd_server nd)) key = [a, b]" "{b} \<subseteq> rp_peers (ks_replicator (nd_server nd))"
      "rp_write_quorum (ks_replicator (nd_server nd)) = 2"
    using m by (rule replica_memberE)
  let ?r = "ks_replicator (nd_server nd)" and ?env = "timed_env it (timed_call lat h dbg it (Suc n)) a"
  let ?e = "replica_value (cl_clock c) val v ttl_ms"
  define c0 where "c0 = (let m = count_op (nd_metrics nd); c0 = set_metrics a m c
    in set_metrics a (nd_metrics (node_of c0 a)\<lparr>mt_put_total := mt_put_total (nd_metrics (node_of c0 a)) + 1\<rparr>) c0)"
  obtain ms where ms: "c0 = set_metrics a ms c" by (simp add: c0_def Let_def)
  define c1 where "c1 = upd_node a (\<lambda>nd. nd\<lparr>nd_storage :=
    snd (engine_put (cl_clock c) key val (map_option duration_from_millis ttl_ms) (nd_storage nd))\<rparr>) c0"
  have first: "put_first dbg ?env ?r [a, b] key val ttl_ms c0 = (Inr (v, 1), c1)"
    using nd(1,2) assms(8)
    by (simp add: put_first_def c1_def ms Let_def engine_put_def node_of_def upd_node_def)
  have c1: "cl_busy c1 = cl_busy c" "cl_unread c1 = cl_unread c" "cl_clock c1 = cl_clock c"
    "cl_nodes c1 b = Some nb" "stored c1 b = stored c b" "stored c1 a key = Some ?e"
    using nd(1) nb assms(3,8)
    by (simp_all add: c1_def ms stored_def upd_node_def node_of_def engine_put_def replica_value_def Let_def fun_eq_iff)
  have "b \<in> rp_peers ?r" using nd(4) by simp
  then obtain c2 where loop: "replicate_loop dbg ?env ?r key val v ttl_ms [a, b] 1 c1 = (1, c2)"
      and c2: "stored c2 a = stored c1 a" "stored c2 b key = Some (replica_value (cl_clock c + lat) val v ttl_ms)"
    using spoiled_replicate [of a b c1 stale rest nb key v ?r dbg it lat h n val ttl_ms 1] assms(3-7) c1 nd(2) by auto
  have "put_replicated h dbg ?env ?r key val ttl_ms c0 = (Inl (QuorumNotMet 1 2), c2)"
    using first loop by (simp add: put_replicated_def nd(3,5) Let_def del: replicate_loop.simps)
  then obtain ms' where "timed_serve lat h dbg it (Suc n) a (Put key val ttl_ms) c =
      (Error (replication_display (QuorumNotMet 1 2)), set_metrics a ms' c2)"
    using nd(1) by (simp add: timed_serve_def timed_serve_with_def Let_def node_of_def c0_def
        del: timed_call.simps replication_display.simps)
  with c1(6) c2 show ?thesis by (simp del: replication_display.simps)
qed


section \<open>Deleting a key\<close>

text \<open>The key is gone from the nodes of \<open>S\<close>, and nothing else is written.\<close>

definition wiped :: "string \<Rightarrow> string set \<Rightarrow> cluster \<Rightarrow> cluster \<Rightarrow> bool" where
  "wiped key S c c' \<longleftrightarrow>
     (\<forall>m k. stored c' m k = (if k = key \<and> m \<in> S then None else stored c m k)) \<and>
     (\<forall>m. map_option nd_server (cl_nodes c' m) = map_option nd_server (cl_nodes c m))"

lemma wiped_unwritten: "wiped key {} c c' \<longleftrightarrow> unwritten c c'"
  by (auto simp: wiped_def unwritten_def fun_eq_iff)

lemma wiped_trans: "wiped key S c c1 \<Longrightarrow> wiped key T c1 c2 \<Longrightarrow> wiped key (S \<union> T) c c2"
  by (auto simp: wiped_def)

lemma wiped_again: "wiped key S c c1 \<Longrightarrow> wiped key T c1 c2 \<Longrightarrow> T \<subseteq> S \<Longrightarrow> wiped key S c c2"
  using wiped_trans [of key S c c1 T c2] by (simp add: Un_absorb2)

lemma wiped_frame [simp]:
  "wiped key S c (c'\<lparr>cl_busy := x\<rparr>) = wiped key S c c'" "wiped key S c (c'\<lparr>cl_clock := t\<rparr>) = wiped key S c c'"
  "wiped key S c (c'\<lparr>cl_unread := u\<rparr>) = wiped key S c c'"
  "wiped key S (c\<lparr>cl_busy := x\<rparr>) c' = wiped key S c c'" "wiped key S (c\<lparr>cl_clock := t\<rparr>) c' = wiped key S c c'"
  by (simp_all add: wiped_def stored_def)

lemma replica_member_wiped: "wiped key S c c' \<Longrightarrow> replica_member h k a b x ys c \<Longrightarrow> replica_member h k a b x ys c'"
  by (simp add: replica_member_def wiped_def)

lemma delete_loop_local:
  assumes "cl_nodes w x = Some nd" and "rp_local_node_name r = x"
  obtains w' where "\<And>rs. delete_loop dbg (timed_env it call x) r key (x # rs) ex w =
      delete_loop dbg (timed_env it call x) r key rs (ex \<or> stored w x key \<noteq> None) w'"
    and "wiped key {x} w w'" "cl_busy w' = cl_busy w" "cl_unread w' = cl_unread w" "cl_clock w' = cl_clock w"
proof -
  let ?w = "upd_node x (\<lambda>nd. nd\<lparr>nd_storage := snd (engine_delete key (nd_storage (node_of w x)))\<rparr>) w"
  have "delete_loop dbg (timed_env it call x) r key (x # rs) ex w =
      delete_loop dbg (timed_env it call x) r key rs (ex \<or> stored w x key \<noteq> None) ?w" for rs
    using assms by (auto simp: engine_delete_def node_of_def stored_def Let_def)
  moreover have "wiped key {x} w ?w"
    using assms(1) by (auto simp: wiped_def stored_def upd_node_def node_of_def engine_delete_def Let_def)
  ultimately show thesis by (rule that) simp_all
qed

lemma delete_loop_remote_late:
  assumes "y \<noteq> rp_local_node_name r" and "y \<in> rp_peers r" and "call x y (Delete key) w = (Inl e, w')"
  shows "delete_loop dbg (timed_env it call x) r key (y # rs) ex w = delete_loop dbg (timed_env it call x) r key rs ex w'"
  using assms by (simp add: client_delete_def)

lemma timed_delete:
  assumes member: "replica_member h key a b x ys c"
    and loop: "\<And>r c0. settled c c0 \<Longrightarrow> rp_local_node_name r = x \<Longrightarrow> ys \<subseteq> rp_peers r \<Longrightarrow>
      \<exists>c1. delete_loop dbg (timed_env it call x) r key [a, b] False c0 = (ex, c1) \<and> P c1"
  shows "\<exists>c1. timed_serve_with h dbg it call x (Delete key) c = (Deleted ex, c1) \<and> P c1"
proof -
  obtain nd where nd: "cl_nodes c x = Some nd" "rp_local_node_name (ks_replicator (nd_server nd)) = x"
      "replicas_of h (ks_replicator (nd_server nd)) key = [a, b]" "ys \<subseteq> rp_peers (ks_replicator (nd_server nd))"
    using member by (rule replica_memberE)
  define c0 where "c0 = (let m = count_op (nd_metrics nd); c0 = set_metrics x m c
    in set_metrics x (nd_metrics (node_of c0 x)\<lparr>mt_delete_total := mt_delete_total (nd_metrics (node_of c0 x)) + 1\<rparr>) c0)"
  have "settled c c0" unfolding c0_def Let_def by (metis set_metrics_twice settled_metrics)
  from loop [OF this nd(2,4)] obtain c1 where
    "delete_loop dbg (timed_env it call x) (ks_replicator (nd_server nd)) key [a, b] False c0 = (ex, c1)" "P c1" by blast
  then have "timed_serve_with h dbg it call x (Delete key) c = (Deleted ex, c1)"
    using nd by (simp add: timed_serve_with_def node_of_def Let_def delete_replicated_def c0_def del: delete_loop.simps)
  with \<open>P c1\<close> show ?thesis by blast
qed

text \<open>The deletion comes back to the node that waits for the answer.\<close>

lemma delete_behind_itself:
  assumes m: "replica_member h key a b a {b} c" and "a \<noteq> b" and "(a, b) \<in> cl_busy c"
  shows "\<exists>c1. timed_serve_with h dbg it (timed_call lat h dbg it (Suc n)) a (Delete key) c =
      (Deleted (stored c a key \<noteq> None), c1) \<and>
    wiped key {a} c c1 \<and> cl_busy c1 = cl_busy c \<and> cl_unread c1 = cl_unread c \<and>
    cl_clock c1 = cl_clock c + 500000000"
proof (rule timed_delete [OF m])
  fix r :: replicator and c0
  let ?env = "timed_env it (timed_call lat h dbg it (Suc n)) a"
  assume c0: "settled c c0" and r: "rp_local_node_name r = a" "{b} \<subseteq> rp_peers r"
  note s0 = settledD [OF c0]
  obtain nd where "cl_nodes c0 a = Some nd" using s0(6) [OF m] by (rule replica_memberE)
  then obtain c1 where c1: "\<And>rs. delete_loop dbg ?env r key (a # rs) False c0 =
        delete_loop dbg ?env r key rs (False \<or> stored c0 a key \<noteq> None) c1"
      "wiped key {a} c0 c1" "cl_busy c1 = cl_busy c0" "cl_unread c1 = cl_unread c0" "cl_clock c1 = cl_clock c0"
    by (rule delete_loop_local [OF _ r(1)]) (rule that)
  have w1: "wiped key {a} c c1" using wiped_trans [of key "{}" c c0 "{a}" c1] s0(1) c1(2) by (simp add: wiped_unwritten)
  have "timed_call lat h dbg it (Suc n) a b (Delete key) c1 =
      (Inl (TimedOut ''rpc timeout''), c1\<lparr>cl_clock := cl_clock c + 500000000\<rparr>)"
    using assms(3) s0(2,4) c1(3,5) op_timeout_member [OF replica_member_wiped [OF w1 m]]
    by (simp add: timed_remote_def)
  then have "delete_loop dbg ?env r key (a # [b]) False c0 =
      delete_loop dbg ?env r key [] (False \<or> stored c0 a key \<noteq> None) (c1\<lparr>cl_clock := cl_clock c + 500000000\<rparr>)"
    unfolding c1(1) by (rule delete_loop_remote_late [rotated 2]) (use assms(2) r in auto)
  with w1 s0 c1 show "\<exists>c1. delete_loop dbg ?env r key [a, b] False c0 = (stored c a key \<noteq> None, c1) \<and>
      wiped key {a} c c1 \<and> cl_busy c1 = cl_busy c \<and> cl_unread c1 = cl_unread c \<and> cl_clock c1 = cl_clock c + 500000000"
    by simp
qed

lemma delete_asks_back:
  assumes ma: "replica_member h key a b a {b} c" and mb: "replica_member h key a b b {a} c"
    and "a \<noteq> b" and "(a, b) \<in> cl_busy c" and "(b, a) \<notin> cl_busy c" and "cl_unread c (b, a) = []"
    and "stored c a key = None" and "0 < lat"
  shows "\<exists>c1. timed_serve_with h dbg it (timed_call lat h dbg it (Suc (Suc n))) b (Delete key) c =
      (Deleted (stored c b key \<noteq> None), c1) \<and>
    wiped key {a, b} c c1 \<and> cl_busy c1 = cl_busy c \<and> cl_unread c1 = (cl_unread c)((b, a) := [Deleted False]) \<and>
    cl_clock c1 = cl_clock c + 500000000"
proof (rule timed_delete [OF mb])
  fix r :: replicator and c0
  let ?env = "timed_env it (timed_call lat h dbg it (Suc (Suc n))) b"
  assume c0: "settled c c0" and r: "rp_local_node_name r = b" "{a} \<subseteq> rp_peers r"
  note s0 = settledD [OF c0]
  let ?c = "c0\<lparr>cl_busy := insert (b, a) (cl_busy c0), cl_clock := cl_clock c0 + lat\<rparr>"
  have sc: "stored ?c = stored c" "unwritten c ?c"
    using s0 by (simp_all add: stored_def fun_eq_iff)
  have "replica_member h key a b a {b} ?c" "(a, b) \<in> cl_busy ?c" "stored ?c a key = None"
    using replica_member_unwritten [OF sc(2) ma] sc(1) assms(4,7) s0(2) by simp_all
  with delete_behind_itself [of h key a b ?c dbg it lat n] assms(3) obtain c1 where
    c1: "timed_serve_with h dbg it (timed_call lat h dbg it (Suc n)) a (Delete key) ?c = (Deleted False, c1)"
      "wiped key {a} ?c c1" "cl_busy c1 = insert (b, a) (cl_busy c)" "cl_unread c1 = cl_unread c"
      "cl_clock c1 = cl_clock c + lat + 500000000"
    using s0 by auto
  let ?c1 = "c1\<lparr>cl_busy := cl_busy c1 - {(b, a)}, cl_unread := (cl_unread c1)((b, a) := [Deleted False]),
      cl_clock := cl_clock c + 500000000\<rparr>"
  obtain na where "cl_nodes c0 a = Some na" using s0(6) [OF ma] by (rule replica_memberE)
  then have "timed_call lat h dbg it (Suc (Suc n)) b a (Delete key) c0 = (Inl (TimedOut ''rpc timeout''), ?c1)"
    using timed_remote_late [where x = b and y = a and c = c0 and lat = lat and req = "Delete key" and
        serve = "timed_serve_with h dbg it (timed_call lat h dbg it (Suc n))", OF _ _ _ c1(1)]
      assms(5,6,8) s0(2-4) c1(3-5) op_timeout_member [OF s0(6) [OF mb]] by simp
  then have first: "delete_loop dbg ?env r key (a # [b]) False c0 = delete_loop dbg ?env r key [b] False ?c1"
    by (rule delete_loop_remote_late [rotated 2]) (use assms(3) r in auto)
  have "wiped key ({} \<union> {a}) c c1" using sc(2) c1(2) by (intro wiped_trans) (simp_all add: wiped_unwritten)
  then have u1: "wiped key {a} c ?c1" by simp
  obtain nd where "cl_nodes ?c1 b = Some nd" using replica_member_wiped [OF u1 mb] by (rule replica_memberE)
  then obtain c2 where c2: "\<And>rs. delete_loop dbg ?env r key (b # rs) False ?c1 =
        delete_loop dbg ?env r key rs (False \<or> stored ?c1 b key \<noteq> None) c2"
      "wiped key {b} ?c1 c2" "cl_busy c2 = cl_busy ?c1" "cl_unread c2 = cl_unread ?c1" "cl_clock c2 = cl_clock ?c1"
    by (rule delete_loop_local [OF _ r(1)]) (rule that)
  have "stored ?c1 b key = stored c b key" using u1 assms(3) by (simp add: wiped_def)
  then have "delete_loop dbg ?env r key [a, b] False c0 = (stored c b key \<noteq> None, c2)"
    unfolding first c2(1) by simp
  moreover have "wiped key {a, b} c c2" using wiped_trans [OF u1 c2(2)] by (metis insert_is_Un)
  moreover have "cl_busy c2 = cl_busy c" using c2(3) c1(3) assms(5) by auto
  ultimately show "\<exists>c1. delete_loop dbg ?env r key [a, b] False c0 = (stored c b key \<noteq> None, c1) \<and>
      wiped key {a, b} c c1 \<and> cl_busy c1 = cl_busy c \<and> cl_unread c1 = (cl_unread c)((b, a) := [Deleted False]) \<and>
      cl_clock c1 = cl_clock c + 500000000"
    using c2(4,5) c1(4) by auto
qed

lemma delete_timed:
  assumes ma: "replica_member h key a b a {b} c" and mb: "replica_member h key a b b {a} c"
    and "a \<noteq> b" and "idle c" and "0 < lat"
  shows "\<exists>c1. timed_serve lat h dbg it (Suc (Suc (Suc n))) a (Delete key) c =
      (Deleted (stored c a key \<noteq> None), c1) \<and>
    wiped key {a, b} c c1 \<and> cl_busy c1 = {} \<and>
    cl_unread c1 = (cl_unread c)((a, b) := [Deleted (stored c b key \<noteq> None)], (b, a) := [Deleted False]) \<and>
    cl_clock c1 = cl_clock c + 500000000"
  unfolding timed_serve_def
proof (rule timed_delete [OF ma])
  fix r :: replicator and c0
  let ?env = "timed_env it (timed_call lat h dbg it (Suc (Suc (Suc n)))) a"
  assume c0: "settled c c0" and r: "rp_local_node_name r = a" "{b} \<subseteq> rp_peers r"
  have i: "cl_busy c = {}" "\<And>p. cl_unread c p = []"
    using assms(4) unfolding idle_def by blast+
  note s0 = settledD [OF c0]
  obtain na where "cl_nodes c0 a = Some na" using s0(6) [OF ma] by (rule replica_memberE)
  then obtain c1 where c1: "\<And>rs. delete_loop dbg ?env r key (a # rs) False c0 =
        delete_loop dbg ?env r key rs (False \<or> stored c0 a key \<noteq> None) c1"
      "wiped key {a} c0 c1" "cl_busy c1 = cl_busy c0" "cl_unread c1 = cl_unread c0" "cl_clock c1 = cl_clock c0"
    by (rule delete_loop_local [OF _ r(1)]) (rule that)
  have w1: "wiped key {a} c c1" using wiped_trans [of key "{}" c c0 "{a}" c1] s0(1) c1(2) by (simp add: wiped_unwritten)
  let ?c = "c1\<lparr>cl_busy := insert (a, b) (cl_busy c1), cl_clock := cl_clock c1 + lat\<rparr>"
  have wc: "wiped key {a} c ?c" using w1 by simp
  have "(a, b) \<in> cl_busy ?c" "(b, a) \<notin> cl_busy ?c" "cl_unread ?c (b, a) = []" "stored ?c a key = None"
    using s0(2,3) c1(3,4) i assms(3) wc by (simp_all add: wiped_def)
  with delete_asks_back [OF replica_member_wiped [OF wc ma] replica_member_wiped [OF wc mb] assms(3),
      where lat = lat and dbg = dbg and it = it and n = n] assms(5)
  obtain c2 where c2:
    "timed_serve_with h dbg it (timed_call lat h dbg it (Suc (Suc n))) b (Delete key) ?c = (Deleted (stored ?c b key \<noteq> None), c2)"
      "wiped key {a, b} ?c c2" "cl_busy c2 = {(a, b)}" "cl_unread c2 = (cl_unread c)((b, a) := [Deleted False])"
      "cl_clock c2 = cl_clock c + lat + 500000000"
    using s0(2-4) c1(3-5) i(1) by auto
  have sb: "stored ?c b key = stored c b key" using wc assms(3) by (simp add: wiped_def)
  let ?c2 = "c2\<lparr>cl_busy := cl_busy c2 - {(a, b)}, cl_unread := (cl_unread c2)((a, b) := [Deleted (stored c b key \<noteq> None)]),
      cl_clock := cl_clock c + 500000000\<rparr>"
  obtain nb where "cl_nodes c1 b = Some nb" using replica_member_wiped [OF w1 mb] by (rule replica_memberE)
  then have "timed_call lat h dbg it (Suc (Suc (Suc n))) a b (Delete key) c1 = (Inl (TimedOut ''rpc timeout''), ?c2)"
    using timed_remote_late [where x = a and y = b and c = c1 and lat = lat and req = "Delete key" and
        serve = "timed_serve_with h dbg it (timed_call lat h dbg it (Suc (Suc n)))", OF _ _ _ c2(1) [unfolded sb]]
      assms(3,5) i s0(2-4) c1(3-5) c2(3-5) op_timeout_member [OF replica_member_wiped [OF w1 ma]] by simp
  then have "delete_loop dbg ?env r key (b # []) (False \<or> stored c0 a key \<noteq> None) c1 =
      delete_loop dbg ?env r key [] (False \<or> stored c0 a key \<noteq> None) ?c2"
    by (rule delete_loop_remote_late [rotated 2]) (use assms(3) r in auto)
  then have "delete_loop dbg ?env r key [a, b] False c0 = (stored c a key \<noteq> None, ?c2)"
    unfolding c1(1) using s0(5) by simp
  moreover have "wiped key {a, b} c ?c2" using wiped_trans [OF wc c2(2)] by (simp only: wiped_frame) (metis Un_commute Un_insert_left insert_absorb2 insert_is_Un)
  moreover have "(cl_unread c)((b, a) := [Deleted False], (a, b) := [Deleted (stored c b key \<noteq> None)]) =
      (cl_unread c)((a, b) := [Deleted (stored c b key \<noteq> None)], (b, a) := [Deleted False])"
    using assms(3) by (simp add: fun_upd_twist)
  ultimately show "\<exists>c1. delete_loop dbg ?env r key [a, b] False c0 = (stored c a key \<noteq> None, c1) \<and>
      wiped key {a, b} c c1 \<and> cl_busy c1 = {} \<and>
      cl_unread c1 = (cl_unread c)((a, b) := [Deleted (stored c b key \<noteq> None)], (b, a) := [Deleted False]) \<and>
      cl_clock c1 = cl_clock c + 500000000"
    using c2(3,4) by auto
qed

section \<open>Properties\<close>



lemma pair_member:
  "replica_member sum_hash ''k'' ''a'' ''b'' ''a'' {''b''} (pair_cluster sa sb)"
  "replica_member sum_hash ''k'' ''a'' ''b'' ''b'' {''a''} (pair_cluster sa sb)"
  by (simp_all add: replica_member_def pair_cluster_def pair_node_def kv_server_new_def pair_replicas)
     (simp_all add: replicator_new_def)

lemma pair_idle: "idle (pair_cluster sa sb)"
  by (simp add: idle_def pair_cluster_def)



end
