(* ===== verification/Gateway.thy ===== *)
theory Gateway
  imports Startup
begin

text \<open>
  A write through a node that is not a replica of the key, and the loss of a node: the parts of
  \<open>tp-kv-distributed/src/replication.rs\<close> where the coordinator forwards, seen on the cluster.

  The gateway sends the PUT to the first replica, which writes, draws the version and replicates;
  the gateway then sends the same version to every replica, the first one included, and each of
  them discards it as already stored and answers \<open>Ack\<close>.
\<close>

section \<open>A forwarded write\<close>

lemma calm_unlocked: "calm {(me, p)} c \<Longrightarrow> calm {} (unlocked me p [] c)"
  by (auto simp: calm_def unlocked_def)

lemma same_servers_locked: "same_servers c c1 \<Longrightarrow> same_servers c (unlocked me p [] c1)"
  "same_servers (locked me p c) c1 \<Longrightarrow> same_servers c c1"
  by (simp_all add: same_servers_def)

lemma newer_older: "\<forall>e'. x = Some e' \<longrightarrow> ve_version e' < ve_version e \<Longrightarrow> newer x e = Some e"
  by (cases x) (auto simp: not_le)

lemma forwarded_put:
  assumes "quiet c" and view: "same_view h c key ps" and "me \<notin> set ps" and ps: "ps = p # qs" and "distinct ps"
    and me: "cl_nodes c me = Some nd" and p: "cl_nodes c p = Some ndp"
    and peers: "set ps \<subseteq> rp_peers (ks_replicator (nd_server nd))" "set qs \<subseteq> rp_peers (ks_replicator (nd_server ndp))"
    and alive: "\<forall>m \<in> set ps. cl_nodes c m \<noteq> None"
    and quorum: "rp_write_quorum (ks_replicator (nd_server nd)) \<le> length ps"
      "rp_write_quorum (ks_replicator (nd_server ndp)) \<le> length ps"
    and v: "v = se_version_counter (nd_storage ndp) + 1"
    and fresh: "\<forall>m e. m \<in> set qs \<longrightarrow> stored c m key = Some e \<longrightarrow> ve_version e < v"
  obtains c' where
    "cluster_serve h dbg it (Suc (Suc n)) me (Put key val ttl_ms) c = (Ack v (ks_node_id (nd_server nd)), c')"
    "quiet c'" "same_servers c c'"
    "\<And>m. m \<in> set ps \<Longrightarrow> stored c' m key = Some (replica_value (cl_clock c) val v ttl_ms)"
    "\<And>m k. k \<noteq> key \<or> m \<notin> set ps \<Longrightarrow> stored c' m k = stored c m k"
proof -
  let ?e = "replica_value (cl_clock c) val v ttl_ms" and ?r = "ks_replicator (nd_server nd)"
  let ?env = "cluster_env it (cluster_call h dbg it (Suc (Suc n))) me"
  have r: "rp_local_node_name ?r = me" "replicas_of h ?r key = ps"
    using view me by (simp_all add: same_view_def)
  have mp: "me \<noteq> p" using assms(3) ps by auto
  define c0 where "c0 = (let m = count_op (nd_metrics nd); c0 = set_metrics me m c
    in set_metrics me (nd_metrics (node_of c0 me)\<lparr>mt_put_total := mt_put_total (nd_metrics (node_of c0 me)) + 1\<rparr>) c0)"
  obtain ms where ms: "c0 = set_metrics me ms c" by (simp add: c0_def Let_def)
  have calm0: "calm {} c0" using assms(1) by (simp add: quiet_calm calm_def ms)
  have same0: "same_servers c c0" unfolding ms by (rule same_servers_set_metrics)
  let ?c = "locked me p c0"
  have calm1: "calm {(me, p)} ?c"
    using calm0 calm_locked [OF calm0] by (simp add: calm_def locked_def)
  have same1: "same_servers c ?c" using same0 by (simp add: same_servers_def)
  have view1: "same_view h ?c key ps" by (rule same_servers_view [OF same1 view])
  have node1: "cl_nodes ?c p = Some ndp" using p mp by (simp add: ms)
  have alive1: "\<forall>m \<in> set ps. cl_nodes ?c m \<noteq> None" using alive by (simp add: ms)
  have peers1: "set ps - {p} \<subseteq> rp_peers (ks_replicator (nd_server ndp))" using peers(2) ps by auto
  have mem: "p \<in> set ps" "\<forall>m \<in> set ps. (p, m) \<notin> {(me, p)}" using ps mp by auto
  have clock: "cl_clock ?c = cl_clock c" using same1 by (simp add: same_servers_def)
  obtain c1 where served: "cluster_serve h dbg it (Suc n) p (Put key val ttl_ms) ?c = (Ack v (ks_node_id (nd_server ndp)), c1)"
    and c1: "calm {(me, p)} c1" "same_servers ?c c1"
      "\<And>m. m \<in> set ps \<Longrightarrow> stored c1 m key = (if m = p then Some ?e else newer (stored ?c m key) ?e)"
      "\<And>m k. k \<noteq> key \<or> m \<notin> set ps \<Longrightarrow> stored c1 m k = stored ?c m k"
    by (rule calm_put [OF calm1 view1 mem(1) assms(5) node1 refl peers1 alive1 quorum(2) v mem(2),
          of dbg it n val ttl_ms, unfolded clock]) (rule that)
  have stored0: "stored c0 m k = stored c m k" for m k by (simp add: ms)
  have at_ps: "stored c1 m key = Some ?e" if "m \<in> set ps" for m
    using c1(3) [OF that] fresh that ps newer_older [of "stored c m key" ?e]
    by (auto simp: stored0 replica_value_def)
  let ?c1 = "unlocked me p [] c1"
  have free: "(me, p) \<notin> cl_busy c0" "cl_unread c0 (me, p) = []"
    using calm0 by (simp_all add: calm_def)
  have "cluster_call h dbg it (Suc (Suc n)) me p (Put key val ttl_ms) c0 = (Inr (Ack v (ks_node_id (nd_server ndp))), ?c1)"
    using served calm_locked [OF calm0] p mp
    by (subst cluster_call.simps(2), subst remote_call_free [OF free])
       (simp add: cluster_serve_def Let_def ms del: cluster_call.simps)
  then have first: "put_first dbg ?env ?r ps key val ttl_ms c0 = (Inr (v, 1), ?c1)"
    using r(1) assms(3) peers(1) ps
    by (simp add: put_first_def client_put_with_ttl_def del: cluster_call.simps)
  have same1': "same_servers c ?c1"
    using same_servers_trans [OF same1 c1(2)] by (rule same_servers_locked)
  have alive2: "\<forall>m \<in> set ps. cl_nodes ?c1 m \<noteq> None"
    using alive same1' same_servers_node by fastforce
  have peers2: "set ps - {me} \<subseteq> rp_peers ?r" using peers(1) by auto
  obtain c2 where loop: "replicate_loop dbg ?env ?r key val v ttl_ms ps 1 ?c1 =
      (1 + length (filter (\<lambda>m. m \<noteq> me) ps), c2)"
    and w: "wrote {} key (replica_value (cl_clock ?c1) val v ttl_ms) (set ps - {me}) ?c1 c2"
    using calm_replicate_loop [OF calm_unlocked [OF c1(1)] r(1) peers2 alive2 none_held] by blast
  have clock1: "cl_clock c1 = cl_clock c" using same1' by (simp add: same_servers_def)
  have "filter (\<lambda>m. m \<noteq> me) ps = ps" using assms(3) by (auto simp: filter_id_conv)
  then have "put_replicated h dbg ?env ?r key val ttl_ms c0 = (Inr v, c2)"
    using first loop quorum(1) ps by (simp add: put_replicated_def r(2) Let_def del: put_first_def replicate_loop.simps)
  then obtain ms' where serve: "cluster_serve h dbg it (Suc (Suc n)) me (Put key val ttl_ms) c =
      (Ack v (ks_node_id (nd_server nd)), set_metrics me ms' c2)"
    using me by (simp add: cluster_serve_def serve_with_def Let_def node_of_def c0_def del: cluster_call.simps)
  have q: "quiet (set_metrics me ms' c2)" using w by (simp add: wrote_def quiet_calm calm_def)
  have s: "same_servers c (set_metrics me ms' c2)"
    using same1' w same_servers_set_metrics unfolding wrote_def by (meson same_servers_trans)
  have at: "stored (set_metrics me ms' c2) m key = Some ?e" if "m \<in> set ps" for m
    using w that assms(3) at_ps [OF that] by (auto simp: wrote_def clock1)
  have elsewhere: "stored (set_metrics me ms' c2) m k = stored c m k" if "k \<noteq> key \<or> m \<notin> set ps" for m k
    using w that c1(4) [OF that] by (auto simp: wrote_def stored0)
  show thesis by (rule that [OF serve q s at elsewhere])
qed


section \<open>A read when nodes are missing\<close>

text \<open>A read that finds the value changes counters only.\<close>

definition kept :: "cluster \<Rightarrow> cluster \<Rightarrow> bool" where
  "kept c c' \<longleftrightarrow> same_servers c c' \<and> stored c' = stored c \<and> cl_fates c' = cl_fates c \<and>
     cl_busy c' = cl_busy c \<and> cl_unread c' = cl_unread c"

lemma kept_trans: "kept c c1 \<Longrightarrow> kept c1 c2 \<Longrightarrow> kept c c2"
  using same_servers_trans [of c c1 c2] by (simp add: kept_def)

lemma kept_metrics: "kept c (set_metrics me x c)"
  by (simp add: kept_def same_servers_set_metrics fun_eq_iff)

lemma keptD:
  assumes "kept c c'"
  shows "same_servers c c'" "stored c' = stored c" "cl_clock c' = cl_clock c"
    "calm X c \<Longrightarrow> calm X c'" "cl_nodes c' m = None \<longleftrightarrow> cl_nodes c m = None"
proof -
  show same: "same_servers c c'" and "stored c' = stored c" and "calm X c \<Longrightarrow> calm X c'"
    using assms by (simp_all add: kept_def calm_def)
  then show "cl_clock c' = cl_clock c" by (simp add: same_servers_def)
  have "map_option nd_server (cl_nodes c' m) = map_option nd_server (cl_nodes c m)"
    using same by (simp add: same_servers_def)
  then show "cl_nodes c' m = None \<longleftrightarrow> cl_nodes c m = None" by (metis map_option_is_None)
qed

lemma get_loop_local_hit:
  assumes "rp_local_node_name r = x" and "stored w x key = Some e" and "\<not> is_expired (cl_clock w) e"
  obtains w' where "get_loop dbg (cluster_env it call x) r key (x # rs) w = (Some (ve_data e), w')" and "kept w w'"
proof -
  obtain nd where nd: "cl_nodes w x = Some nd" "se_store (nd_storage nd) key = Some e"
    using assms(2) by (auto simp: stored_def split: option.splits)
  let ?s = "(nd_storage nd)"
  obtain s' where s': "engine_get (cl_clock w) key ?s = (Some e, s')" "se_store s' = se_store ?s"
    using nd(2) assms(3) by (auto simp: engine_get_def Let_def)
  let ?w = "upd_node x (\<lambda>nd. nd\<lparr>nd_storage := s'\<rparr>) w"
  have "get_loop dbg (cluster_env it call x) r key (x # rs) w = (Some (ve_data e), ?w)"
    using assms(1) nd(1) s'(1) by (simp add: node_of_def Let_def)
  moreover have "kept w ?w"
    using nd(1) s'(2) by (auto simp: kept_def same_servers_def stored_def fun_eq_iff)
  ultimately show thesis by (rule that)
qed

lemma get_loop_peer_hit:
  assumes "rp_local_node_name r = x" and "y \<noteq> x" and "y \<in> rp_peers r" and "calm X w" and "(x, y) \<notin> X"
    and "cl_nodes w y \<noteq> None"
    and "cluster_serve h dbg it n y (Get key) (locked x y w) = (Value (Some d) 0, w1)" and "kept (locked x y w) w1"
  obtains w' where "get_loop dbg (cluster_env it (cluster_call h dbg it (Suc n)) x) r key (y # rs) w = (Some d, w')"
    and "kept w w'"
proof -
  let ?w = "unlocked x y [] w1"
  have free: "(x, y) \<notin> cl_busy w" "cl_unread w (x, y) = []" using assms(4,5) by (simp_all add: calm_def)
  have "cluster_call h dbg it (Suc n) x y (Get key) w = (Inr (Value (Some d) 0), ?w)"
    using assms(6,7) calm_locked [OF assms(4)]
    by (subst cluster_call.simps(2), subst remote_call_free [OF free]) (simp add: Let_def cluster_serve_def)
  then have "get_loop dbg (cluster_env it (cluster_call h dbg it (Suc n)) x) r key (y # rs) w = (Some d, ?w)"
    using assms(1-3) free(1) by (simp add: client_get_def del: cluster_call.simps)
  moreover have "kept w ?w"
    using free assms(8) calm_locked [OF assms(4)]
    by (auto simp: kept_def same_servers_def unlocked_def locked_def stored_def fun_eq_iff)
  ultimately show thesis by (rule that)
qed

lemma serve_get_found:
  assumes "cl_nodes c x = Some nd" and "replicas_of h (ks_replicator (nd_server nd)) key = ps" "ps \<noteq> []"
    and loop: "\<And>c0. kept c c0 \<Longrightarrow> \<exists>w. get_loop dbg (cluster_env it (cluster_call h dbg it n) x)
      (ks_replicator (nd_server nd)) key ps c0 = (Some d, w) \<and> kept c0 w"
  obtains c' where "cluster_serve h dbg it n x (Get key) c = (Value (Some d) 0, c')" and "kept c c'"
proof -
  define c0 where "c0 = (let m = count_op (nd_metrics nd); c0 = set_metrics x m c
    in set_metrics x (nd_metrics (node_of c0 x)\<lparr>mt_get_total := mt_get_total (nd_metrics (node_of c0 x)) + 1\<rparr>) c0)"
  have kept0: "kept c c0" unfolding c0_def Let_def by (metis set_metrics_twice kept_metrics)
  then obtain w where w: "get_loop dbg (cluster_env it (cluster_call h dbg it n) x)
      (ks_replicator (nd_server nd)) key ps c0 = (Some d, w)" "kept c0 w"
    using loop by blast
  then have "cluster_serve h dbg it n x (Get key) c = (Value (Some d) 0, w)"
    using assms(1-3) by (simp add: cluster_serve_def serve_with_def node_of_def Let_def get_replicated_def c0_def
        del: get_loop.simps)
  then show thesis using that kept_trans [OF kept0 w(2)] by blast
qed


text \<open>A call to a node that is gone fails and changes nothing.\<close>

lemma gone_call:
  assumes "calm X w" and "(x, y) \<notin> X" and "cl_nodes w y = None"
  obtains w' where "cluster_call h dbg it (Suc n) x y req w = (Inl (Wire ''connection refused''), w')" and "kept w w'"
proof -
  have "cluster_call h dbg it (Suc n) x y req w =
      (Inl (Wire ''connection refused''), unlocked x y [] (locked x y w))"
    using assms remote_call_free [of x y w, where req = req] by (simp add: calm_def Let_def)
  moreover have "kept w (unlocked x y [] (locked x y w))"
    using assms(1,2) calm_locked [OF assms(1)]
    by (auto simp: calm_def kept_def same_servers_def unlocked_def locked_def stored_def fun_eq_iff)
  ultimately show thesis by (rule that)
qed

lemma get_loop_dead_prefix:
  assumes "rp_local_node_name r = x" and "calm X w" and "\<forall>y. (x, y) \<notin> X" and "x \<notin> set dead"
    and "set dead \<subseteq> rp_peers r" and "\<forall>y \<in> set dead. cl_nodes w y = None"
  shows "\<exists>w'. kept w w' \<and>
    (\<forall>rs. get_loop dbg (cluster_env it (cluster_call h dbg it (Suc n)) x) r key (dead @ rs) w =
      get_loop dbg (cluster_env it (cluster_call h dbg it (Suc n)) x) r key rs w')"
  using assms(2,4-6)
proof (induction dead arbitrary: w)
  case Nil
  have "kept w w" by (simp add: kept_def same_servers_refl)
  then show ?case by auto
next
  case (Cons y dead)
  have y: "y \<noteq> x" "y \<in> rp_peers r" "(x, y) \<notin> X" "cl_nodes w y = None" using Cons.prems assms(3) by auto
  let ?env = "cluster_env it (cluster_call h dbg it (Suc n)) x"
  have "\<exists>w1. kept w w1 \<and> (\<forall>rs. get_loop dbg ?env r key (y # rs) w = get_loop dbg ?env r key rs w1)"
  proof -
    obtain w1 where "cluster_call h dbg it (Suc n) x y (Get key) w = (Inl (Wire ''connection refused''), w1)" "kept w w1"
      by (rule gone_call [OF Cons.prems(1) y(3,4)])
    then show ?thesis
      using assms(1) y Cons.prems(1) by (intro exI [of _ w1]) (simp add: calm_def client_get_def del: cluster_call.simps)
  qed
  then obtain w1 where w1: "kept w w1" "\<And>rs. get_loop dbg ?env r key (y # rs) w = get_loop dbg ?env r key rs w1"
    by blast
  obtain w2 where "kept w1 w2" "\<And>rs. get_loop dbg ?env r key (dead @ rs) w1 = get_loop dbg ?env r key rs w2"
    using Cons.IH [OF keptD(4) [OF w1(1) Cons.prems(1)]] Cons.prems keptD(5) [OF w1(1)] by auto
  with w1 kept_trans [OF w1(1)] show ?case by (intro exI [of _ w2]) simp
qed

lemma same_view_member:
  "same_view h c key ps \<Longrightarrow> cl_nodes c m = Some nd \<Longrightarrow>
   rp_local_node_name (ks_replicator (nd_server nd)) = m \<and> replicas_of h (ks_replicator (nd_server nd)) key = ps"
  by (simp add: same_view_def)

lemma owner_get:
  assumes "calm X c" and "\<forall>y. (s, y) \<notin> X" and "same_view h c key (dead @ s # rest)" and "cl_nodes c s = Some nds"
    and "set dead \<subseteq> rp_peers (ks_replicator (nd_server nds))" and "\<forall>y \<in> set dead. cl_nodes c y = None"
    and "stored c s key = Some e" and "\<not> is_expired (cl_clock c) e"
  obtains c' where "cluster_serve h dbg it (Suc n) s (Get key) c = (Value (Some (ve_data e)) 0, c')" and "kept c c'"
proof -
  let ?r = "ks_replicator (nd_server nds)" and ?env = "cluster_env it (cluster_call h dbg it (Suc n)) s"
  note r = same_view_member [OF assms(3,4)]
  have nin: "s \<notin> set dead" using assms(4,6) by auto
  have "\<exists>w. get_loop dbg ?env ?r key (dead @ s # rest) c0 = (Some (ve_data e), w) \<and> kept c0 w" if k0: "kept c c0" for c0
  proof -
    have "\<forall>y \<in> set dead. cl_nodes c0 y = None" using assms(6) keptD(5) [OF k0] by simp
    from get_loop_dead_prefix [OF conjunct1 [OF r] keptD(4) [OF k0 assms(1)] assms(2) nin assms(5) this, of dbg it h n key]
    obtain w1 where w1: "kept c0 w1" "\<And>rs. get_loop dbg ?env ?r key (dead @ rs) c0 = get_loop dbg ?env ?r key rs w1"
      by blast
    note k1 = kept_trans [OF k0 w1(1)]
    have "stored w1 s key = Some e" "\<not> is_expired (cl_clock w1) e"
      using assms(7,8) keptD(2,3) [OF k1] by simp_all
    from get_loop_local_hit [OF conjunct1 [OF r] this] obtain w where
      "get_loop dbg ?env ?r key (s # rest) w1 = (Some (ve_data e), w)" "kept w1 w" by metis
    with w1 kept_trans [OF w1(1)] show ?thesis by auto
  qed
  from serve_get_found [OF assms(4) conjunct2 [OF r] _ this] show thesis using that by blast
qed

lemma survivor_get:
  assumes "quiet c" and view: "same_view h c key (dead @ s # rest)"
    and s: "cl_nodes c s = Some nds" and g: "cl_nodes c g = Some ndg"
    and "\<forall>y \<in> set dead. cl_nodes c y = None"
    and "set dead \<subseteq> rp_peers (ks_replicator (nd_server nds))"
    and "insert s (set dead) - {g} \<subseteq> rp_peers (ks_replicator (nd_server ndg))"
    and "stored c s key = Some e" and "\<not> is_expired (cl_clock c) e"
  obtains c' where "cluster_serve h dbg it (Suc (Suc n)) g (Get key) c = (Value (Some (ve_data e)) 0, c')" and "kept c c'"
proof (cases "g = s")
  case True
  have "calm {} c" using assms(1) by (simp add: quiet_calm)
  from owner_get [OF this _ view s assms(6,5,8,9), of dbg it "Suc n"] True show thesis using that by blast
next
  case False
  have calm: "calm {} c" using assms(1) by (simp add: quiet_calm)
  let ?r = "ks_replicator (nd_server ndg)" and ?env = "cluster_env it (cluster_call h dbg it (Suc (Suc n))) g"
  note r = same_view_member [OF view g]
  have nin: "g \<notin> set dead" using g assms(5) by auto
  have peers: "set dead \<subseteq> rp_peers ?r" "s \<in> rp_peers ?r" using assms(7) False nin by auto
  have "\<exists>w. get_loop dbg ?env ?r key (dead @ s # rest) c0 = (Some (ve_data e), w) \<and> kept c0 w" if k0: "kept c c0" for c0
  proof -
    have "\<forall>y \<in> set dead. cl_nodes c0 y = None" using assms(5) keptD(5) [OF k0] by simp
    from get_loop_dead_prefix [OF conjunct1 [OF r] keptD(4) [OF k0 calm] _ nin peers(1) this, of dbg it h "Suc n" key]
    obtain w1 where w1: "kept c0 w1" "\<And>rs. get_loop dbg ?env ?r key (dead @ rs) c0 = get_loop dbg ?env ?r key rs w1"
      by auto
    note k1 = kept_trans [OF k0 w1(1)]
    note calm1 = keptD(4) [OF k1 calm]
    let ?w = "locked g s w1"
    have same: "same_servers c ?w" using keptD(1) [OF k1] by (simp add: same_servers_def)
    obtain nds' where s1: "cl_nodes ?w s = Some nds'" "nd_server nds' = nd_server nds"
      using same_servers_node [OF same s] by blast
    have calm2: "calm {(g, s)} ?w" using calm1 calm_locked [OF calm1] by (simp add: calm_def locked_def)
    have "\<forall>y. (s, y) \<notin> {(g, s)}" using False by auto
    moreover have "set dead \<subseteq> rp_peers (ks_replicator (nd_server nds'))" using assms(6) s1(2) by simp
    moreover have "\<forall>y \<in> set dead. cl_nodes ?w y = None" using assms(5) keptD(5) [OF k1] by simp
    moreover have "stored ?w s key = Some e" "\<not> is_expired (cl_clock ?w) e"
      using assms(8,9) keptD(2,3) [OF k1] by simp_all
    ultimately obtain w2 where w2: "cluster_serve h dbg it (Suc n) s (Get key) ?w = (Value (Some (ve_data e)) 0, w2)" "kept ?w w2"
      using owner_get [OF calm2 _ same_servers_view [OF same view] s1(1), of e dbg it n] by blast
    have "cl_nodes w1 s \<noteq> None" using s1(1) by simp
    from get_loop_peer_hit [OF conjunct1 [OF r] _ peers(2) calm1 _ this w2] obtain w where
      "get_loop dbg ?env ?r key (s # rest) w1 = (Some (ve_data e), w)" "kept w1 w"
      using False by (metis empty_iff)
    with w1 kept_trans [OF w1(1)] show ?thesis by auto
  qed
  from serve_get_found [OF g conjunct2 [OF r] _ this] show thesis using that by blast
qed

section \<open>A write when the other replicas are gone\<close>

lemma replicate_loop_gone:
  assumes "rp_local_node_name r = me"
  shows "quiet w \<Longrightarrow> set ps - {me} \<subseteq> rp_peers r \<Longrightarrow> \<forall>y \<in> set ps - {me}. cl_nodes w y = None \<Longrightarrow>
    \<exists>w'. replicate_loop dbg (cluster_env it (cluster_call h dbg it (Suc n)) me) r key val v ttl_ms ps acks w = (acks, w') \<and>
      kept w w'"
proof (induction ps arbitrary: w)
  case Nil
  then show ?case by (simp add: kept_def same_servers_refl)
next
  case (Cons y ps)
  show ?case
  proof (cases "y = me")
    case True
    then show ?thesis using Cons assms by auto
  next
    case False
    then have y: "y \<in> rp_peers r" "cl_nodes w y = None" using Cons.prems by auto
    have calm: "calm {} w" using Cons.prems(1) by (simp add: quiet_calm)
    obtain w1 where w1: "cluster_call h dbg it (Suc n) me y (Replicate key val v ttl_ms (rp_node_id r)) w =
        (Inl (Wire ''connection refused''), w1)" "kept w w1"
      by (rule gone_call [OF calm _ y(2)]) auto
    have "quiet w1" using keptD(4) [OF w1(2) calm] by (simp add: quiet_calm)
    moreover have "\<forall>y \<in> set ps - {me}. cl_nodes w1 y = None" using Cons.prems(3) keptD(5) [OF w1(2)] by simp
    ultimately obtain w2 where "replicate_loop dbg (cluster_env it (cluster_call h dbg it (Suc n)) me) r key val v ttl_ms ps acks w1 =
        (acks, w2)" "kept w1 w2" using Cons.IH [of w1] Cons.prems(2) by auto
    then show ?thesis
      using False y(1) assms Cons.prems(1) w1 kept_trans [OF w1(2)]
      by (auto simp: client_replicate_def quiet_def simp del: cluster_call.simps)
  qed
qed

lemma lone_put:
  assumes "quiet c" and view: "same_view h c key ps" "ps \<noteq> []" and me: "cl_nodes c me = Some nd"
    and peers: "set ps - {me} \<subseteq> rp_peers (ks_replicator (nd_server nd))"
    and gone: "\<forall>y \<in> set ps - {me}. cl_nodes c y = None"
    and need: "1 < rp_write_quorum (ks_replicator (nd_server nd))"
  obtains e c' where "cluster_serve h dbg it (Suc n) me (Put key val ttl_ms) c = (Error e, c')"
    and "quiet c'" and "same_servers c c'"
proof -
  let ?r = "ks_replicator (nd_server nd)"
  let ?env = "cluster_env it (cluster_call h dbg it (Suc n)) me"
  note r = same_view_member [OF view(1) me]
  define c0 where "c0 = (let m = count_op (nd_metrics nd); c0 = set_metrics me m c
    in set_metrics me (nd_metrics (node_of c0 me)\<lparr>mt_put_total := mt_put_total (nd_metrics (node_of c0 me)) + 1\<rparr>) c0)"
  obtain ms where ms: "c0 = set_metrics me ms c" by (simp add: c0_def Let_def)
  have quiet0: "quiet c0" using assms(1) by (simp add: quiet_def ms)
  have gone0: "\<forall>y \<in> set ps - {me}. cl_nodes c0 y = None" using gone by (simp add: ms)
  have "\<exists>e c1. put_replicated h dbg ?env ?r key val ttl_ms c0 = (Inl e, c1) \<and> quiet c1 \<and> same_servers c0 c1"
  proof (cases "me \<in> set ps")
    case True
    define c1 where "c1 = upd_node me (\<lambda>nd. nd\<lparr>nd_storage :=
      snd (engine_put (cl_clock c0) key val (map_option duration_from_millis ttl_ms) (nd_storage (node_of c0 me)))\<rparr>) c0"
    have first: "\<exists>v. put_first dbg ?env ?r ps key val ttl_ms c0 = (Inr (v, 1), c1)"
      using True r by (simp add: put_first_def c1_def Let_def split_def)
    have "quiet c1" using quiet0 by (simp add: quiet_def c1_def)
    moreover have "\<forall>y \<in> set ps - {me}. cl_nodes c1 y = None" using gone0 by (simp add: c1_def)
    moreover have same: "same_servers c0 c1"
      by (auto simp: same_servers_def c1_def option.map_comp comp_def)
    ultimately obtain v c2 where "put_first dbg ?env ?r ps key val ttl_ms c0 = (Inr (v, 1), c1)"
      "replicate_loop dbg ?env ?r key val v ttl_ms ps 1 c1 = (1, c2)" "kept c1 c2"
      using first replicate_loop_gone [OF conjunct1 [OF r] _ peers] by metis
    then show ?thesis
      using \<open>quiet c1\<close> keptD(1,4) [of c1 c2] same_servers_trans [OF same] r view(2) need
      by (auto simp: put_replicated_def Let_def quiet_calm)
  next
    case False
    obtain p qs where ps: "ps = p # qs" using view(2) by (cases ps) auto
    have calm: "calm {} c0" using quiet0 by (simp add: quiet_calm)
    obtain c1 where c1: "cluster_call h dbg it (Suc n) me p (Put key val ttl_ms) c0 = (Inl (Wire ''connection refused''), c1)" "kept c0 c1"
      by (rule gone_call [OF calm, of me p]) (use gone0 ps False in auto)
    then show ?thesis
      using False ps peers r keptD(1,4) [OF c1(2)] calm
      by (auto simp: put_replicated_def put_first_def client_put_with_ttl_def Let_def quiet_calm simp del: cluster_call.simps)
  qed
  then obtain e c1 where put: "put_replicated h dbg ?env ?r key val ttl_ms c0 = (Inl e, c1)" "quiet c1" "same_servers c0 c1"
    by blast
  then obtain ms' where "cluster_serve h dbg it (Suc n) me (Put key val ttl_ms) c =
      (Error (replication_display e), set_metrics me ms' c1)"
    using me by (simp add: cluster_serve_def serve_with_def Let_def node_of_def c0_def del: cluster_call.simps)
  moreover have "quiet (set_metrics me ms' c1)" using put(2) by (simp add: quiet_def)
  moreover have "same_servers c (set_metrics me ms' c1)"
    using put(3) same_servers_set_metrics unfolding ms by (meson same_servers_trans)
  ultimately show thesis by (rule that)
qed

end
