(* ===== verification/Integration.thy ===== *)
theory Integration
  imports Gateway
begin

text \<open>
  The tests of \<open>tp-kv-distributed/tests/integration.rs\<close>: \<open>boot_cluster\<close> starts the nodes in one
  process, all with the same ring and connected to each other, and the tests send requests to
  them, some after nodes have been aborted.

  A test is a function of the hash, which the ring leaves open, and its value says whether its
  assertions hold. Requests are served one after the other, and the connections opened by
  \<open>boot_cluster\<close> have been accepted when it returns.
\<close>

section \<open>The cluster of the tests\<close>

definition boot_name :: "nat \<Rightarrow> string" where
  "boot_name i = ''node-'' @ show_nat (Suc i)"

definition boot_ring :: "(string \<Rightarrow> u64) \<Rightarrow> nat \<Rightarrow> chring" where
  "boot_ring h num_nodes = foldl (\<lambda>ring j. ring_add_node h (boot_name j) ring) (ring_new 150) [0..<num_nodes]"

definition boot_node :: "instant \<Rightarrow> (string \<Rightarrow> u64) \<Rightarrow> nat \<Rightarrow> nat \<Rightarrow> node" where
  "boot_node now h num_nodes i =
     (let node_id = of_nat (Suc i);
          peers = boot_name ` (set [0..<num_nodes] - {i});
          replicator = replicator_new node_id (boot_name i) (boot_ring h num_nodes) peers
      in \<lparr>nd_server = kv_server_new now node_id replicator, nd_storage = engine_new,
          nd_metrics = metrics_new now node_id\<rparr>)"

definition boot_cluster :: "instant \<Rightarrow> (string \<Rightarrow> u64) \<Rightarrow> nat \<Rightarrow> cluster" where
  "boot_cluster now h num_nodes =
     \<lparr>cl_nodes = map_of (map (\<lambda>i. (boot_name i, boot_node now h num_nodes i)) [0..<num_nodes]),
      cl_unread = (\<lambda>_. []), cl_busy = {}, cl_fates = [], cl_clock = now\<rparr>"

text \<open>\<open>abort\<close> ends the task of \<open>KvServer::run\<close>, which is the accept loop: no connection is accepted any
  more. The connections already accepted are served by tasks of their own, which go on.\<close>

record test_cluster =
  tc_nodes :: cluster
  tc_listening :: "string set"

definition test_boot :: "instant \<Rightarrow> (string \<Rightarrow> u64) \<Rightarrow> nat \<Rightarrow> test_cluster" where
  "test_boot now h num_nodes =
     \<lparr>tc_nodes = boot_cluster now h num_nodes, tc_listening = boot_name ` {0..<num_nodes}\<rparr>"

definition abort_node :: "nat \<Rightarrow> test_cluster \<Rightarrow> test_cluster" where
  "abort_node i tc = tc\<lparr>tc_listening := tc_listening tc - {boot_name i}\<rparr>"

text \<open>A crash, which the tests mean to simulate: the node is gone with its connections.\<close>

definition crash_node :: "nat \<Rightarrow> cluster \<Rightarrow> cluster" where
  "crash_node i c = c\<lparr>cl_nodes := (cl_nodes c)(boot_name i := None)\<rparr>"

text \<open>A client of a test, and its call: answered in time. Two levels of calls are enough: a forwarded
  PUT, and a GET passed on to the second replica.\<close>

definition outside_call ::
  "(string \<Rightarrow> u64) \<Rightarrow> (response \<Rightarrow> string) \<Rightarrow>
   ((string \<rightharpoonup> value_entry) \<Rightarrow> (string \<times> value_entry) list) \<Rightarrow>
   nat \<Rightarrow> request \<Rightarrow> cluster \<Rightarrow> (client_error + response) \<times> cluster" where
  "outside_call h dbg it i req c = (let (resp, c) = cluster_serve h dbg it 2 (boot_name i) req c in (Inr resp, c))"

definition can_connect :: "test_cluster \<Rightarrow> nat \<Rightarrow> bool" where
  "can_connect tc i \<longleftrightarrow> boot_name i \<in> tc_listening tc"

section \<open>The tests\<close>

fun reads_back ::
  "(response \<Rightarrow> string) \<Rightarrow> (nat \<Rightarrow> request \<Rightarrow> cluster \<Rightarrow> (client_error + response) \<times> cluster) \<Rightarrow>
   string \<Rightarrow> u8 list \<Rightarrow> nat list \<Rightarrow> cluster \<Rightarrow> bool \<times> cluster" where
  "reads_back dbg call key val [] c = (True, c)"
| "reads_back dbg call key val (i # is) c =
     (let (got, c) = client_get dbg (call i) key c
      in if got = Inr (Some val) then reads_back dbg call key val is c else (False, c))"

definition test_three_nodes_put_get ::
  "instant \<Rightarrow> (string \<Rightarrow> u64) \<Rightarrow> (response \<Rightarrow> string) \<Rightarrow>
   ((string \<rightharpoonup> value_entry) \<Rightarrow> (string \<times> value_entry) list) \<Rightarrow> bool" where
  "test_three_nodes_put_get now h dbg it =
     (let tc = test_boot now h 3; call = outside_call h dbg it in
      if \<not> can_connect tc 0 then False
      else
        (let (put, c) = client_put dbg (call 0) ''user:42'' (literal_bytes ''alice'') (tc_nodes tc) in
         case put of
           Inl _ \<Rightarrow> False
         | Inr _ \<Rightarrow> list_all (can_connect tc) [0..<3] \<and>
             fst (reads_back dbg call ''user:42'' (literal_bytes ''alice'') [0..<3] c)))"

text \<open>The writes of a client, up to the first that fails.\<close>

fun put_all ::
  "(response \<Rightarrow> string) \<Rightarrow> (request \<Rightarrow> cluster \<Rightarrow> (client_error + response) \<times> cluster) \<Rightarrow>
   (string \<times> u8 list) list \<Rightarrow> cluster \<Rightarrow> bool \<times> cluster" where
  "put_all dbg call [] c = (True, c)"
| "put_all dbg call ((key, val) # kvs) c =
     (let (put, c) = client_put dbg call key val c in
      case put of Inl _ \<Rightarrow> (False, c) | Inr _ \<Rightarrow> put_all dbg call kvs c)"

text \<open>\<open>.ok().flatten().is_some()\<close>\<close>

fun got_some :: "client_error + u8 list option \<Rightarrow> bool" where
  "got_some (Inr (Some _)) = True"
| "got_some _ = False"

fun count_found ::
  "(response \<Rightarrow> string) \<Rightarrow> (nat \<Rightarrow> request \<Rightarrow> cluster \<Rightarrow> (client_error + response) \<times> cluster) \<Rightarrow>
   string list \<Rightarrow> nat \<Rightarrow> cluster \<Rightarrow> nat \<times> cluster" where
  "count_found dbg call [] n c = (n, c)"
| "count_found dbg call (key # keys) n c =
     (let (g1, c) = client_get dbg (call 0) key c;
          (g3, c) = client_get dbg (call 2) key c
      in count_found dbg call keys (if got_some g1 \<or> got_some g3 then n + 1 else n) c)"

definition crash_keys :: "(string \<times> u8 list) list" where
  "crash_keys = map (\<lambda>i. (''k'' @ show_nat i, literal_bytes (''v'' @ show_nat i))) [0..<50]"

definition test_node_crash_resilience ::
  "instant \<Rightarrow> (string \<Rightarrow> u64) \<Rightarrow> (response \<Rightarrow> string) \<Rightarrow>
   ((string \<rightharpoonup> value_entry) \<Rightarrow> (string \<times> value_entry) list) \<Rightarrow> bool" where
  "test_node_crash_resilience now h dbg it =
     (let tc = test_boot now h 3; call = outside_call h dbg it;
          (puts, c) = put_all dbg (call 0) crash_keys (tc_nodes tc);
          tc = abort_node 1 tc
      in can_connect (test_boot now h 3) 0 \<and> puts \<and> can_connect tc 0 \<and> can_connect tc 2 \<and>
         45 \<le> fst (count_found dbg call (map fst crash_keys) 0 c))"

text \<open>Whether some write of the list fails.\<close>

fun any_put_fails ::
  "(response \<Rightarrow> string) \<Rightarrow> (request \<Rightarrow> cluster \<Rightarrow> (client_error + response) \<times> cluster) \<Rightarrow>
   (string \<times> u8 list) list \<Rightarrow> bool \<Rightarrow> cluster \<Rightarrow> bool \<times> cluster" where
  "any_put_fails dbg call [] failure c = (failure, c)"
| "any_put_fails dbg call ((key, val) # kvs) failure c =
     (let (res, c) = client_put dbg call key val c in
      any_put_fails dbg call kvs (case res of Inl _ \<Rightarrow> True | Inr _ \<Rightarrow> failure) c)"

definition quorum_keys :: "(string \<times> u8 list) list" where
  "quorum_keys = map (\<lambda>i. (''kfail-'' @ show_nat i, literal_bytes ''x'')) [0..<10]"

definition test_quorum_impossible_with_two_down ::
  "instant \<Rightarrow> (string \<Rightarrow> u64) \<Rightarrow> (response \<Rightarrow> string) \<Rightarrow>
   ((string \<rightharpoonup> value_entry) \<Rightarrow> (string \<times> value_entry) list) \<Rightarrow> bool" where
  "test_quorum_impossible_with_two_down now h dbg it =
     (let tc = abort_node 2 (abort_node 1 (test_boot now h 3)); call = outside_call h dbg it
      in can_connect tc 0 \<and> fst (any_put_fails dbg (call 0) quorum_keys False (tc_nodes tc)))"

text \<open>\<open>order\<close> is the order in which the writes of the ten tasks are served.\<close>

definition concurrent_keys :: "(nat \<times> nat) list \<Rightarrow> (string \<times> u8 list) list" where
  "concurrent_keys order =
     map (\<lambda>(t, i). (''t'' @ show_nat t @ ''-k'' @ show_nat i, literal_bytes (''v'' @ show_nat t @ ''-'' @ show_nat i))) order"

fun count_missing ::
  "(response \<Rightarrow> string) \<Rightarrow> (request \<Rightarrow> cluster \<Rightarrow> (client_error + response) \<times> cluster) \<Rightarrow>
   string list \<Rightarrow> nat \<Rightarrow> cluster \<Rightarrow> nat option" where
  "count_missing dbg call [] missing c = Some missing"
| "count_missing dbg call (key # keys) missing c =
     (let (got, c) = client_get dbg call key c in
      case got of
        Inl _ \<Rightarrow> None
      | Inr data \<Rightarrow> count_missing dbg call keys (if data = None then missing + 1 else missing) c)"

definition test_concurrent_writes ::
  "(nat \<times> nat) list \<Rightarrow> instant \<Rightarrow> (string \<Rightarrow> u64) \<Rightarrow> (response \<Rightarrow> string) \<Rightarrow>
   ((string \<rightharpoonup> value_entry) \<Rightarrow> (string \<times> value_entry) list) \<Rightarrow> bool" where
  "test_concurrent_writes order now h dbg it =
     (let tc = test_boot now h 3; call = outside_call h dbg it;
          (puts, c) = put_all dbg (call 0) (concurrent_keys order) (tc_nodes tc)
      in can_connect tc 0 \<and> puts \<and> can_connect tc 2 \<and>
         count_missing dbg (call 2) (map fst (concurrent_keys (List.product [0..<10] [0..<30]))) 0 c = Some 0)"

section \<open>The nodes and the replicas of a key\<close>

abbreviation boot_names :: "nat \<Rightarrow> string set" where
  "boot_names n \<equiv> boot_name ` {0..<n}"

lemma boot_name_inject [simp]: "boot_name i = boot_name j \<longleftrightarrow> i = j"
  by (simp add: boot_name_def)

definition key_owners :: "(string \<Rightarrow> u64) \<Rightarrow> nat \<Rightarrow> string \<Rightarrow> string list" where
  "key_owners h n key = ring_get_nodes h key 2 (boot_ring h n)"

lemma boot_node_simps [simp]:
  "nd_storage (boot_node now h n i) = engine_new"
  "ks_node_id (nd_server (boot_node now h n i)) = of_nat (Suc i)"
  "rp_local_node_name (ks_replicator (nd_server (boot_node now h n i))) = boot_name i"
  "replicas_of h (ks_replicator (nd_server (boot_node now h n i))) key = key_owners h n key"
  "rp_write_quorum (ks_replicator (nd_server (boot_node now h n i))) = 2"
  "rp_peers (ks_replicator (nd_server (boot_node now h n i))) = boot_name ` ({0..<n} - {i})"
  by (simp_all add: boot_node_def Let_def kv_server_new_def replicator_new_def replicas_of_def key_owners_def)

lemma boot_nodes:
  "cl_nodes (boot_cluster now h n) m = Some nd \<longleftrightarrow> (\<exists>i < n. m = boot_name i \<and> nd = boot_node now h n i)"
proof -
  have "distinct (map fst (map (\<lambda>i. (boot_name i, boot_node now h n i)) [0..<n]))"
    by (simp add: comp_def distinct_map inj_on_def)
  from map_of_eq_Some_iff [OF this] show ?thesis by (auto simp: boot_cluster_def)
qed

lemma outside_calls:
  "client_put dbg (outside_call h dbg it i) key val c =
     (let (resp, c) = cluster_serve h dbg it 2 (boot_name i) (Put key val None) c in
      (case resp of Ack version _ \<Rightarrow> Inr version | Error e \<Rightarrow> Inl (Other e) | other \<Rightarrow> Inl (unexpected dbg other), c))"
  "client_get dbg (outside_call h dbg it i) key c =
     (let (resp, c) = cluster_serve h dbg it 2 (boot_name i) (Get key) c in
      (case resp of Value data _ \<Rightarrow> Inr data | Error e \<Rightarrow> Inl (Other e) | other \<Rightarrow> Inl (unexpected dbg other), c))"
  by (simp_all add: client_put_def client_put_with_ttl_def client_get_def outside_call_def split: prod.split)

lemma boot_ring_exact:
  assumes "collision_free h 150 (boot_names n)"
  shows "ring_exact h 150 (boot_names n) (boot_ring h n) \<and> set (hr_nodes (boot_ring h n)) = boot_names n"
proof -
  have "ring_exact h 150 (boot_names n) (foldl (\<lambda>ring j. ring_add_node h (boot_name j) ring) (ring_new 150) js) \<and>
      set (hr_nodes (foldl (\<lambda>ring j. ring_add_node h (boot_name j) ring) (ring_new 150) js)) = boot_name ` set js"
    if "set js \<subseteq> {0..<n}" for js
    using that
  proof (induction js rule: rev_induct)
    case Nil
    then show ?case by (simp add: ring_exact_new) (simp add: ring_new_def)
  next
    case (snoc j js)
    then show ?case using assms by (auto intro: ring_exact_add simp: hr_nodes_add)
  qed
  then show ?thesis unfolding boot_ring_def by simp
qed

lemma key_owners_pair:
  assumes "collision_free h 150 (boot_names n)" and "2 \<le> n"
  obtains p q where "key_owners h n key = [p, q]" "p \<noteq> q" "p \<in> boot_names n" "q \<in> boot_names n"
proof -
  note ring = boot_ring_exact [OF assms(1)]
  note reps = member_replicas [OF conjunct1 [OF ring] conjunct2 [OF ring]]
  have eq: "key_owners h n key = take 2 (preference h key (boot_ring h n))"
    unfolding key_owners_def by (rule reps(1))
  have "card (boot_names n) = n" by (simp add: card_image inj_on_def)
  then have "length (key_owners h n key) = 2" using reps(3) assms(2) by (simp add: eq)
  then obtain p q where pq: "key_owners h n key = [p, q]"
    by (auto simp: numeral_2_eq_2 length_Suc_conv)
  have "distinct (key_owners h n key)" by (simp add: eq distinct_preference)
  moreover have "set (key_owners h n key) \<subseteq> boot_names n"
    using reps(2) [of key] set_take_subset [of 2 "preference h key (boot_ring h n)"] unfolding eq by simp
  ultimately show thesis using that [OF pq] pq by simp
qed

section \<open>A cluster with some of its nodes\<close>

text \<open>The nodes as booted, those of \<open>dead\<close> gone, no call pending.\<close>

definition booted :: "instant \<Rightarrow> (string \<Rightarrow> u64) \<Rightarrow> nat \<Rightarrow> nat set \<Rightarrow> cluster \<Rightarrow> bool" where
  "booted now h n dead c \<longleftrightarrow>
     quiet c \<and> cl_clock c = now \<and>
     (\<forall>m. map_option nd_server (cl_nodes c m) =
        (if m \<in> boot_name ` dead then None
         else map_option nd_server (cl_nodes (boot_cluster now h n) m)))"

lemma bootedD:
  "booted now h n dead c \<Longrightarrow> map_option nd_server (cl_nodes c m) =
     (if m \<in> boot_name ` dead then None else map_option nd_server (cl_nodes (boot_cluster now h n) m))"
  by (simp add: booted_def)

lemma booted_gone: "booted now h n dead c \<Longrightarrow> i \<in> dead \<Longrightarrow> cl_nodes c (boot_name i) = None"
  using bootedD [of now h n dead c "boot_name i"] by simp

lemma booted_boot: "booted now h n {} (boot_cluster now h n)"
  by (simp add: booted_def quiet_def boot_cluster_def)

lemma booted_same: "booted now h n dead c \<Longrightarrow> quiet c' \<Longrightarrow> same_servers c c' \<Longrightarrow> booted now h n dead c'"
  by (simp add: booted_def same_servers_def)

lemma booted_crash: "booted now h n dead c \<Longrightarrow> booted now h n (insert i dead) (crash_node i c)"
  using booted_gone [of now h n dead c] by (auto simp: booted_def quiet_def crash_node_def)

lemma booted_view:
  assumes "booted now h n dead c"
  shows "same_view h c key (key_owners h n key)"
  unfolding same_view_def
proof (intro allI impI)
  fix m nd assume nd: "cl_nodes c m = Some nd"
  then have "map_option nd_server (cl_nodes (boot_cluster now h n) m) = Some (nd_server nd)"
    using bootedD [OF assms, of m] by (simp split: if_splits)
  then obtain i where "i < n" "m = boot_name i" "nd_server nd = nd_server (boot_node now h n i)"
    by (auto simp: boot_nodes)
  then show "rp_local_node_name (ks_replicator (nd_server nd)) = m \<and>
      replicas_of h (ks_replicator (nd_server nd)) key = key_owners h n key" by simp
qed

lemma booted_node:
  assumes "booted now h n dead c" and "i < n" and "i \<notin> dead"
  obtains nd where "cl_nodes c (boot_name i) = Some nd" "nd_server nd = nd_server (boot_node now h n i)"
proof -
  have "map_option nd_server (cl_nodes c (boot_name i)) = Some (nd_server (boot_node now h n i))"
    using assms boot_nodes [of now h n "boot_name i" "boot_node now h n i"] by (auto simp: booted_def)
  with that show thesis by auto
qed

lemma boot_peers: "i < n \<Longrightarrow> set ps \<subseteq> boot_names n \<Longrightarrow>
  set ps - {boot_name i} \<subseteq> rp_peers (ks_replicator (nd_server (boot_node now h n i)))"
  by auto

section \<open>A write\<close>

lemma booted_put:
  assumes free: "collision_free h 150 (boot_names n)" and n: "2 \<le> n" and c: "booted now h n {} c" and i: "i < n"
    and fresh: "\<And>m. stored c m key = None"
  obtains c' v where "cluster_serve h dbg it 2 (boot_name i) (Put key val None) c = (Ack v (of_nat (Suc i)), c')"
    and "booted now h n {} c'"
    and "\<And>m. m \<in> set (key_owners h n key) \<Longrightarrow> stored c' m key = Some (replica_value now val v None)"
    and "\<And>m k. k \<noteq> key \<Longrightarrow> stored c' m k = stored c m k"
proof -
  obtain p q where pq: "key_owners h n key = [p, q]" "p \<noteq> q" "p \<in> boot_names n" "q \<in> boot_names n"
    by (rule key_owners_pair [OF free n])
  note view = booted_view [OF c, of key, unfolded pq(1)]
  have quiet: "quiet c" and clock: "cl_clock c = now" using c by (simp_all add: booted_def)
  obtain nd where nd: "cl_nodes c (boot_name i) = Some nd" "nd_server nd = nd_server (boot_node now h n i)"
    by (rule booted_node [OF c i]) simp_all
  have "cl_nodes c (boot_name j) \<noteq> None" if "j < n" for j
    using booted_node [OF c that] by (metis empty_iff option.distinct(1))
  then have alive: "\<forall>m \<in> set [p, q]. cl_nodes c m \<noteq> None" using pq(3,4) by auto
  show thesis
  proof (cases "boot_name i \<in> set [p, q]")
    case True
    have "set [p, q] - {boot_name i} \<subseteq> rp_peers (ks_replicator (nd_server nd))"
      using boot_peers [OF i, of "[p, q]"] pq(3,4) nd(2) by simp
    note put = quiet_put [OF quiet view True _ nd(1) refl this alive _ refl, of dbg it 1 val None, unfolded clock]
    have "distinct [p, q]" "rp_write_quorum (ks_replicator (nd_server nd)) \<le> length [p, q]"
      using pq(2) nd(2) by simp_all
    then obtain c' where c':
      "cluster_serve h dbg it (Suc 1) (boot_name i) (Put key val None) c =
         (Ack (se_version_counter (nd_storage nd) + 1) (ks_node_id (nd_server nd)), c')"
      "quiet c'" "same_servers c c'"
      "\<And>m. m \<in> set [p, q] \<Longrightarrow> stored c' m key =
         (if m = boot_name i then Some (replica_value now val (se_version_counter (nd_storage nd) + 1) None)
          else newer (stored c m key) (replica_value now val (se_version_counter (nd_storage nd) + 1) None))"
      "\<And>m k. k \<noteq> key \<or> m \<notin> set [p, q] \<Longrightarrow> stored c' m k = stored c m k"
      by (rule put) (rule that)
    show thesis
      by (rule that [of "se_version_counter (nd_storage nd) + 1" c'])
         (use c'(1,4,5) booted_same [OF c c'(2,3)] nd(2) pq(1) in \<open>auto simp: fresh numeral_2_eq_2\<close>)
  next
    case False
    obtain j where j: "j < n" "p = boot_name j" using pq(3) by auto
    obtain ndp where ndp: "cl_nodes c p = Some ndp" "nd_server ndp = nd_server (boot_node now h n j)"
      using booted_node [OF c j(1)] j(2) by auto
    have "set [p, q] \<subseteq> rp_peers (ks_replicator (nd_server nd))"
      using boot_peers [OF i, of "[p, q]" now h] pq(3,4) nd(2) False by auto
    moreover have "set [q] \<subseteq> rp_peers (ks_replicator (nd_server ndp))"
      using boot_peers [OF j(1), of "[q]" now h] pq(2,4) ndp(2) j(2) by auto
    moreover have "rp_write_quorum (ks_replicator (nd_server nd)) \<le> length [p, q]"
      "rp_write_quorum (ks_replicator (nd_server ndp)) \<le> length [p, q]" using nd(2) ndp(2) by simp_all
    ultimately obtain c' where c':
      "cluster_serve h dbg it (Suc (Suc 0)) (boot_name i) (Put key val None) c =
         (Ack (se_version_counter (nd_storage ndp) + 1) (ks_node_id (nd_server nd)), c')"
      "quiet c'" "same_servers c c'"
      "\<And>m. m \<in> set [p, q] \<Longrightarrow> stored c' m key =
         Some (replica_value now val (se_version_counter (nd_storage ndp) + 1) None)"
      "\<And>m k. k \<noteq> key \<or> m \<notin> set [p, q] \<Longrightarrow> stored c' m k = stored c m k"
      using forwarded_put [OF quiet view False refl _ nd(1) ndp(1) _ _ alive _ _ refl, of dbg it 0 val None]
        pq(2) by (auto simp: fresh clock)
    show thesis
      by (rule that [of "se_version_counter (nd_storage ndp) + 1" c'])
         (use c'(1,4,5) booted_same [OF c c'(2,3)] nd(2) pq(1) in \<open>auto simp: numeral_2_eq_2\<close>)
  qed
qed

text \<open>The pairs of \<open>S\<close> are stored on the owners that are left.\<close>

definition keeps ::
  "instant \<Rightarrow> (string \<Rightarrow> u64) \<Rightarrow> nat \<Rightarrow> nat set \<Rightarrow> (string \<times> u8 list) set \<Rightarrow> cluster \<Rightarrow> bool" where
  "keeps now h n dead S c \<longleftrightarrow> booted now h n dead c \<and>
     (\<forall>k v i. (k, v) \<in> S \<longrightarrow> i \<notin> dead \<longrightarrow> boot_name i \<in> set (key_owners h n k) \<longrightarrow>
        (\<exists>ver. stored c (boot_name i) k = Some (replica_value now v ver None)))"

lemma keeps_boot: "keeps now h n {} {} (boot_cluster now h n)"
  by (simp add: keeps_def booted_boot)

lemma stored_boot: "stored (boot_cluster now h n) m key = None"
  using boot_nodes [of now h n m] by (auto simp: stored_def engine_new_def split: option.split)

lemma keeps_crash: "keeps now h n dead S c \<Longrightarrow> keeps now h n (insert i dead) S (crash_node i c)"
  using booted_crash [of now h n dead c i] by (auto simp: keeps_def crash_node_def stored_def)

lemma keeps_put:
  assumes "collision_free h 150 (boot_names n)" and "2 \<le> n" and "keeps now h n {} S c" and "i < n"
    and fresh: "\<And>m. stored c m key = None"
  obtains c' v where "client_put dbg (outside_call h dbg it i) key val c = (Inr v, c')"
    and "keeps now h n {} (insert (key, val) S) c'" and "\<And>m k. k \<noteq> key \<Longrightarrow> stored c' m k = stored c m k"
proof -
  have c: "booted now h n {} c" using assms(3) by (simp add: keeps_def)
  obtain c' v where put: "cluster_serve h dbg it 2 (boot_name i) (Put key val None) c = (Ack v (of_nat (Suc i)), c')"
    and c': "booted now h n {} c'"
    and at: "\<And>m. m \<in> set (key_owners h n key) \<Longrightarrow> stored c' m key = Some (replica_value now val v None)"
    and other: "\<And>m k. k \<noteq> key \<Longrightarrow> stored c' m k = stored c m k"
    using booted_put [OF assms(1,2) c assms(4) fresh, of dbg it val] by metis
  have "(k, v') \<in> S \<Longrightarrow> boot_name j \<in> set (key_owners h n k) \<Longrightarrow> k \<noteq> key" for k v' j
    using assms(3) fresh unfolding keeps_def by (metis empty_iff option.distinct(1))
  then have "keeps now h n {} (insert (key, val) S) c'"
    using assms(3) c' at other by (auto simp: keeps_def)
  moreover have "client_put dbg (outside_call h dbg it i) key val c = (Inr v, c')"
    by (simp add: outside_calls put)
  ultimately show thesis using that other by metis
qed

lemma put_all_keeps:
  assumes "collision_free h 150 (boot_names n)" and "2 \<le> n" and "i < n"
  shows "keeps now h n {} S c \<Longrightarrow> distinct (map fst kvs) \<Longrightarrow> (\<And>m k. k \<in> fst ` set kvs \<Longrightarrow> stored c m k = None) \<Longrightarrow>
    \<exists>c'. put_all dbg (outside_call h dbg it i) kvs c = (True, c') \<and>
      any_put_fails dbg (outside_call h dbg it i) kvs failure c = (failure, c') \<and> keeps now h n {} (S \<union> set kvs) c'"
proof (induction kvs arbitrary: S c)
  case Nil
  then show ?case by simp
next
  case (Cons kv kvs)
  obtain key val where kv: "kv = (key, val)" by fastforce
  obtain c1 v where c1: "client_put dbg (outside_call h dbg it i) key val c = (Inr v, c1)"
    "keeps now h n {} (insert (key, val) S) c1" "\<And>m k. k \<noteq> key \<Longrightarrow> stored c1 m k = stored c m k"
    by (rule keeps_put [OF assms(1,2) Cons.prems(1) assms(3), of key dbg it val])
       (use Cons.prems(3) kv in auto)
  have "stored c1 m k = None" if "k \<in> fst ` set kvs" for m k
  proof -
    have "k \<noteq> key" using that Cons.prems(2) kv by auto
    then show ?thesis using c1(3) Cons.prems(3) [of k m] that by simp
  qed
  with Cons.IH [OF c1(2)] Cons.prems(2) obtain c' where
    "put_all dbg (outside_call h dbg it i) kvs c1 = (True, c')"
    "any_put_fails dbg (outside_call h dbg it i) kvs failure c1 = (failure, c')"
    "keeps now h n {} (insert (key, val) S \<union> set kvs) c'" by auto
  with c1(1) kv show ?case by auto
qed

section \<open>A read\<close>

lemma keeps_get:
  assumes free: "collision_free h 150 (boot_names n)" and n: "2 \<le> n" and c: "keeps now h n dead S c"
    and g: "g < n" "g \<notin> dead" and kv: "(key, val) \<in> S" and one: "dead \<subseteq> {d}"
  obtains c' where "client_get dbg (outside_call h dbg it g) key c = (Inr (Some val), c')" and "keeps now h n dead S c'"
proof -
  obtain p q where pq: "key_owners h n key = [p, q]" "p \<noteq> q" "p \<in> boot_names n" "q \<in> boot_names n"
    by (rule key_owners_pair [OF free n])
  obtain i j where ij: "i < n" "j < n" "p = boot_name i" "q = boot_name j" "i \<noteq> j" using pq(2-4) by auto
  have bt: "booted now h n dead c" using c by (simp add: keeps_def)
  then have quiet: "quiet c" and clock: "cl_clock c = now" by (simp_all add: booted_def)
  note view = booted_view [OF bt, of key, unfolded pq(1)]
  obtain gone s rest where split: "[p, q] = gone @ boot_name s # rest" "s < n" "s \<notin> dead"
    "set gone \<subseteq> boot_name ` ({0..<n} \<inter> dead - {s} - {g})"
  proof (cases "i \<in> dead")
    case True
    then have "dead = {i}" using one by auto
    then show thesis using that [of "[p]" j "[]"] ij g(2) by auto
  next
    case False
    then show thesis using that [of "[]" i "[q]"] ij by auto
  qed
  obtain nds where s: "cl_nodes c (boot_name s) = Some nds" "nd_server nds = nd_server (boot_node now h n s)"
    by (rule booted_node [OF bt split(2,3)])
  obtain ndg where ndg: "cl_nodes c (boot_name g) = Some ndg" "nd_server ndg = nd_server (boot_node now h n g)"
    by (rule booted_node [OF bt g])
  have "boot_name s \<in> set (key_owners h n key)" using pq(1) split(1) by (metis in_set_conv_decomp)
  then obtain ver where ver: "stored c (boot_name s) key = Some (replica_value now val ver None)"
    using c kv split(3) unfolding keeps_def by blast
  have dead: "\<forall>y \<in> set gone. cl_nodes c y = None"
  proof
    fix y assume "y \<in> set gone"
    then obtain l where "y = boot_name l" "l \<in> dead" using split(4) by auto
    then show "cl_nodes c y = None" using booted_gone [OF bt] by simp
  qed
  have peers: "set gone \<subseteq> rp_peers (ks_replicator (nd_server nds))" using split(4) s(2) by auto
  have peers': "insert (boot_name s) (set gone) - {boot_name g} \<subseteq> rp_peers (ks_replicator (nd_server ndg))"
    using split(2,4) ndg(2) by auto
  have live: "\<not> is_expired (cl_clock c) (replica_value now val ver None)" by (simp add: clock)
  have val: "ve_data (replica_value now val ver None) = val" by (simp add: replica_value_def)
  obtain c' where c': "cluster_serve h dbg it (Suc (Suc 0)) (boot_name g) (Get key) c = (Value (Some val) 0, c')" "kept c c'"
    by (rule survivor_get [OF quiet view [unfolded split(1)] s(1) ndg(1) dead peers peers' ver live,
          of dbg it 0, unfolded val]) (rule that)
  have "keeps now h n dead S c'"
    using c keptD(1,2,4) [OF c'(2)] booted_same [OF bt] quiet by (simp add: keeps_def quiet_calm)
  moreover have "client_get dbg (outside_call h dbg it g) key c = (Inr (Some val), c')"
    using c'(1) by (simp add: outside_calls numeral_2_eq_2)
  ultimately show thesis using that by blast
qed

text \<open>Reads of several keys, each from any node that is left.\<close>

fun get_all ::
  "(response \<Rightarrow> string) \<Rightarrow> (nat \<Rightarrow> request \<Rightarrow> cluster \<Rightarrow> (client_error + response) \<times> cluster) \<Rightarrow>
   (nat \<times> string) list \<Rightarrow> cluster \<Rightarrow> (client_error + u8 list option) list \<times> cluster" where
  "get_all dbg call [] c = ([], c)"
| "get_all dbg call ((g, key) # gks) c =
     (let (got, c) = client_get dbg (call g) key c; (gots, c) = get_all dbg call gks c in (got # gots, c))"

text \<open>The results of writes made one after the other.\<close>

fun put_each ::
  "(response \<Rightarrow> string) \<Rightarrow> (request \<Rightarrow> cluster \<Rightarrow> (client_error + response) \<times> cluster) \<Rightarrow>
   (string \<times> u8 list) list \<Rightarrow> cluster \<Rightarrow> (client_error + u64) list" where
  "put_each dbg call [] c = []"
| "put_each dbg call ((key, val) # kvs) c =
     (let (put, c) = client_put dbg call key val c in put # put_each dbg call kvs c)"

lemma get_all_keeps:
  assumes "collision_free h 150 (boot_names n)" and "2 \<le> n" and "dead \<subseteq> {d}"
  shows "keeps now h n dead S c \<Longrightarrow> list_all (\<lambda>(g, k, v). g < n \<and> g \<notin> dead \<and> (k, v) \<in> S) gkvs \<Longrightarrow>
    fst (get_all dbg (outside_call h dbg it) (map (\<lambda>(g, k, v). (g, k)) gkvs) c) = map (\<lambda>(g, k, v). Inr (Some v)) gkvs"
proof (induction gkvs arbitrary: c)
  case Nil
  then show ?case by simp
next
  case (Cons gkv gkvs)
  obtain g k v where gkv: "gkv = (g, k, v)" by (metis prod_cases3)
  obtain c' where "client_get dbg (outside_call h dbg it g) k c = (Inr (Some v), c')" "keeps now h n dead S c'"
    by (rule keeps_get [OF assms(1,2) Cons.prems(1) _ _ _ assms(3), of g k v dbg it]) (use Cons.prems(2) gkv in auto)
  with Cons.IH Cons.prems(2) gkv show ?case by (simp add: split_beta)
qed

lemma count_found_keeps:
  assumes "collision_free h 150 (boot_names 3)"
  shows "keeps now h 3 {} S c \<Longrightarrow> set keys \<subseteq> fst ` S \<Longrightarrow>
    fst (count_found dbg (outside_call h dbg it) keys n c) = n + length keys"
proof (induction keys arbitrary: n c)
  case Nil
  then show ?case by simp
next
  case (Cons key keys)
  obtain v where v: "(key, v) \<in> S" using Cons.prems(2) by auto
  obtain c1 where c1: "client_get dbg (outside_call h dbg it 0) key c = (Inr (Some v), c1)" "keeps now h 3 {} S c1"
    by (rule keeps_get [OF assms _ Cons.prems(1) _ _ v]) auto
  obtain c2 where "client_get dbg (outside_call h dbg it 2) key c1 = (Inr (Some v), c2)" "keeps now h 3 {} S c2"
    by (rule keeps_get [OF assms _ c1(2) _ _ v]) auto
  with c1 Cons show ?case by simp
qed

lemma reads_back_keeps:
  assumes "collision_free h 150 (boot_names n)" and "2 \<le> n" and "(key, val) \<in> S"
  shows "keeps now h n {} S c \<Longrightarrow> set is \<subseteq> {0..<n} \<Longrightarrow> fst (reads_back dbg (outside_call h dbg it) key val is c)"
proof (induction "is" arbitrary: c)
  case Nil
  then show ?case by simp
next
  case (Cons i "is")
  obtain c' where "client_get dbg (outside_call h dbg it i) key c = (Inr (Some val), c')" "keeps now h n {} S c'"
    by (rule keeps_get [OF assms(1,2) Cons.prems(1) _ _ assms(3)]) (use Cons.prems(2) in auto)
  with Cons show ?case by simp
qed

lemma count_missing_keeps:
  assumes "collision_free h 150 (boot_names n)" and "2 \<le> n" and "g < n"
  shows "keeps now h n {} S c \<Longrightarrow> set keys \<subseteq> fst ` S \<Longrightarrow>
    count_missing dbg (outside_call h dbg it g) keys m c = Some m"
proof (induction keys arbitrary: c)
  case Nil
  then show ?case by simp
next
  case (Cons key keys)
  obtain v where v: "(key, v) \<in> S" using Cons.prems(2) by auto
  obtain c1 where "client_get dbg (outside_call h dbg it g) key c = (Inr (Some v), c1)" "keeps now h n {} S c1"
    by (rule keeps_get [OF assms(1,2) Cons.prems(1) assms(3) _ v]) auto
  with Cons show ?case by simp
qed

lemma boot_put_all:
  assumes "collision_free h 150 (boot_names n)" and "2 \<le> n" and "i < n" and "distinct (map fst kvs)"
  obtains c where "put_all dbg (outside_call h dbg it i) kvs (boot_cluster now h n) = (True, c)"
    and "any_put_fails dbg (outside_call h dbg it i) kvs failure (boot_cluster now h n) = (failure, c)"
    and "keeps now h n {} (set kvs) c"
  using put_all_keeps [OF assms(1-3) keeps_boot assms(4), where dbg = dbg and it = it and failure = failure] that
  by (auto simp: stored_boot)

lemma can_connect_simps [simp]:
  "can_connect (test_boot now h n) i \<longleftrightarrow> i < n"
  "can_connect (abort_node j tc) i \<longleftrightarrow> i \<noteq> j \<and> can_connect tc i"
  "tc_nodes (test_boot now h n) = boot_cluster now h n" "tc_nodes (abort_node j tc) = tc_nodes tc"
  by (auto simp: can_connect_def test_boot_def abort_node_def)

lemma concurrent_keys_simps [simp]:
  "map fst (concurrent_keys order) = map (\<lambda>(t, i). ''t'' @ show_nat t @ ''-k'' @ show_nat i) order"
  by (simp add: concurrent_keys_def split_beta)

lemma distinct_keys:
  "distinct (map fst crash_keys)" "distinct (map fst quorum_keys)"
  by (simp_all add: crash_keys_def quorum_keys_def comp_def distinct_map inj_on_def)

lemma booted_crashes: "booted now h n dead c \<Longrightarrow> booted now h n (set js \<union> dead) (fold crash_node js c)"
proof (induction js arbitrary: dead c)
  case (Cons j js)
  from Cons.IH [OF booted_crash [OF Cons.prems, of j]] show ?case by simp
qed simp

lemma lone_put_each:
  assumes free: "collision_free h 150 (boot_names n)" and n: "2 \<le> n" and i: "i < n"
  shows "booted now h n ({0..<n} - {i}) c \<Longrightarrow> list_all isl (put_each dbg (outside_call h dbg it i) kvs c)"
proof (induction kvs arbitrary: c)
  case Nil
  then show ?case by simp
next
  case (Cons kv kvs)
  obtain key val where kv: "kv = (key, val)" by fastforce
  obtain p q where pq: "key_owners h n key = [p, q]" "p \<noteq> q" "p \<in> boot_names n" "q \<in> boot_names n"
    by (rule key_owners_pair [OF free n])
  obtain nd where nd: "cl_nodes c (boot_name i) = Some nd" "nd_server nd = nd_server (boot_node now h n i)"
    by (rule booted_node [OF Cons.prems i]) simp
  have quiet: "quiet c" using Cons.prems by (simp add: booted_def)
  have peers: "set [p, q] - {boot_name i} \<subseteq> rp_peers (ks_replicator (nd_server nd))"
    using boot_peers [OF i, of "[p, q]" now h] pq(3,4) nd(2) by simp
  have gone: "\<forall>y \<in> set [p, q] - {boot_name i}. cl_nodes c y = None"
  proof
    fix y assume "y \<in> set [p, q] - {boot_name i}"
    then obtain j where "y = boot_name j" "j \<in> {0..<n} - {i}" using pq(3,4) by auto
    then show "cl_nodes c y = None" using booted_gone [OF Cons.prems] by simp
  qed
  have need: "1 < rp_write_quorum (ks_replicator (nd_server nd))" using nd(2) by simp
  obtain e c' where "cluster_serve h dbg it (Suc 1) (boot_name i) (Put key val None) c = (Error e, c')"
    "quiet c'" "same_servers c c'"
    by (rule lone_put [OF quiet booted_view [OF Cons.prems, of key, unfolded pq(1)] _ nd(1) peers gone need,
          of dbg it 1 val None]) (simp, rule that)
  then show ?case
    using Cons.IH [OF booted_same [OF Cons.prems]] kv by (simp add: outside_calls numeral_2_eq_2)
qed

text \<open>The nodes of a cluster of three, with the hash of \<open>NodeMain\<close>.\<close>

lemma id_hash_boot: "collision_free id_hash 150 (boot_names 3)"
proof -
  have hash: "id_hash (vnode_key (boot_name j) v) = of_nat (49 + j)" if "j < 3" for j v
  proof -
    have names: "boot_name 0 = ''node-1''" "boot_name (Suc 0) = ''node-2''" "boot_name 2 = ''node-3''"
      using digit_char_literals(4,5) by (simp_all add: boot_name_def show_nat.simps numeral_2_eq_2 numeral_3_eq_3)
    have "j = 0 \<or> j = 1 \<or> j = 2" using that by auto
    then show ?thesis by (auto simp: id_hash_def vnode_key_def names)
  qed
  have "of_nat (49 + j) \<noteq> (of_nat (49 + l) :: u64)" if "j < 3" "l < 3" "j \<noteq> l" for j l
  proof -
    have "j \<in> {0, 1, 2}" "l \<in> {0, 1, 2}" using that by auto
    with that(3) show ?thesis by auto
  qed
  then show ?thesis by (auto simp: collision_free_def hash)
qed

section \<open>Properties\<close>

text \<open>C5. Loss of a node: in a cluster of at least two nodes, started by the tests' \<open>boot_cluster\<close> with
  a hash that puts no two nodes at one position, every PUT of a list of distinct keys through any
  one node succeeds, and after the crash of any one node every value is read back through any other
  node.\<close>

theorem crashed_cluster_keeps_writes:
  assumes "collision_free h 150 (boot_names n)" and "2 \<le> n" and "e < n" and "distinct (map fst kvs)"
    and "list_all (\<lambda>(g, k, v). g < n \<and> g \<noteq> d \<and> (k, v) \<in> set kvs) gkvs"
  shows "\<exists>c. put_all dbg (outside_call h dbg it e) kvs (boot_cluster now h n) = (True, c) \<and>
    fst (get_all dbg (outside_call h dbg it) (map (\<lambda>(g, k, v). (g, k)) gkvs) (crash_node d c)) =
      map (\<lambda>(g, k, v). Inr (Some v)) gkvs"
proof -
  obtain c where put: "put_all dbg (outside_call h dbg it e) kvs (boot_cluster now h n) = (True, c)"
    and c: "keeps now h n {} (set kvs) c"
    by (rule boot_put_all [OF assms(1-4), where dbg = dbg and it = it and now = now]) (rule that)
  have "fst (get_all dbg (outside_call h dbg it) (map (\<lambda>(g, k, v). (g, k)) gkvs) (crash_node d c)) =
      map (\<lambda>(g, k, v). Inr (Some v)) gkvs"
    by (rule get_all_keeps [OF assms(1,2) _ keeps_crash [OF c]]) (use assms(5) in \<open>auto simp: list.pred_set\<close>)
  with put show ?thesis by blast
qed

theorem crashed_cluster_keeps_writes_witness:
  "\<exists>c. put_all (\<lambda>_. []) (outside_call id_hash (\<lambda>_. []) (\<lambda>_. []) 0) [(''a'', [1]), (''b'', [2])] (boot_cluster 0 id_hash 3) = (True, c) \<and>
    fst (get_all (\<lambda>_. []) (outside_call id_hash (\<lambda>_. []) (\<lambda>_. [])) [(0, ''a''), (2, ''b'')] (crash_node 1 c)) =
      [Inr (Some [1]), Inr (Some [2])]"
  using crashed_cluster_keeps_writes [OF id_hash_boot, where e = 0 and d = 1 and now = 0 and dbg = "\<lambda>_. []" and
      it = "\<lambda>_. []" and kvs = "[(''a'', [1]), (''b'', [2])]" and gkvs = "[(0, ''a'', [1]), (2, ''b'', [2])]"]
  by simp

text \<open>C6. No quorum on a lone node: when every node but one has crashed, every PUT to the one left is
  refused, whether or not it is a replica of the key.\<close>

theorem lone_node_refuses_writes:
  assumes "collision_free h 150 (boot_names n)" and "2 \<le> n" and "i < n"
  shows "list_all isl (put_each dbg (outside_call h dbg it i) kvs
    (fold crash_node (filter (\<lambda>j. j \<noteq> i) [0..<n]) (boot_cluster now h n)))"
proof (rule lone_put_each [OF assms])
  have "set (filter (\<lambda>j. j \<noteq> i) [0..<n]) \<union> {} = {0..<n} - {i}" by auto
  then show "booted now h n ({0..<n} - {i}) (fold crash_node (filter (\<lambda>j. j \<noteq> i) [0..<n]) (boot_cluster now h n))"
    using booted_crashes [OF booted_boot] by metis
qed

theorem lone_node_refuses_writes_witness:
  "list_all isl (put_each (\<lambda>_. []) (outside_call id_hash (\<lambda>_. []) (\<lambda>_. []) 0) [(''a'', [1]), (''b'', [2])]
    (crash_node 2 (crash_node 1 (boot_cluster 0 id_hash 3))))"
proof -
  have js: "filter (\<lambda>j. j \<noteq> 0) [0..<3] = [1, 2 :: nat]" by code_simp
  have "list_all isl (put_each (\<lambda>_. []) (outside_call id_hash (\<lambda>_. []) (\<lambda>_. []) 0) [(''a'', [1]), (''b'', [2])]
      (fold crash_node (filter (\<lambda>j. j \<noteq> 0) [0..<3]) (boot_cluster 0 id_hash 3)))"
    by (rule lone_node_refuses_writes [OF id_hash_boot]) simp_all
  then show ?thesis unfolding js by (simp only: fold.simps comp_def id_apply)
qed

text \<open>The tests of the repository: for every hash that puts no two of the three nodes at one
  position, and every order of the concurrent writes, \<open>test_three_nodes_put_get\<close>,
  \<open>test_node_crash_resilience\<close> and \<open>test_concurrent_writes\<close> pass.\<close>

theorem integration_tests_pass:
  assumes "collision_free h 150 (boot_names 3)" and "distinct order" and "set order = {0..<10} \<times> {0..<30}"
  shows "test_three_nodes_put_get now h dbg it \<and> test_node_crash_resilience now h dbg it \<and>
    test_concurrent_writes order now h dbg it"
proof (intro conjI)
  obtain c v where "client_put dbg (outside_call h dbg it 0) ''user:42'' (literal_bytes ''alice'') (boot_cluster now h 3) = (Inr v, c)"
    "keeps now h 3 {} {(''user:42'', literal_bytes ''alice'')} c"
    by (rule keeps_put [OF assms(1) _ keeps_boot]) (auto simp: stored_boot)
  moreover from this(2) have "fst (reads_back dbg (outside_call h dbg it) ''user:42'' (literal_bytes ''alice'') [0..<3] c)"
    by (rule reads_back_keeps [OF assms(1), rotated 2]) auto
  ultimately show "test_three_nodes_put_get now h dbg it"
    by (simp add: test_three_nodes_put_get_def Let_def list.pred_set)
next
  obtain c where "put_all dbg (outside_call h dbg it 0) crash_keys (boot_cluster now h 3) = (True, c)"
    "keeps now h 3 {} (set crash_keys) c"
    by (rule boot_put_all [OF assms(1) _ _ distinct_keys(1), where i = 0 and dbg = dbg and it = it and now = now]) auto
  moreover from this(2) have "fst (count_found dbg (outside_call h dbg it) (map fst crash_keys) 0 c) = 50"
    by (subst count_found_keeps [OF assms(1)]) (simp_all, (simp add: crash_keys_def)+)
  ultimately show "test_node_crash_resilience now h dbg it"
    by (simp add: test_node_crash_resilience_def Let_def)
next
  have "distinct (map fst (concurrent_keys order))"
    using assms(2) dash_key_inject by (auto simp: distinct_map inj_on_def)
  then obtain c where "put_all dbg (outside_call h dbg it 0) (concurrent_keys order) (boot_cluster now h 3) = (True, c)"
    and c: "keeps now h 3 {} (set (concurrent_keys order)) c"
    by (rule boot_put_all [OF assms(1), where i = 0 and dbg = dbg and it = it and now = now, rotated 2]) auto
  moreover have "fst ` set (concurrent_keys order) =
      set (map fst (concurrent_keys (List.product [0..<10] [0..<30])))"
    using assms(3) by (simp add: concurrent_keys_def image_image split_beta)
  then have "count_missing dbg (outside_call h dbg it 2) (map fst (concurrent_keys (List.product [0..<10] [0..<30]))) 0 c = Some 0"
    by (intro count_missing_keeps [OF assms(1) _ _ c]) auto
  ultimately show "test_concurrent_writes order now h dbg it"
    by (simp add: test_concurrent_writes_def Let_def)
qed

theorem integration_tests_pass_witness:
  "test_three_nodes_put_get 0 id_hash (\<lambda>_. []) (\<lambda>_. []) \<and> test_node_crash_resilience 0 id_hash (\<lambda>_. []) (\<lambda>_. []) \<and>
   test_concurrent_writes (List.product [0..<10] [0..<30]) 0 id_hash (\<lambda>_. []) (\<lambda>_. [])"
  by (rule integration_tests_pass [OF id_hash_boot]) (simp_all add: distinct_product)



end
