(* ===== verification/UnitTests.thy ===== *)
theory UnitTests
  imports Startup
begin

text \<open>
  The unit tests of \<open>tp-kv-distributed/src\<close>, as functions of what a run leaves open: the instants
  at which the calls read the clock, the order in which the map is iterated, the hash of the ring,
  the serializer, and the order of concurrent writes. The value is whether the assertions hold.
  The tests that measure a distribution (\<open>test_distribution_balanced\<close> and
  \<open>test_minimal_redistribution_on_add\<close>) depend on the values of the standard library's hash and are
  left out.
\<close>

section \<open>storage.rs\<close>

type_synonym map_order = "(string \<rightharpoonup> value_entry) \<Rightarrow> (string \<times> value_entry) list"

definition test_put_get_roundtrip :: "instant \<Rightarrow> instant \<Rightarrow> bool" where
  "test_put_get_roundtrip t0 t1 =
     (let s = engine_new;
          (v, s) = engine_put t0 ''hello'' (literal_bytes ''world'') None s;
          (got, s) = engine_get t1 ''hello'' s
      in v = 1 \<and>
         (case got of None \<Rightarrow> False | Some e \<Rightarrow> ve_data e = literal_bytes ''world'' \<and> ve_version e = 1))"

definition test_get_missing :: "instant \<Rightarrow> bool" where
  "test_get_missing t0 =
     (let s = engine_new;
          (got, s) = engine_get t0 ''absent'' s;
          snap = stats_take_snapshot (se_stats s)
      in got = None \<and> ss_misses snap = 1 \<and> ss_hits snap = 0)"

definition test_delete_existing :: "instant \<Rightarrow> instant \<Rightarrow> bool" where
  "test_delete_existing t0 t1 =
     (let s = engine_new;
          (_, s) = engine_put t0 ''k'' (literal_bytes ''v'') None s;
          (deleted, s) = engine_delete ''k'' s;
          (got, s) = engine_get t1 ''k'' s
      in deleted \<and> got = None)"

definition test_delete_missing :: bool where
  "test_delete_missing = (let s = engine_new; (deleted, s) = engine_delete ''nope'' s in \<not> deleted)"

definition test_version_monotonic :: "instant \<Rightarrow> instant \<Rightarrow> instant \<Rightarrow> bool" where
  "test_version_monotonic t1 t2 t3 =
     (let s = engine_new;
          (v1, s) = engine_put t1 ''a'' (literal_bytes ''1'') None s;
          (v2, s) = engine_put t2 ''b'' (literal_bytes ''2'') None s;
          (v3, s) = engine_put t3 ''a'' (literal_bytes ''3'') None s
      in v2 > v1 \<and> v3 > v2)"

text \<open>The instants of the PUT and of the three reads.\<close>

definition test_ttl_expiration :: "instant \<Rightarrow> instant \<Rightarrow> instant \<Rightarrow> instant \<Rightarrow> bool" where
  "test_ttl_expiration t0 t1 t2 t3 =
     (let s = engine_new;
          (_, s) = engine_put t0 ''temp'' (literal_bytes ''x'') (Some (duration_from_millis 10)) s;
          (got1, s) = engine_get t1 ''temp'' s;
          (got2, s) = engine_get t2 ''temp'' s;
          (got3, s) = engine_get t3 ''temp'' s
      in got1 \<noteq> None \<and> got2 = None \<and> got3 = None)"

definition test_scan_prefix :: "instant \<Rightarrow> instant \<Rightarrow> instant \<Rightarrow> (string \<Rightarrow> instant) \<Rightarrow> map_order \<Rightarrow> bool" where
  "test_scan_prefix t1 t2 t3 clk it =
     (let s = engine_new;
          (_, s) = engine_put t1 ''user:1'' (literal_bytes ''a'') None s;
          (_, s) = engine_put t2 ''user:2'' (literal_bytes ''b'') None s;
          (_, s) = engine_put t3 ''post:1'' (literal_bytes ''c'') None s;
          users = engine_scan clk ''user:'' 10 (it (se_store s))
      in length users = 2 \<and> fst (users ! 0) = ''user:1'' \<and> fst (users ! 1) = ''user:2'')"

definition test_scan_limit :: "(nat \<Rightarrow> instant) \<Rightarrow> (string \<Rightarrow> instant) \<Rightarrow> map_order \<Rightarrow> bool" where
  "test_scan_limit t clk it =
     (let s = foldl (\<lambda>s i. snd (engine_put (t i) (''k'' @ show_nat i) [of_nat i] None s)) engine_new [0..<10];
          r = engine_scan clk ''k'' 3 (it (se_store s))
      in length r = 3)"

definition test_put_with_version_idempotent :: "instant \<Rightarrow> instant \<Rightarrow> instant \<Rightarrow> instant \<Rightarrow> bool" where
  "test_put_with_version_idempotent t1 t2 t3 t4 =
     (let s = engine_new;
          (a, s) = engine_put_with_version t1 ''k'' (literal_bytes ''a'') 5 None s;
          (b, s) = engine_put_with_version t2 ''k'' (literal_bytes ''b'') 3 None s;
          (c, s) = engine_put_with_version t3 ''k'' (literal_bytes ''c'') 7 None s;
          (got, s) = engine_get t4 ''k'' s
      in a \<and> \<not> b \<and> c \<and>
         (case got of None \<Rightarrow> False | Some e \<Rightarrow> ve_data e = literal_bytes ''c'' \<and> ve_version e = 7))"

text \<open>\<open>order\<close> is the order in which the writes of the ten threads take effect.\<close>

definition storage_test_concurrent_writes :: "(nat \<times> nat) list \<Rightarrow> (nat \<times> nat \<Rightarrow> instant) \<Rightarrow> bool" where
  "storage_test_concurrent_writes order clk =
     (let s = foldl (\<lambda>s (t, i). snd (engine_put (clk (t, i)) (''t'' @ show_nat t @ ''-k'' @ show_nat i) [of_nat t] None s))
                engine_new order;
          snap = stats_take_snapshot (se_stats s)
      in engine_len s = 10 * 1000 \<and> ss_puts snap = 10000)"

definition test_purge_expired :: "instant \<Rightarrow> instant \<Rightarrow> (string \<Rightarrow> instant) \<Rightarrow> instant \<Rightarrow> map_order \<Rightarrow> bool" where
  "test_purge_expired t0 t1 clk t2 it =
     (let s = engine_new;
          (_, s) = engine_put t0 ''a'' (literal_bytes ''x'') (Some (duration_from_millis 5)) s;
          (_, s) = engine_put t1 ''b'' (literal_bytes ''y'') None s;
          (purged, s) = engine_purge_expired clk (it (se_store s)) s;
          (a, s) = engine_get t2 ''a'' s;
          (b, s) = engine_get t2 ''b'' s
      in purged = 1 \<and> a = None \<and> b \<noteq> None)"

section \<open>consistent\_hash.rs\<close>

definition ring_of :: "(string \<Rightarrow> u64) \<Rightarrow> usize \<Rightarrow> string list \<Rightarrow> chring" where
  "ring_of h virtual_nodes ns = foldl (\<lambda>r n. ring_add_node h n r) (ring_new virtual_nodes) ns"

definition test_get_node_stability :: "(string \<Rightarrow> u64) \<Rightarrow> bool" where
  "test_get_node_stability h =
     (let r = ring_of h 150 [''n1'', ''n2'', ''n3''];
          n1 = ring_get_node h ''user:42'' r;
          n2 = ring_get_node h ''user:42'' r
      in n1 \<noteq> None \<and> n2 \<noteq> None \<and> n1 = n2)"

definition test_get_nodes_distinct :: "(string \<Rightarrow> u64) \<Rightarrow> bool" where
  "test_get_nodes_distinct h =
     (let r = ring_of h 150 [''a'', ''b'', ''c''];
          replicas = ring_get_nodes h ''clef'' 2 r
      in length replicas = 2 \<and> replicas ! 0 \<noteq> replicas ! 1)"

definition test_get_nodes_more_than_available :: "(string \<Rightarrow> u64) \<Rightarrow> bool" where
  "test_get_nodes_more_than_available h =
     (let r = ring_of h 50 [''a'', ''b'']; replicas = ring_get_nodes h ''x'' 5 r in length replicas = 2)"

definition test_empty_ring :: "(string \<Rightarrow> u64) \<Rightarrow> bool" where
  "test_empty_ring h =
     (let r = ring_new 150 in ring_get_node h ''any'' r = None \<and> ring_get_nodes h ''any'' 3 r = [])"

definition test_remove_node :: "(string \<Rightarrow> u64) \<Rightarrow> bool" where
  "test_remove_node h =
     (let r = ring_of h 50 [''a'', ''b'', ''c''];
          r' = ring_remove_node ''b'' r
      in ring_node_count r = 3 \<and> ring_node_count r' = 2 \<and>
         list_all (\<lambda>i. ring_get_node h (''k-'' @ show_nat i) r' \<in> {Some ''a'', Some ''c''}) [0..<100])"

definition test_idempotent_add :: "(string \<Rightarrow> u64) \<Rightarrow> bool" where
  "test_idempotent_add h = (let r = ring_of h 10 [''a'', ''a''] in ring_node_count r = 1)"

section \<open>replication.rs\<close>

text \<open>A replicator on its own: the world is its storage, and there is no peer to call.\<close>

definition local_env :: "instant \<Rightarrow> storage_engine node_env" where
  "local_env now =
     \<lparr>ne_storage = (\<lambda>s. s), ne_set_storage = (\<lambda>s _. s), ne_now = (\<lambda>_. now),
      ne_deadline = (\<lambda>_ _ _ s. (Finishes, s)),
      ne_call = (\<lambda>_ _ s. (Inl (Wire ''connection refused''), s))\<rparr>"

definition make_local_only_replicator :: "(string \<Rightarrow> u64) \<Rightarrow> replicator" where
  "make_local_only_replicator h =
     (let ring = ring_add_node h ''self'' (ring_new 50);
          r = replicator_new 1 ''self'' ring {}
      in r\<lparr>rp_replication_factor := 1, rp_write_quorum := 1\<rparr>)"

definition test_put_get_local_only :: "(string \<Rightarrow> u64) \<Rightarrow> (response \<Rightarrow> string) \<Rightarrow> instant \<Rightarrow> instant \<Rightarrow> bool" where
  "test_put_get_local_only h dbg t0 t1 =
     (let r = make_local_only_replicator h;
          (v, s) = put_replicated h dbg (local_env t0) r ''hello'' (literal_bytes ''world'') None engine_new;
          (got, s) = get_replicated h dbg (local_env t1) r ''hello'' s
      in v = Inr 1 \<and> got = Inr (Some (literal_bytes ''world'')))"

definition test_quorum_impossible :: "(string \<Rightarrow> u64) \<Rightarrow> (response \<Rightarrow> string) \<Rightarrow> instant \<Rightarrow> bool" where
  "test_quorum_impossible h dbg t0 =
     (let r = make_local_only_replicator h;
          r = r\<lparr>rp_write_quorum := 3\<rparr>;
          (result, s) = put_replicated h dbg (local_env t0) r ''k'' (literal_bytes ''v'') None engine_new
      in case result of Inl (QuorumNotMet _ _) \<Rightarrow> True | _ \<Rightarrow> False)"

definition test_delete_local :: "(string \<Rightarrow> u64) \<Rightarrow> (response \<Rightarrow> string) \<Rightarrow> instant \<Rightarrow> instant \<Rightarrow> bool" where
  "test_delete_local h dbg t0 t1 =
     (let r = make_local_only_replicator h;
          (v, s) = put_replicated h dbg (local_env t0) r ''k'' (literal_bytes ''v'') None engine_new;
          (deleted, s) = delete_replicated h dbg (local_env t0) r ''k'' s;
          (got, s) = get_replicated h dbg (local_env t1) r ''k'' s
      in \<not> isl v \<and> deleted = Inr True \<and> got = Inr None)"

section \<open>server.rs\<close>

text \<open>A server on its own, asked by one client.\<close>

definition boot_single_node_server :: "instant \<Rightarrow> (string \<Rightarrow> u64) \<Rightarrow> cluster" where
  "boot_single_node_server now h =
     (let server = kv_server_new now 1 (make_local_only_replicator h)
      in \<lparr>cl_nodes = [''self'' \<mapsto> \<lparr>nd_server = server, nd_storage = engine_new, nd_metrics = metrics_new now 1\<rparr>],
          cl_unread = (\<lambda>_. []), cl_busy = {}, cl_fates = [], cl_clock = now\<rparr>)"

definition self_call ::
  "(string \<Rightarrow> u64) \<Rightarrow> (response \<Rightarrow> string) \<Rightarrow> map_order \<Rightarrow> request \<Rightarrow> cluster \<Rightarrow> (client_error + response) \<times> cluster" where
  "self_call h dbg it req c = (let (resp, c) = cluster_serve h dbg it 0 ''self'' req c in (Inr resp, c))"

definition test_server_put_get :: "(string \<Rightarrow> u64) \<Rightarrow> (response \<Rightarrow> string) \<Rightarrow> map_order \<Rightarrow> instant \<Rightarrow> bool" where
  "test_server_put_get h dbg it now =
     (let call = self_call h dbg it;
          (v, c) = client_put dbg call ''hello'' (literal_bytes ''world'') (boot_single_node_server now h);
          (got, c) = client_get dbg call ''hello'' c
      in (case v of Inl _ \<Rightarrow> False | Inr v \<Rightarrow> v \<ge> 1) \<and> got = Inr (Some (literal_bytes ''world'')))"

definition test_server_delete :: "(string \<Rightarrow> u64) \<Rightarrow> (response \<Rightarrow> string) \<Rightarrow> map_order \<Rightarrow> instant \<Rightarrow> bool" where
  "test_server_delete h dbg it now =
     (let call = self_call h dbg it;
          (v, c) = client_put dbg call ''k'' (literal_bytes ''v'') (boot_single_node_server now h);
          (deleted, c) = client_delete dbg call ''k'' c;
          (got, c) = client_get dbg call ''k'' c
      in \<not> isl v \<and> deleted = Inr True \<and> got = Inr None)"

section \<open>protocol.rs and metrics.rs\<close>

text \<open>What the reader of the connection receives after the writer has closed it.\<close>

definition received :: "('m \<Rightarrow> string + u8 list) \<Rightarrow> (u8 list \<Rightarrow> string + 'm) \<Rightarrow> 'm \<Rightarrow> 'm option" where
  "received ser de m =
     (case write_message ser m of
        Inl _ \<Rightarrow> None
      | Inr bs \<Rightarrow> (case read_message de bs of Inl _ \<Rightarrow> None | Inr (m, _) \<Rightarrow> Some m))"

definition test_roundtrip_get_request :: "(request \<Rightarrow> string + u8 list) \<Rightarrow> (u8 list \<Rightarrow> string + request) \<Rightarrow> bool" where
  "test_roundtrip_get_request ser de =
     (case received ser de (Get ''hello'') of Some (Get key) \<Rightarrow> key = ''hello'' | _ \<Rightarrow> False)"

definition test_roundtrip_put_request :: "(request \<Rightarrow> string + u8 list) \<Rightarrow> (u8 list \<Rightarrow> string + request) \<Rightarrow> bool" where
  "test_roundtrip_put_request ser de =
     (case received ser de (Put ''k'' (literal_bytes ''v'') (Some 5000)) of
        Some (Put key val ttl_ms) \<Rightarrow> key = ''k'' \<and> val = literal_bytes ''v'' \<and> ttl_ms = Some 5000
      | _ \<Rightarrow> False)"

definition test_roundtrip_response :: "(response \<Rightarrow> string + u8 list) \<Rightarrow> (u8 list \<Rightarrow> string + response) \<Rightarrow> bool" where
  "test_roundtrip_response ser de =
     (case received ser de (Ack 42 1) of Some (Ack version node_id) \<Rightarrow> version = 42 \<and> node_id = 1 | _ \<Rightarrow> False)"

definition test_oversized_frame_rejected :: "(u8 list \<Rightarrow> string + request) \<Rightarrow> bool" where
  "test_oversized_frame_rejected de =
     (let too_big = of_nat (MAX_FRAME_SIZE + 1) in isl (read_message de (to_be_bytes too_big)))"

definition test_ewma_replication_lag :: "instant \<Rightarrow> bool" where
  "test_ewma_replication_lag now =
     (let m = metrics_new now 1;
          m = update_replication_lag 10 m;
          m = update_replication_lag 20 m;
          m = update_replication_lag 30 m;
          lag_us = mt_replication_lag_us m
      in lag_us > 10000 \<and> lag_us < 30000)"

section \<open>Lemmas\<close>

lemma ring_of_exact:
  assumes "collision_free h v (set ns)"
  shows "ring_exact h v (set ns) (ring_of h v ns)" "set (hr_nodes (ring_of h v ns)) = set ns"
proof -
  have "ring_exact h v (set ns) (foldl (\<lambda>r n. ring_add_node h n r) (ring_new v) ms) \<and>
      set (hr_nodes (foldl (\<lambda>r n. ring_add_node h n r) (ring_new v) ms)) = set ms" if "set ms \<subseteq> set ns" for ms
    using that
  proof (induction ms rule: rev_induct)
    case Nil
    then show ?case by (simp add: ring_exact_new) (simp add: ring_new_def)
  next
    case (snoc m ms)
    then show ?case using assms by (auto intro: ring_exact_add simp: hr_nodes_add)
  qed
  from this [of ns] show "ring_exact h v (set ns) (ring_of h v ns)" "set (hr_nodes (ring_of h v ns)) = set ns"
    by (simp_all add: ring_of_def)
qed

lemma ring_of_preference:
  assumes "collision_free h v (set ns)" and "0 < v"
  shows "ring_get_nodes h key cnt (ring_of h v ns) = take cnt (preference h key (ring_of h v ns))"
    "set (preference h key (ring_of h v ns)) = set ns"
    "length (preference h key (ring_of h v ns)) = card (set ns)"
proof -
  note ring = ring_of_exact [OF assms(1)]
  show "ring_get_nodes h key cnt (ring_of h v ns) = take cnt (preference h key (ring_of h v ns))"
    using ring(1) by (simp add: ring_exact_def ring_get_nodes_eq)
  show set: "set (preference h key (ring_of h v ns)) = set ns"
    using ring_exact_owners [OF ring(1) assms(2)] ring(2) by (simp add: set_preference)
  show "length (preference h key (ring_of h v ns)) = card (set ns)"
    using distinct_card [OF distinct_preference] set by metis
qed

lemma collision_free_mono:
  assumes "collision_free h v ns" and "v' \<le> v" and "ns' \<subseteq> ns"
  shows "collision_free h v' ns'"
  unfolding collision_free_def
proof (intro ballI impI)
  fix n m assume "n \<in> ns'" "m \<in> ns'" "n \<noteq> m"
  with assms(1,3) have "(\<lambda>i. h (vnode_key n i)) ` {0..<v} \<inter> (\<lambda>i. h (vnode_key m i)) ` {0..<v} = {}"
    unfolding collision_free_def by blast
  moreover have "{0..<v'} \<subseteq> {0..<v}" using assms(2) by auto
  ultimately show "(\<lambda>i. h (vnode_key n i)) ` {0..<v'} \<inter> (\<lambda>i. h (vnode_key m i)) ` {0..<v'} = {}" by blast
qed

lemma self_replicas: "replicas_of h (make_local_only_replicator h) key = [''self'']"
proof -
  have free: "collision_free h 50 (set [''self''])" by (simp add: collision_free_def)
  note pref = ring_of_preference [OF free, of key]
  have "length (preference h key (ring_of h 50 [''self''])) = 1" "set (preference h key (ring_of h 50 [''self''])) = {''self''}"
    using pref by simp_all
  then have "preference h key (ring_of h 50 [''self'']) = [''self'']"
    by (cases "preference h key (ring_of h 50 [''self''])") simp_all
  then show ?thesis
    using pref(1) [of 1]
    by (simp add: replicas_of_def make_local_only_replicator_def replicator_new_def ring_of_def)
qed

lemma make_local_only_simps [simp]:
  "rp_local_node_name (make_local_only_replicator h) = ''self''"
  "rp_write_quorum (make_local_only_replicator h) = 1"
  "replicas_of h (make_local_only_replicator h) key = [''self'']"
  "replicas_of h (make_local_only_replicator h\<lparr>rp_write_quorum := q\<rparr>) key = [''self'']"
  using self_replicas [of h key]
  by (simp_all add: replicas_of_def) (simp_all add: make_local_only_replicator_def replicator_new_def)

lemma local_env_simps [simp]:
  "ne_storage (local_env now) s = s" "ne_set_storage (local_env now) s s' = s" "ne_now (local_env now) s = now"
  by (simp_all add: local_env_def)

abbreviation puts where
  "puts c k d xs s \<equiv> foldl (\<lambda>s x. snd (engine_put (c x) (k x) (d x) None s)) s xs"

lemma puts_store:
  "dom (se_store (puts c k d xs s)) = dom (se_store s) \<union> k ` set xs"
  "st_puts (se_stats (puts c k d xs s)) = st_puts (se_stats s) + of_nat (length xs)"
  "\<forall>e \<in> ran (se_store s). ve_ttl e = None \<Longrightarrow> \<forall>e \<in> ran (se_store (puts c k d xs s)). ve_ttl e = None"
  by (induction xs rule: rev_induct) (auto simp: engine_put_def Let_def ran_def)

lemma test_scan_limit:
  assumes it: "\<forall>m. finite (dom m) \<longrightarrow> iterates m (it m)"
  shows "test_scan_limit t clk it"
proof -
  define s where "s = foldl (\<lambda>s i. snd (engine_put (t i) (''k'' @ show_nat i) [of_nat i] None s)) engine_new [0..<10]"
  have dom: "dom (se_store s) = (\<lambda>i. ''k'' @ show_nat i) ` {0..<10}"
    unfolding s_def by (subst puts_store) (simp add: engine_new_def)
  have ttl: "\<forall>e \<in> ran (se_store s). ve_ttl e = None"
    unfolding s_def by (rule puts_store(3)) (simp add: engine_new_def)
  have "finite (dom (se_store s))" by (simp add: dom)
  note items = iteratesD [OF it [rule_format, OF this]]
  have "scan_match clk ''k'' ke" if "ke \<in> set (it (se_store s))" for ke
  proof -
    have "ke \<in> {(k, e). se_store s k = Some e}" using that items(3) by simp
    then obtain k e where ke: "ke = (k, e)" "se_store s k = Some e" by blast
    then have "k \<in> dom (se_store s)" "ve_ttl e = None" using ttl by (auto simp: ran_def)
    then show ?thesis by (auto simp: ke dom scan_match_def is_expired_def)
  qed
  then have "filter (scan_match clk ''k'') (it (se_store s)) = it (se_store s)" by simp
  moreover have "length (it (se_store s)) = 10"
    unfolding items(4) dom by (subst card_image) (simp_all add: inj_on_def)
  ultimately have "length (engine_scan clk ''k'' 3 (it (se_store s))) = 3" by (simp add: engine_scan_eq)
  then show ?thesis unfolding test_scan_limit_def Let_def s_def .
qed

lemma storage_test_concurrent_writes:
  assumes "distinct order" "set order = {0..<10} \<times> {0..<1000}"
  shows "storage_test_concurrent_writes order clk"
proof -
  define s where "s = foldl (\<lambda>s (t, i). snd (engine_put (clk (t, i)) (''t'' @ show_nat t @ ''-k'' @ show_nat i) [of_nat t] None s))
                engine_new order"
  let ?k = "\<lambda>(t, i). ''t'' @ show_nat t @ ''-k'' @ show_nat i"
  have eq: "s = foldl (\<lambda>s x. snd (engine_put (clk x) (?k x) [of_nat (fst x)] None s)) engine_new order"
    unfolding s_def by (rule arg_cong3 [where f = foldl]) (auto simp: fun_eq_iff)
  have "dom (se_store s) = ?k ` set order"
    unfolding eq by (subst puts_store(1)) (simp add: engine_new_def)
  then have "card (dom (se_store s)) = card (set order)"
    using dash_key_inject by (simp, intro card_image) (auto simp: inj_on_def)
  also have "\<dots> = 10 * 1000" by (simp add: assms(2) card_cartesian_product)
  finally have len: "engine_len s = 10 * 1000" by (simp add: engine_len_def)
  have "length order = 10000"
    using distinct_card [OF assms(1)] by (simp add: assms(2) card_cartesian_product)
  moreover have "st_puts (se_stats s) = st_puts (se_stats engine_new) + of_nat (length order)"
    unfolding eq by (rule puts_store(2))
  ultimately have "ss_puts (stats_take_snapshot (se_stats s)) = 10000"
    by (simp add: stats_take_snapshot_def engine_new_def storage_stats_default_def)
  with len show ?thesis unfolding storage_test_concurrent_writes_def Let_def s_def by blast
qed

lemma test_scan_prefix:
  assumes it: "\<forall>m. finite (dom m) \<longrightarrow> iterates m (it m)"
  shows "test_scan_prefix t1 t2 t3 clk it"
proof -
  define s where "s = foldl (\<lambda>s (t, k, d). snd (engine_put t k (literal_bytes d) None s)) engine_new
     [(t1, ''user:1'', ''a''), (t2, ''user:2'', ''b''), (t3, ''post:1'', ''c'')]"
  let ?e = "\<lambda>t v d. \<lparr>ve_data = literal_bytes d, ve_version = v, ve_created_at = t, ve_ttl = None\<rparr>"
  have store: "se_store s = [''user:1'' \<mapsto> ?e t1 1 ''a'', ''user:2'' \<mapsto> ?e t2 2 ''b'', ''post:1'' \<mapsto> ?e t3 3 ''c'']"
    by (simp add: s_def engine_put_def engine_new_def Let_def)
  have "iterates (se_store s) (it (se_store s))" using it by (simp add: store)
  note scan = engine_scan_result [OF this, of clk "''user:''" 10]
  have "scan_matches clk ''user:'' s = {(''user:1'', ?e t1 1 ''a''), (''user:2'', ?e t2 2 ''b'')}"
    by (auto simp: scan_matches_def store is_expired_def split: if_splits)
  then have users: "set (engine_scan clk ''user:'' 10 (it (se_store s))) = {(''user:1'', ?e t1 1 ''a''), (''user:2'', ?e t2 2 ''b'')}"
    "length (engine_scan clk ''user:'' 10 (it (se_store s))) = 2"
    "sorted_wrt (<) (map fst (engine_scan clk ''user:'' 10 (it (se_store s))))"
    using scan by simp_all
  obtain x y where xy: "engine_scan clk ''user:'' 10 (it (se_store s)) = [x, y]"
    using users(2) by (auto simp: numeral_2_eq_2 length_Suc_conv)
  then have "fst x = ''user:1''" "fst y = ''user:2''"
    using users(1,3) by (auto simp: doubleton_eq_iff)
  with xy have "length (engine_scan clk ''user:'' 10 (it (se_store s))) = 2 \<and>
      fst (engine_scan clk ''user:'' 10 (it (se_store s)) ! 0) = ''user:1'' \<and>
      fst (engine_scan clk ''user:'' 10 (it (se_store s)) ! 1) = ''user:2''" by simp
  then show ?thesis by (simp add: test_scan_prefix_def s_def split_beta Let_def)
qed

lemma test_purge_expired:
  assumes it: "\<forall>m. finite (dom m) \<longrightarrow> iterates m (it m)" and ttl: "t0 + 5000000 < clk ''a''"
  shows "test_purge_expired t0 t1 clk t2 it"
proof -
  let ?a = "\<lparr>ve_data = literal_bytes ''x'', ve_version = 1, ve_created_at = t0, ve_ttl = Some 5000000\<rparr>"
  let ?b = "\<lparr>ve_data = literal_bytes ''y'', ve_version = 2, ve_created_at = t1, ve_ttl = None\<rparr>"
  define s where "s = snd (engine_put t1 ''b'' (literal_bytes ''y'') None
    (snd (engine_put t0 ''a'' (literal_bytes ''x'') (Some (duration_from_millis 5)) engine_new)))"
  have store: "se_store s = [''a'' \<mapsto> ?a, ''b'' \<mapsto> ?b]"
    by (simp add: s_def engine_put_def engine_new_def Let_def duration_from_millis_def)
  have "iterates (se_store s) (it (se_store s))" using it by (simp add: store)
  note purge = engine_purge_result [OF this surjective_pairing, of clk]
  have "{k. \<exists>e. se_store s k = Some e \<and> is_expired (clk k) e} = {''a''}"
    using ttl by (auto simp: store is_expired_def elapsed_def split: if_splits)
  then have "fst (engine_purge_expired clk (it (se_store s)) s) = 1" using purge by simp
  moreover have "se_store (snd (engine_purge_expired clk (it (se_store s)) s)) = [''b'' \<mapsto> ?b]"
    using purge ttl by (auto simp: store is_expired_def elapsed_def fun_eq_iff)
  ultimately show ?thesis
    by (simp add: test_purge_expired_def s_def split_beta Let_def engine_get_def is_expired_def)
qed

lemma ring_tests:
  assumes "collision_free h 150 {''n1'', ''n2'', ''n3''}" and "collision_free h 150 {''a'', ''b'', ''c''}"
  shows "test_get_node_stability h \<and> test_get_nodes_distinct h \<and> test_get_nodes_more_than_available h \<and>
    test_empty_ring h \<and> test_remove_node h \<and> test_idempotent_add h"
proof (intro conjI)
  have abc: "collision_free h 50 (set [''a'', ''b'', ''c''])"
    by (rule collision_free_mono [OF assms(2)]) (simp, simp only: list.set)
  have ab: "collision_free h 50 (set [''a'', ''b''])"
    by (rule collision_free_mono [OF assms(2)]) (simp, simp only: list.set, blast)
  have n: "collision_free h 150 (set [''n1'', ''n2'', ''n3''])" unfolding list.set by (rule assms(1))
  have a: "collision_free h 150 (set [''a'', ''b'', ''c''])" unfolding list.set by (rule assms(2))
  show "test_get_node_stability h"
  proof -
    let ?r = "ring_of h 150 [''n1'', ''n2'', ''n3'']"
    have "preference h ''user:42'' ?r \<noteq> []" using ring_of_preference(2) [OF n, of "''user:42''"] by force
    then have "ring_get_node h ''user:42'' ?r \<noteq> None"
      by (simp only: ring_get_node_preference split: list.split) simp
    then show ?thesis unfolding test_get_node_stability_def Let_def by blast
  qed
  show "test_get_nodes_distinct h"
  proof -
    let ?rs = "ring_get_nodes h ''clef'' 2 (ring_of h 150 [''a'', ''b'', ''c''])"
    have "length ?rs = 2" "distinct ?rs"
      using ring_of_preference(1,3) [OF a, of "''clef''"] by (simp_all add: distinct_preference)
    then show ?thesis by (simp add: test_get_nodes_distinct_def nth_eq_iff_index_eq)
  qed
  show "test_get_nodes_more_than_available h"
    using ring_of_preference(1,3) [OF ab, of "''x''"] by (simp add: test_get_nodes_more_than_available_def)
  show "test_empty_ring h" by (simp add: test_empty_ring_def ring_new_def ring_get_node_def ring_get_nodes_def)
  show "test_remove_node h"
  proof -
    let ?r = "ring_of h 50 [''a'', ''b'', ''c'']"
    have "ring_get_node h key (ring_remove_node ''b'' ?r) \<in> {Some ''a'', Some ''c''}" for key
    proof -
      have "set (preference h key (ring_remove_node ''b'' ?r)) = {''a'', ''c''}"
        using ring_of_preference(2) [OF abc, of key] by (auto simp: preference_remove)
      then show ?thesis
        by (cases "preference h key (ring_remove_node ''b'' ?r)") (auto simp: ring_get_node_preference)
    qed
    moreover have "ring_node_count ?r = 3" "ring_node_count (ring_remove_node ''b'' ?r) = 2"
      by (simp_all add: ring_of_def ring_add_node_def ring_remove_node_def ring_new_def ring_node_count_def Let_def)
    ultimately show ?thesis by (simp add: test_remove_node_def list.pred_True Let_def del: insert_iff)
  qed
  show "test_idempotent_add h"
    by (simp add: test_idempotent_add_def ring_of_def ring_add_node_def ring_new_def ring_node_count_def Let_def)
qed

lemma replicator_tests:
  "test_put_get_local_only h dbg t0 t1 \<and> test_quorum_impossible h dbg t0 \<and> test_delete_local h dbg t0 t1"
proof -
  show ?thesis
    by (simp add: test_put_get_local_only_def test_quorum_impossible_def test_delete_local_def put_replicated_def
        put_first_def get_replicated_def delete_replicated_def engine_put_def engine_get_def engine_delete_def
        is_expired_def engine_new_def Let_def)
qed

lemma server_tests: "test_server_put_get h dbg it now \<and> test_server_delete h dbg it now"
  by (simp add: test_server_put_get_def test_server_delete_def self_call_def boot_single_node_server_def
      client_put_def client_put_with_ttl_def client_get_def client_delete_def
      cluster_serve_def serve_with_def kv_server_new_def node_of_def put_replicated_def
        put_first_def get_replicated_def delete_replicated_def engine_put_def engine_get_def engine_delete_def
        is_expired_def engine_new_def Let_def)

lemma received_same:
  assumes "ser m = Inr payload" "de payload = Inr m" "length payload \<le> MAX_FRAME_SIZE"
  shows "received ser de m = Some m"
  using read_frame [where de = de and m = m and rest = "[]", OF assms(3,2)] assms by (simp add: received_def write_message_def Let_def)

lemma protocol_tests:
  assumes "\<And>m p. ser m = Inr p \<Longrightarrow> de p = Inr m" and "\<And>m p. ser' m = Inr p \<Longrightarrow> de' p = Inr m"
    and "ser (Get ''hello'') = Inr p1" "ser (Put ''k'' (literal_bytes ''v'') (Some 5000)) = Inr p2" "ser' (Ack 42 1) = Inr p3"
    and "length p1 \<le> MAX_FRAME_SIZE" "length p2 \<le> MAX_FRAME_SIZE" "length p3 \<le> MAX_FRAME_SIZE"
  shows "test_roundtrip_get_request ser de \<and> test_roundtrip_put_request ser de \<and> test_roundtrip_response ser' de' \<and>
    test_oversized_frame_rejected de"
  using received_same [where ser = ser and de = de, OF assms(3) assms(1) [OF assms(3)] assms(6)]
    received_same [where ser = ser and de = de, OF assms(4) assms(1) [OF assms(4)] assms(7)]
    received_same [where ser = ser' and de = de', OF assms(5) assms(2) [OF assms(5)] assms(8)]
  by (simp add: test_roundtrip_get_request_def test_roundtrip_put_request_def test_roundtrip_response_def)
     (simp add: test_oversized_frame_rejected_def read_message_def read_exact_def MAX_FRAME_SIZE_def)

lemma metrics_tests: "test_ewma_replication_lag now"
  by (simp add: test_ewma_replication_lag_def metrics_new_def update_replication_lag_def saturating_mul_def saturating_add_def Let_def)

section \<open>Properties\<close>

text \<open>The storage engine's unit tests pass whatever the instants of their calls, the iteration order
  of the map and the order of the concurrent writes, except that \<open>test_ttl_expiration\<close> and
  \<open>test_purge_expired\<close> depend on the clock: they pass when the first read comes within the TTL and
  the sleeps last longer than it.\<close>

theorem storage_tests_pass:
  assumes it: "\<forall>m. finite (dom m) \<longrightarrow> iterates m (it m)"
    and order: "distinct order" "set order = {0..<10} \<times> {0..<1000}"
    and ttl: "t1 \<le> t0 + 10000000" "t0 + 10000000 < t2" "t0 + 5000000 < clk ''a''"
  shows "test_put_get_roundtrip t0 t1 \<and> test_get_missing t0 \<and> test_delete_existing t0 t1 \<and> test_delete_missing \<and>
    test_version_monotonic t0 t1 t2 \<and> test_ttl_expiration t0 t1 t2 t3 \<and> test_scan_prefix t0 t1 t2 clk it \<and>
    test_scan_limit t clk it \<and> test_put_with_version_idempotent t0 t1 t2 t3 \<and>
    storage_test_concurrent_writes order clks \<and> test_purge_expired t0 t1 clk t2 it"
proof -
  have "10000000 < t2 - t0" "\<not> 10000000 < t1 - t0" using ttl(1,2) by arith+
  then show ?thesis
  using test_scan_prefix [OF it, of t0 t1 t2 clk] test_scan_limit [OF it, of t clk]
    storage_test_concurrent_writes [OF order, of clks] test_purge_expired [where clk = clk, OF it ttl(3), of t1 t2]
  by (simp add: test_put_get_roundtrip_def test_get_missing_def test_delete_existing_def test_delete_missing_def
      test_version_monotonic_def test_ttl_expiration_def test_put_with_version_idempotent_def
      engine_put_def engine_get_def engine_delete_def engine_put_with_version_def engine_new_def storage_stats_default_def
      stats_take_snapshot_def is_expired_def elapsed_def duration_from_millis_def Let_def)
qed

text \<open>The entries of a map by increasing key, as an iteration order.\<close>

definition by_key :: map_order where
  "by_key m = map (\<lambda>k. (k, the (m k))) (sorted_list_of_set (dom m))"

lemma iterates_by_key: "finite (dom m) \<Longrightarrow> iterates m (by_key m)"
  by (auto simp: iterates_def by_key_def comp_def map_of_map_keys restrict_map_def fun_eq_iff domIff)

theorem storage_tests_pass_witness:
  "test_ttl_expiration 0 1 20000000 20000001 \<and> test_scan_prefix 0 1 20000000 (\<lambda>_. 9000000) by_key \<and>
   storage_test_concurrent_writes (List.product [0..<10] [0..<1000]) (\<lambda>_. 5) \<and>
   test_purge_expired 0 1 (\<lambda>_. 9000000) 20000000 by_key"
  using storage_tests_pass [where it = by_key and order = "List.product [0..<10] [0..<1000]" and ?t0.0 = 0 and
      ?t1.0 = 1 and ?t2.0 = 20000000 and ?t3.0 = 20000001 and clk = "\<lambda>_. 9000000" and clks = "\<lambda>_. 5"]
    iterates_by_key by (simp add: distinct_product)

text \<open>The other unit tests pass for every hash that puts no two nodes of a test at one position, and
  for every serializer that reads back what it writes and writes the three messages of the tests
  in a frame: the ring's, the framing's, the replicator's, the server's and the lag's.\<close>

theorem module_tests_pass:
  assumes "collision_free h 150 {''n1'', ''n2'', ''n3''}" and "collision_free h 150 {''a'', ''b'', ''c''}"
    and "\<And>m p. ser m = Inr p \<Longrightarrow> de p = Inr m" and "\<And>m p. ser' m = Inr p \<Longrightarrow> de' p = Inr m"
    and "ser (Get ''hello'') = Inr p1" "ser (Put ''k'' (literal_bytes ''v'') (Some 5000)) = Inr p2" "ser' (Ack 42 1) = Inr p3"
    and "length p1 \<le> MAX_FRAME_SIZE" "length p2 \<le> MAX_FRAME_SIZE" "length p3 \<le> MAX_FRAME_SIZE"
  shows "(test_get_node_stability h \<and> test_get_nodes_distinct h \<and> test_get_nodes_more_than_available h \<and>
      test_empty_ring h \<and> test_remove_node h \<and> test_idempotent_add h) \<and>
    (test_put_get_local_only h dbg t0 t1 \<and> test_quorum_impossible h dbg t0 \<and> test_delete_local h dbg t0 t1) \<and>
    (test_server_put_get h dbg it t0 \<and> test_server_delete h dbg it t0) \<and>
    (test_roundtrip_get_request ser de \<and> test_roundtrip_put_request ser de \<and> test_roundtrip_response ser' de' \<and>
      test_oversized_frame_rejected de) \<and>
    test_ewma_replication_lag t0"
  using ring_tests [OF assms(1,2)] replicator_tests server_tests protocol_tests [where ser = ser and de = de and ser' = ser' and de' = de', OF assms(3-10)] metrics_tests
  by blast

text \<open>A hash that tells the nodes of the tests apart, and a serializer that knows three messages.\<close>

definition two_hash :: "string \<Rightarrow> u64" where
  "two_hash s = of_nat (of_char (s ! 0)) * 256 + of_nat (of_char (s ! 1))"

definition tiny_ser :: "request \<Rightarrow> string + u8 list" where
  "tiny_ser m = (if m = Get ''hello'' then Inr [0] else if m = Put ''k'' (literal_bytes ''v'') (Some 5000) then Inr [1]
     else Inl ''unsupported'')"

definition tiny_de :: "u8 list \<Rightarrow> string + request" where
  "tiny_de bs = (if bs = [0] then Inr (Get ''hello'') else if bs = [1] then Inr (Put ''k'' (literal_bytes ''v'') (Some 5000))
     else Inl ''unexpected end'')"

definition ack_ser :: "response \<Rightarrow> string + u8 list" where
  "ack_ser m = (if m = Ack 42 1 then Inr [2] else Inl ''unsupported'')"

definition ack_de :: "u8 list \<Rightarrow> string + response" where
  "ack_de bs = (if bs = [2] then Inr (Ack 42 1) else Inl ''unexpected end'')"

lemma two_hash_free:
  "collision_free two_hash v {''n1'', ''n2'', ''n3''}" "collision_free two_hash v {''a'', ''b'', ''c''}"
  by (auto simp: collision_free_def two_hash_def vnode_key_def)

theorem module_tests_pass_witness:
  "test_get_nodes_distinct two_hash \<and> test_remove_node two_hash \<and> test_delete_local two_hash (\<lambda>_. []) 0 1 \<and>
   test_server_delete two_hash (\<lambda>_. []) (\<lambda>_. []) 0 \<and> test_roundtrip_put_request tiny_ser tiny_de \<and>
   test_roundtrip_response ack_ser ack_de"
proof -
  have "\<And>m p. tiny_ser m = Inr p \<Longrightarrow> tiny_de p = Inr m" "\<And>m p. ack_ser m = Inr p \<Longrightarrow> ack_de p = Inr m"
    by (auto simp: tiny_ser_def tiny_de_def ack_ser_def ack_de_def split: if_splits)
  moreover have "tiny_ser (Get ''hello'') = Inr [0]" "tiny_ser (Put ''k'' (literal_bytes ''v'') (Some 5000)) = Inr [1]"
    "ack_ser (Ack 42 1) = Inr [2]"
    by (simp_all add: tiny_ser_def ack_ser_def)
  ultimately show ?thesis
    using module_tests_pass [where h = two_hash and ser = tiny_ser and de = tiny_de and ser' = ack_ser and de' = ack_de and
        ?p1.0 = "[0]" and ?p2.0 = "[1]" and ?p3.0 = "[2]" and dbg = "\<lambda>_. []" and it = "\<lambda>_. []" and ?t0.0 = 0 and
        ?t1.0 = 1, OF two_hash_free]
    by (simp add: MAX_FRAME_SIZE_def)
qed

end
