(* ===== verification/WeakMemory.thy ===== *)
theory WeakMemory
  imports Prelude
begin

text \<open>
  \<open>demo_release_acquire\<close> of \<open>demos/src/bin/demo06_atomics_cas.rs\<close> on a weak memory: a producer stores
  the data with \<open>Relaxed\<close> and raises a flag with \<open>Release\<close>, a consumer spins on the flag with
  \<open>Acquire\<close> and then reads the data with \<open>Relaxed\<close>.

  The memory keeps every store to a location in modification order. A thread has a view, the
  oldest store to each location it may still read; a load returns any store from there on, which
  is how \<open>Relaxed\<close> loads see stale values. A \<open>Release\<close> store carries its thread's view, and an
  \<open>Acquire\<close> load that reads it takes the view over. Each location here has one writer, so a store
  goes to the end of the modification order.
\<close>

section \<open>Memory and views\<close>

datatype location = Data | Flag

datatype ordering = Relaxed | Acquire | Release

type_synonym view = "location \<Rightarrow> nat"

record message =
  ms_value :: u64
  ms_view :: view

type_synonym memory = "location \<Rightarrow> message list"

definition no_view :: view where
  "no_view = (\<lambda>_. 0)"

definition join_view :: "view \<Rightarrow> view \<Rightarrow> view" where
  "join_view v w = (\<lambda>x. max (v x) (w x))"

definition atomic_new :: "u64 \<Rightarrow> message list" where
  "atomic_new v = [\<lparr>ms_value = v, ms_view = no_view\<rparr>]"

definition atomic_store :: "ordering \<Rightarrow> location \<Rightarrow> u64 \<Rightarrow> view \<Rightarrow> memory \<Rightarrow> view \<times> memory" where
  "atomic_store ord x v view mem =
     (let view = view(x := length (mem x));
          carried = (if ord = Release then view else no_view)
      in (view, mem(x := mem x @ [\<lparr>ms_value = v, ms_view = carried\<rparr>])))"

text \<open>A load of the store at position \<open>t\<close> of the modification order; \<open>readable\<close> says which it may be.\<close>

definition readable :: "location \<Rightarrow> nat \<Rightarrow> view \<Rightarrow> memory \<Rightarrow> bool" where
  "readable x t view mem \<longleftrightarrow> view x \<le> t \<and> t < length (mem x)"

definition atomic_load :: "ordering \<Rightarrow> location \<Rightarrow> nat \<Rightarrow> view \<Rightarrow> memory \<Rightarrow> u64 \<times> view" where
  "atomic_load ord x t view mem =
     (let m = mem x ! t; view = view(x := t)
      in (ms_value m, if ord = Acquire then join_view view (ms_view m) else view))"

section \<open>The producer and the consumer\<close>

datatype producer_pc = Preparing | Publishing | Published

datatype consumer_pc = Spinning | Reading | Read u64

record publication =
  pb_memory :: memory
  pb_producer :: producer_pc
  pb_producer_view :: view
  pb_consumer :: consumer_pc
  pb_consumer_view :: view

definition publication_init :: publication where
  "publication_init =
     \<lparr>pb_memory = (\<lambda>_. atomic_new 0), pb_producer = Preparing, pb_producer_view = no_view,
      pb_consumer = Spinning, pb_consumer_view = no_view\<rparr>"

text \<open>The two closures, with the orderings of the flag's store and load as arguments; the code has
  \<open>Release\<close> and \<open>Acquire\<close>.\<close>

definition producer_step :: "ordering \<Rightarrow> publication \<Rightarrow> publication" where
  "producer_step store_ord s =
     (case pb_producer s of
        Preparing \<Rightarrow>
          (let (view, mem) = atomic_store Relaxed Data 0xDEADBEEF (pb_producer_view s) (pb_memory s)
           in s\<lparr>pb_memory := mem, pb_producer_view := view, pb_producer := Publishing\<rparr>)
      | Publishing \<Rightarrow>
          (let (view, mem) = atomic_store store_ord Flag 1 (pb_producer_view s) (pb_memory s)
           in s\<lparr>pb_memory := mem, pb_producer_view := view, pb_producer := Published\<rparr>)
      | Published \<Rightarrow> s)"

definition consumer_step :: "ordering \<Rightarrow> nat \<Rightarrow> publication \<Rightarrow> publication" where
  "consumer_step load_ord t s =
     (case pb_consumer s of
        Spinning \<Rightarrow>
          if readable Flag t (pb_consumer_view s) (pb_memory s) then
            (let (flag, view) = atomic_load load_ord Flag t (pb_consumer_view s) (pb_memory s)
             in s\<lparr>pb_consumer_view := view, pb_consumer := (if flag = 0 then Spinning else Reading)\<rparr>)
          else s
      | Reading \<Rightarrow>
          if readable Data t (pb_consumer_view s) (pb_memory s) then
            (let (val, view) = atomic_load Relaxed Data t (pb_consumer_view s) (pb_memory s)
             in s\<lparr>pb_consumer_view := view, pb_consumer := Read val\<rparr>)
          else s
      | Read _ \<Rightarrow> s)"

datatype publication_event = ProducerTurn | ConsumerTurn nat

fun publication_step :: "ordering \<Rightarrow> ordering \<Rightarrow> publication \<Rightarrow> publication_event \<Rightarrow> publication" where
  "publication_step store_ord load_ord s ProducerTurn = producer_step store_ord s"
| "publication_step store_ord load_ord s (ConsumerTurn t) = consumer_step load_ord t s"

definition demo_release_acquire :: "ordering \<Rightarrow> ordering \<Rightarrow> publication_event list \<Rightarrow> publication" where
  "demo_release_acquire store_ord load_ord evs =
     foldl (publication_step store_ord load_ord) publication_init evs"

definition value_read :: "publication \<Rightarrow> u64 option" where
  "value_read s = (case pb_consumer s of Read v \<Rightarrow> Some v | _ \<Rightarrow> None)"

section \<open>What the flag promises\<close>

text \<open>Only the first store to a location carries its initial value; a raised flag carries a view
  that has seen the data.\<close>

definition publication_inv :: "publication \<Rightarrow> bool" where
  "publication_inv s \<longleftrightarrow>
     pb_memory s Data =
       atomic_new 0 @ (if pb_producer s = Preparing then [] else [\<lparr>ms_value = 0xDEADBEEF, ms_view = no_view\<rparr>]) \<and>
     (\<exists>view. (pb_producer s \<noteq> Preparing \<longrightarrow> pb_producer_view s Data = 1) \<and> view Data = 1 \<and>
       pb_memory s Flag =
         atomic_new 0 @ (if pb_producer s = Published then [\<lparr>ms_value = 1, ms_view = view\<rparr>] else [])) \<and>
     pb_consumer_view s Data \<le> 1 \<and>
     (pb_consumer s = Reading \<longrightarrow> pb_consumer_view s Data = 1) \<and>
     (\<forall>v. pb_consumer s = Read v \<longrightarrow> v = 0xDEADBEEF)"

lemma publication_inv_init: "publication_inv publication_init"
  by (auto simp: publication_inv_def publication_init_def no_view_def intro: exI [of _ "\<lambda>_. 1"])

lemma producer_step_inv: "publication_inv s \<Longrightarrow> publication_inv (producer_step Release s)"
  by (cases "pb_producer s")
     (auto simp: publication_inv_def producer_step_def atomic_store_def Let_def atomic_new_def
       intro: exI [of _ "\<lambda>_. 1"])

lemma consumer_step_inv: "publication_inv s \<Longrightarrow> publication_inv (consumer_step Acquire t s)"
  by (cases "pb_consumer s")
     (auto simp: publication_inv_def consumer_step_def readable_def atomic_load_def Let_def atomic_new_def
       join_view_def no_view_def nth_append less_Suc_eq split: if_splits)

lemma publication_run_inv:
  "publication_inv s \<Longrightarrow> publication_inv (foldl (publication_step Release Acquire) s evs)"
proof (induction evs arbitrary: s)
  case (Cons ev evs)
  then show ?case by (cases ev) (simp_all add: producer_step_inv consumer_step_inv)
qed simp

text \<open>C21. With the orderings of the code, whatever the interleaving and whatever stale stores the loads
  return, the consumer reads the published value or has not read yet, and some execution does
  read it. With \<open>Relaxed\<close> on either side of the flag there is an execution in which the consumer
  sees the flag raised and then reads the initial zero.\<close>

theorem release_acquire_publishes:
  "value_read (demo_release_acquire Release Acquire evs) \<in> {None, Some 0xDEADBEEF} \<and>
   (\<exists>evs. value_read (demo_release_acquire Release Acquire evs) = Some 0xDEADBEEF) \<and>
   (\<exists>evs. value_read (demo_release_acquire Relaxed Acquire evs) = Some 0) \<and>
   (\<exists>evs. value_read (demo_release_acquire Release Relaxed evs) = Some 0)"
proof (intro conjI)
  have "publication_inv (demo_release_acquire Release Acquire evs)"
    unfolding demo_release_acquire_def by (rule publication_run_inv [OF publication_inv_init])
  then show "value_read (demo_release_acquire Release Acquire evs) \<in> {None, Some 0xDEADBEEF}"
    by (auto simp: publication_inv_def value_read_def split: consumer_pc.splits)
  note run = demo_release_acquire_def value_read_def publication_init_def producer_step_def
    consumer_step_def atomic_store_def atomic_load_def readable_def atomic_new_def join_view_def no_view_def
  show "\<exists>evs. value_read (demo_release_acquire Release Acquire evs) = Some 0xDEADBEEF"
    by (rule exI [of _ "[ConsumerTurn 0, ProducerTurn, ProducerTurn, ConsumerTurn 1, ConsumerTurn 1]"])
       (simp add: run Let_def)
  show "\<exists>evs. value_read (demo_release_acquire Relaxed Acquire evs) = Some 0"
    by (rule exI [of _ "[ProducerTurn, ProducerTurn, ConsumerTurn 1, ConsumerTurn 0]"])
       (simp add: run Let_def)
  show "\<exists>evs. value_read (demo_release_acquire Release Relaxed evs) = Some 0"
    by (rule exI [of _ "[ProducerTurn, ProducerTurn, ConsumerTurn 1, ConsumerTurn 0]"])
       (simp add: run Let_def)
qed

end
