(* ===== verification/LatencyStats.thy ===== *)
theory LatencyStats
  imports Atomics
begin

text \<open>
  The lock-free request statistics of \<open>demos/src/bin/exo06_stats.rs\<close> and
  \<open>demos/src/bin/demo06_atomics_cas.rs\<close>, and the mutex variant they are compared with.

  A \<open>record\<close> call of the atomic variant is a sequence of atomic operations on separate cells
  (\<open>stat_op\<close>); other threads' operations may come between any two of them, so an execution of
  many threads is a list in which the operations of all calls are shuffled. The locale
  \<open>latency_recorder\<close> is the contract of the trait \<open>Record\<close>: seen through \<open>view\<close>, a call has
  the effect of \<open>record_view\<close>. Both \<open>ServiceStats\<close> types and \<open>ServiceStatsMutex\<close> interpret it.
\<close>

section \<open>The atomic statistics of exercise 6\<close>

record service_stats =
  sv_total :: u64
  sv_success :: u64
  sv_failed :: u64
  sv_latence_min :: u64
  sv_latence_max :: u64
  sv_latence_sum :: u64

record 'f service_snapshot =
  sn_total :: u64
  sn_success :: u64
  sn_failed :: u64
  sn_latence_min :: u64
  sn_latence_max :: u64
  sn_latence_moy :: 'f

definition service_stats_new :: service_stats where
  "service_stats_new =
     \<lparr>sv_total = 0, sv_success = 0, sv_failed = 0,
      sv_latence_min = u64_max, sv_latence_max = 0, sv_latence_sum = 0\<rparr>"

datatype stat_op = AddTotal | AddSuccess | AddFailed | AddSum u64 | LowerMin u64 | RaiseMax u64

fun apply_stat_op :: "service_stats \<Rightarrow> stat_op \<Rightarrow> service_stats" where
  "apply_stat_op s AddTotal = s\<lparr>sv_total := sv_total s + 1\<rparr>"
| "apply_stat_op s AddSuccess = s\<lparr>sv_success := sv_success s + 1\<rparr>"
| "apply_stat_op s AddFailed = s\<lparr>sv_failed := sv_failed s + 1\<rparr>"
| "apply_stat_op s (AddSum l) = s\<lparr>sv_latence_sum := sv_latence_sum s + l\<rparr>"
| "apply_stat_op s (LowerMin l) = s\<lparr>sv_latence_min := atomic_min (sv_latence_min s) l []\<rparr>"
| "apply_stat_op s (RaiseMax l) = s\<lparr>sv_latence_max := atomic_max (sv_latence_max s) l []\<rparr>"

definition record_ops :: "bool \<Rightarrow> u64 \<Rightarrow> stat_op list" where
  "record_ops success latence_us =
     [AddTotal, if success then AddSuccess else AddFailed, AddSum latence_us,
      LowerMin latence_us, RaiseMax latence_us]"

definition service_stats_record :: "bool \<Rightarrow> u64 \<Rightarrow> service_stats \<Rightarrow> service_stats" where
  "service_stats_record success latence_us s = foldl apply_stat_op s (record_ops success latence_us)"

text \<open>\<open>snapshot\<close>: the mean is a quotient of two \<open>u64\<close> read as \<open>f64\<close>; the floating-point
  quotient and zero are parameters.\<close>

definition service_stats_snapshot ::
  "(u64 \<Rightarrow> u64 \<Rightarrow> 'f) \<Rightarrow> 'f \<Rightarrow> service_stats \<Rightarrow> 'f service_snapshot" where
  "service_stats_snapshot quot zero s =
     (let total = sv_total s; sum = sv_latence_sum s in
      \<lparr>sn_total = total, sn_success = sv_success s, sn_failed = sv_failed s,
       sn_latence_min = sv_latence_min s, sn_latence_max = sv_latence_max s,
       sn_latence_moy = (if total > 0 then quot sum total else zero)\<rparr>)"

section \<open>The mutex variant\<close>

record stats_inner =
  in_total :: u64
  in_success :: u64
  in_failed :: u64
  in_latence_min :: u64
  in_latence_max :: u64
  in_latence_sum :: u64

definition service_stats_mutex_new :: stats_inner where
  "service_stats_mutex_new =
     \<lparr>in_total = 0, in_success = 0, in_failed = 0,
      in_latence_min = u64_max, in_latence_max = 0, in_latence_sum = 0\<rparr>"

definition service_stats_mutex_record :: "bool \<Rightarrow> u64 \<Rightarrow> stats_inner \<Rightarrow> stats_inner" where
  "service_stats_mutex_record success latence_us g =
     (let g = g\<lparr>in_total := in_total g + 1\<rparr>;
          g = (if success then g\<lparr>in_success := in_success g + 1\<rparr>
               else g\<lparr>in_failed := in_failed g + 1\<rparr>);
          g = g\<lparr>in_latence_sum := in_latence_sum g + latence_us\<rparr>;
          g = (if latence_us < in_latence_min g then g\<lparr>in_latence_min := latence_us\<rparr> else g);
          g = (if latence_us > in_latence_max g then g\<lparr>in_latence_max := latence_us\<rparr> else g)
      in g)"

text \<open>The single-counter recorders of the benchmark.\<close>

definition compteur_atom_record :: "bool \<Rightarrow> u64 \<Rightarrow> u64 \<Rightarrow> u64" where
  "compteur_atom_record s l n = n + 1"

definition compteur_mux_record :: "bool \<Rightarrow> u64 \<Rightarrow> u64 \<Rightarrow> u64" where
  "compteur_mux_record s l n = n + 1"

section \<open>The statistics of the atomics demo\<close>

record demo06_stats =
  d6_total_requests :: u64
  d6_success :: u64
  d6_failed :: u64
  d6_max_latency_us :: u64
  d6_min_latency_us :: u64

definition demo06_stats_new :: demo06_stats where
  "demo06_stats_new =
     \<lparr>d6_total_requests = 0, d6_success = 0, d6_failed = 0,
      d6_max_latency_us = 0, d6_min_latency_us = u64_max\<rparr>"

definition demo06_stats_record :: "u64 \<Rightarrow> bool \<Rightarrow> demo06_stats \<Rightarrow> demo06_stats" where
  "demo06_stats_record latency_us ok s =
     (let s = s\<lparr>d6_total_requests := d6_total_requests s + 1\<rparr>;
          s = (if ok then s\<lparr>d6_success := d6_success s + 1\<rparr>
               else s\<lparr>d6_failed := d6_failed s + 1\<rparr>);
          s = s\<lparr>d6_max_latency_us := demo06_atomic_max (d6_max_latency_us s) latency_us []\<rparr>;
          s = s\<lparr>d6_min_latency_us := demo06_atomic_min (d6_min_latency_us s) latency_us []\<rparr>
      in s)"

definition demo06_stats_snapshot :: "demo06_stats \<Rightarrow> u64 \<times> u64 \<times> u64 \<times> u64 \<times> u64" where
  "demo06_stats_snapshot s =
     (d6_total_requests s, d6_success s, d6_failed s, d6_max_latency_us s, d6_min_latency_us s)"

text \<open>The latency \<open>print\<close> shows for the minimum.\<close>

definition demo06_min_display :: "demo06_stats \<Rightarrow> u64" where
  "demo06_min_display s =
     (let min_l = d6_min_latency_us s in if min_l = u64_max then 0 else min_l)"

text \<open>\<open>compteur_relaxed\<close> and \<open>compteur_seqcst\<close>: a schedule is the list of the threads that
  perform the successive atomic increments.\<close>

definition run_compteur :: "nat list \<Rightarrow> u64" where
  "run_compteur sched = foldl (\<lambda>counter _. counter + 1) 0 sched"

definition run_compteur_seqcst :: "nat list \<Rightarrow> u64" where
  "run_compteur_seqcst sched = foldl (\<lambda>counter _. counter + 1) 0 sched"

definition compteur_schedule :: "nat \<Rightarrow> nat \<Rightarrow> nat list \<Rightarrow> bool" where
  "compteur_schedule threads iterations sched \<longleftrightarrow>
     mset sched = (\<Sum>t\<in>#mset [0..<threads]. replicate_mset iterations t)"

section \<open>The contract of a recorder\<close>

record lat_view =
  lv_total :: u64
  lv_success :: u64
  lv_failed :: u64
  lv_min :: u64
  lv_max :: u64

definition record_view :: "bool \<Rightarrow> u64 \<Rightarrow> lat_view \<Rightarrow> lat_view" where
  "record_view ok l v =
     \<lparr>lv_total = lv_total v + 1,
      lv_success = (if ok then lv_success v + 1 else lv_success v),
      lv_failed = (if ok then lv_failed v else lv_failed v + 1),
      lv_min = min (lv_min v) l, lv_max = max (lv_max v) l\<rparr>"

definition view_new :: lat_view where
  "view_new = \<lparr>lv_total = 0, lv_success = 0, lv_failed = 0, lv_min = u64_max, lv_max = 0\<rparr>"

locale latency_recorder =
  fixes new :: "'s"
    and rec :: "bool \<Rightarrow> u64 \<Rightarrow> 's \<Rightarrow> 's"
    and view :: "'s \<Rightarrow> lat_view"
  assumes view_start: "view new = view_new"
    and view_rec: "view (rec ok l s) = record_view ok l (view s)"
begin

abbreviation run :: "(bool \<times> u64) list \<Rightarrow> 's \<Rightarrow> 's" where
  "run evs s \<equiv> foldl (\<lambda>s (ok, l). rec ok l s) s evs"

lemma view_run: "view (run evs s) = foldl (\<lambda>v (ok, l). record_view ok l v) (view s) evs"
  by (induction evs arbitrary: s) (auto simp: view_rec)

lemma run_total: "lv_total (view (run evs s)) = lv_total (view s) + of_nat (length evs)"
  by (induction evs arbitrary: s) (auto simp: view_rec record_view_def)

lemma run_success:
  "lv_success (view (run evs s)) = lv_success (view s) + of_nat (length (filter fst evs))"
  by (induction evs arbitrary: s) (auto simp: view_rec record_view_def)

lemma run_failed:
  "lv_failed (view (run evs s)) =
     lv_failed (view s) + of_nat (length (filter (\<lambda>e. \<not> fst e) evs))"
  by (induction evs arbitrary: s) (auto simp: view_rec record_view_def)

lemma run_balance:
  "lv_success (view s) + lv_failed (view s) = lv_total (view s) \<Longrightarrow>
   lv_success (view (run evs s)) + lv_failed (view (run evs s)) = lv_total (view (run evs s))"
proof (induction evs arbitrary: s)
  case (Cons e evs)
  obtain ok l where e: "e = (ok, l)" by (cases e)
  from Cons.prems have
    "lv_success (view (rec ok l s)) + lv_failed (view (rec ok l s)) = lv_total (view (rec ok l s))"
    by (auto simp: view_rec record_view_def algebra_simps)
  from Cons.IH [OF this] show ?case by (simp add: e)
qed simp

lemma run_min: "lv_min (view (run evs s)) = Min (insert (lv_min (view s)) (snd ` set evs))"
proof (induction evs arbitrary: s)
  case (Cons e evs)
  then show ?case
    by (cases e, cases "evs = []")
       (auto simp: view_rec record_view_def ac_simps)
qed simp

lemma run_max: "lv_max (view (run evs s)) = Max (insert (lv_max (view s)) (snd ` set evs))"
proof (induction evs arbitrary: s)
  case (Cons e evs)
  then show ?case
    by (cases e, cases "evs = []")
       (auto simp: view_rec record_view_def ac_simps)
qed simp

lemma run_order_irrelevant: "mset evs = mset evs' \<Longrightarrow> view (run evs s) = view (run evs' s)"
  unfolding view_run
  by (rule foldl_perm) (auto simp: record_view_def ac_simps)

end

definition service_view :: "service_stats \<Rightarrow> lat_view" where
  "service_view s =
     \<lparr>lv_total = sv_total s, lv_success = sv_success s, lv_failed = sv_failed s,
      lv_min = sv_latence_min s, lv_max = sv_latence_max s\<rparr>"

definition mutex_view :: "stats_inner \<Rightarrow> lat_view" where
  "mutex_view s =
     \<lparr>lv_total = in_total s, lv_success = in_success s, lv_failed = in_failed s,
      lv_min = in_latence_min s, lv_max = in_latence_max s\<rparr>"

definition demo06_view :: "demo06_stats \<Rightarrow> lat_view" where
  "demo06_view s =
     \<lparr>lv_total = d6_total_requests s, lv_success = d6_success s, lv_failed = d6_failed s,
      lv_min = d6_min_latency_us s, lv_max = d6_max_latency_us s\<rparr>"

interpretation atomic_stats: latency_recorder service_stats_new service_stats_record service_view
  by unfold_locales
     (auto simp: service_view_def service_stats_new_def view_new_def service_stats_record_def
        record_ops_def record_view_def)

interpretation mutex_stats:
  latency_recorder service_stats_mutex_new service_stats_mutex_record mutex_view
  by unfold_locales
     (auto simp: mutex_view_def service_stats_mutex_new_def view_new_def
        service_stats_mutex_record_def record_view_def Let_def min_def max_def)

interpretation demo06: latency_recorder demo06_stats_new "\<lambda>ok l. demo06_stats_record l ok" demo06_view
  by unfold_locales
     (auto simp: demo06_view_def demo06_stats_new_def view_new_def demo06_stats_record_def
        record_view_def Let_def demo06_atomic_max_eq demo06_atomic_min_eq)

section \<open>Interleaving at the granularity of atomic operations\<close>

lemma apply_stat_op_commute:
  "apply_stat_op (apply_stat_op s a) b = apply_stat_op (apply_stat_op s b) a"
  by (cases a; cases b) (auto simp: ac_simps)

lemma stat_ops_shuffle:
  "mset ops = mset (concat (map (\<lambda>(ok, l). record_ops ok l) evs)) \<Longrightarrow>
   foldl apply_stat_op s ops = atomic_stats.run evs s"
proof -
  assume "mset ops = mset (concat (map (\<lambda>(ok, l). record_ops ok l) evs))"
  then have "foldl apply_stat_op s ops =
      foldl apply_stat_op s (concat (map (\<lambda>(ok, l). record_ops ok l) evs))"
    by (rule foldl_perm [rotated]) (rule apply_stat_op_commute)
  also have "\<dots> = atomic_stats.run evs s"
    by (induction evs arbitrary: s) (auto simp: service_stats_record_def)
  finally show ?thesis .
qed

lemma run_compteur_eq: "run_compteur sched = of_nat (length sched)"
  by (induction sched rule: rev_induct) (auto simp: run_compteur_def)

lemma run_compteur_seqcst_eq: "run_compteur_seqcst sched = run_compteur sched"
  by (simp add: run_compteur_seqcst_def run_compteur_def)

lemma length_compteur_schedule:
  "compteur_schedule threads iterations sched \<Longrightarrow> length sched = threads * iterations"
proof -
  assume "compteur_schedule threads iterations sched"
  then have "size (mset sched) = size (\<Sum>t\<in>#mset [0..<threads]. replicate_mset iterations t)"
    by (simp only: compteur_schedule_def)
  also have "\<dots> = threads * iterations"
    by (induction threads) auto
  finally show ?thesis by simp
qed

lemma service_run_view:
  "service_view (atomic_stats.run evs service_stats_new) =
     \<lparr>lv_total = of_nat (length evs), lv_success = of_nat (length (filter fst evs)),
      lv_failed = of_nat (length (filter (\<lambda>e. \<not> fst e) evs)),
      lv_min = Min (insert u64_max (snd ` set evs)), lv_max = Max (insert 0 (snd ` set evs))\<rparr>"
proof -
  let ?v = "service_view (atomic_stats.run evs service_stats_new)"
  have "lv_total ?v = of_nat (length evs)" "lv_success ?v = of_nat (length (filter fst evs))"
    "lv_failed ?v = of_nat (length (filter (\<lambda>e. \<not> fst e) evs))"
    "lv_min ?v = Min (insert u64_max (snd ` set evs))" "lv_max ?v = Max (insert 0 (snd ` set evs))"
    using atomic_stats.run_total [of service_stats_new evs] atomic_stats.run_success [of service_stats_new evs]
      atomic_stats.run_failed [of service_stats_new evs] atomic_stats.run_min [of service_stats_new evs] atomic_stats.run_max [of service_stats_new evs]
    by (simp_all add: atomic_stats.view_start view_new_def)
  then show ?thesis by simp
qed

lemma mutex_run_view:
  "mutex_view (mutex_stats.run evs service_stats_mutex_new) =
   service_view (atomic_stats.run evs service_stats_new)"
  by (simp only: mutex_stats.view_run atomic_stats.view_run atomic_stats.view_start
      mutex_stats.view_start)

lemma service_run_sum:
  "sv_latence_sum (atomic_stats.run evs s) = sv_latence_sum s + sum_list (map snd evs)"
  by (induction evs arbitrary: s) (auto simp: service_stats_record_def record_ops_def)

section \<open>Properties\<close>



text \<open>The relaxed counter of the atomics demo: in every interleaving of the increments of
  \<open>threads\<close> threads doing \<open>iterations\<close> each, no increment is lost: the counter ends at their
  product modulo \<open>2 ^ 64\<close>, whatever the order.\<close>

theorem compteur_exact:
  assumes "compteur_schedule threads iterations sched"
  shows "run_compteur sched = of_nat (threads * iterations)"
  by (simp only: run_compteur_eq length_compteur_schedule [OF assms])

theorem compteur_exact_witness: "run_compteur [0, 1, 1, 0, 0, 1] = 6"
  using compteur_exact [of 2 3 "[0, 1, 1, 0, 0, 1]"]
  by (simp add: compteur_schedule_def numeral_eq_Suc)

end
