(* ===== verification/RingBuffer.thy ===== *)
theory RingBuffer
  imports Prelude
begin

text \<open>
  The blocking ring buffer of \<open>demos/src/bin/exo05_ringbuffer.rs\<close>: a bounded queue behind a mutex
  with two condition variables.

  What an operation does while it holds the mutex is one atomic step, \<open>rb_section\<close>: it either
  returns, with the notifications that it sends after the guard is dropped, or waits on a
  condition variable, releasing the mutex. A woken thread runs the section of its operation
  again, which is the next test of the source's \<open>while\<close> loop. \<open>rb_step\<close> interleaves any number of
  threads: a notification is a step of its own, \<open>notify_one\<close> wakes any one of the waiting threads,
  and a wait may end spuriously. A thread's program chooses its next call from the results of
  its previous ones, so the consumers' loop is a program too.

  \<open>rb_in\<close> and \<open>rb_out\<close> are histories for the theorems: the values put in and taken out, in order.
\<close>

section \<open>The buffer\<close>

datatype buffer_error = BufferClosed

record 'a rb_inner =
  rb_queue :: "'a list"
  rb_capacity :: usize
  rb_closed :: bool

text \<open>\<open>new\<close> asserts that the capacity is positive.\<close>

definition rb_new :: "usize \<Rightarrow> 'a rb_inner option" where
  "rb_new capacity =
     (if capacity > 0 then Some \<lparr>rb_queue = [], rb_capacity = capacity, rb_closed = False\<rparr> else None)"

datatype condvar = NotFull | NotEmpty

datatype notice = NotifyOne condvar | NotifyAll condvar

datatype 'r outcome = Waits condvar | Returns 'r "notice list"

definition rb_push :: "'a \<Rightarrow> 'a rb_inner \<Rightarrow> (buffer_error + unit) outcome \<times> 'a rb_inner" where
  "rb_push v g =
     (if length (rb_queue g) = rb_capacity g \<and> \<not> rb_closed g then (Waits NotFull, g)
      else if rb_closed g then (Returns (Inl BufferClosed) [], g)
      else (Returns (Inr ()) [NotifyOne NotEmpty], g\<lparr>rb_queue := rb_queue g @ [v]\<rparr>))"

definition rb_pop :: "'a rb_inner \<Rightarrow> (buffer_error + 'a) outcome \<times> 'a rb_inner" where
  "rb_pop g =
     (if rb_queue g = [] \<and> \<not> rb_closed g then (Waits NotEmpty, g)
      else (case rb_queue g of
              v # q \<Rightarrow> (Returns (Inr v) [NotifyOne NotFull], g\<lparr>rb_queue := q\<rparr>)
            | [] \<Rightarrow> (Returns (Inl BufferClosed) [], g)))"

definition rb_try_push :: "'a \<Rightarrow> 'a rb_inner \<Rightarrow> (buffer_error + unit) outcome \<times> 'a rb_inner" where
  "rb_try_push v g =
     (if rb_closed g then (Returns (Inl BufferClosed) [], g)
      else if length (rb_queue g) = rb_capacity g then (Returns (Inl BufferClosed) [], g)
      else (Returns (Inr ()) [NotifyOne NotEmpty], g\<lparr>rb_queue := rb_queue g @ [v]\<rparr>))"

definition rb_try_pop :: "'a rb_inner \<Rightarrow> (buffer_error + 'a option) outcome \<times> 'a rb_inner" where
  "rb_try_pop g =
     (case rb_queue g of
        v # q \<Rightarrow> (Returns (Inr (Some v)) [NotifyOne NotFull], g\<lparr>rb_queue := q\<rparr>)
      | [] \<Rightarrow> if rb_closed g then (Returns (Inl BufferClosed) [], g) else (Returns (Inr None) [], g))"

definition rb_close :: "'a rb_inner \<Rightarrow> unit outcome \<times> 'a rb_inner" where
  "rb_close g = (Returns () [NotifyAll NotFull, NotifyAll NotEmpty], g\<lparr>rb_closed := True\<rparr>)"

definition rb_len :: "'a rb_inner \<Rightarrow> usize" where
  "rb_len g = length (rb_queue g)"

definition rb_is_closed :: "'a rb_inner \<Rightarrow> bool" where
  "rb_is_closed g = rb_closed g"

section \<open>Threads\<close>

datatype 'a rb_op = Push 'a | Pop | TryPush 'a | TryPop | Close | Len

datatype 'a rb_result = Done | Got 'a | Empty | Failed | Counted usize

text \<open>The critical section of an operation, with the results of the operations as one type.\<close>

fun map_outcome :: "('r \<Rightarrow> 's) \<Rightarrow> 'r outcome \<Rightarrow> 's outcome" where
  "map_outcome f (Waits cv) = Waits cv"
| "map_outcome f (Returns r ns) = Returns (f r) ns"

fun rb_section :: "'a rb_op \<Rightarrow> 'a rb_inner \<Rightarrow> 'a rb_result outcome \<times> 'a rb_inner" where
  "rb_section (Push v) g = apfst (map_outcome (case_sum (\<lambda>_. Failed) (\<lambda>_. Done))) (rb_push v g)"
| "rb_section Pop g = apfst (map_outcome (case_sum (\<lambda>_. Failed) Got)) (rb_pop g)"
| "rb_section (TryPush v) g = apfst (map_outcome (case_sum (\<lambda>_. Failed) (\<lambda>_. Done))) (rb_try_push v g)"
| "rb_section TryPop g =
     apfst (map_outcome (case_sum (\<lambda>_. Failed) (case_option Empty Got))) (rb_try_pop g)"
| "rb_section Close g = apfst (map_outcome (\<lambda>_. Done)) (rb_close g)"
| "rb_section Len g = (Returns (Counted (rb_len g)) [], g)"

datatype 'a action = Call "'a rb_op" | Join nat

datatype mode = Owing "notice list" | Waiting condvar

record 'a thread =
  th_next :: "'a rb_result list \<Rightarrow> 'a action option"
  th_results :: "'a rb_result list"
  th_mode :: mode

definition wants :: "'a thread \<Rightarrow> 'a action option" where
  "wants t = th_next t (th_results t)"

definition finished :: "'a thread \<Rightarrow> bool" where
  "finished t \<longleftrightarrow> th_mode t = Owing [] \<and> wants t = None"

definition spawn :: "('a rb_result list \<Rightarrow> 'a action option) \<Rightarrow> 'a thread" where
  "spawn program = \<lparr>th_next = program, th_results = [], th_mode = Owing []\<rparr>"

record 'a rb_system =
  rb_buf :: "'a rb_inner"
  rb_threads :: "'a thread list"
  rb_in :: "'a list"
  rb_out :: "'a list"

definition rb_start :: "usize \<Rightarrow> ('a rb_result list \<Rightarrow> 'a action option) list \<Rightarrow> 'a rb_system option" where
  "rb_start capacity programs =
     map_option (\<lambda>g. \<lparr>rb_buf = g, rb_threads = map spawn programs, rb_in = [], rb_out = []\<rparr>)
       (rb_new capacity)"

fun put_in :: "'a rb_op \<Rightarrow> 'a rb_result \<Rightarrow> 'a list" where
  "put_in (Push v) Done = [v]"
| "put_in (TryPush v) Done = [v]"
| "put_in _ _ = []"

fun took_out :: "'a rb_result \<Rightarrow> 'a list" where
  "took_out (Got v) = [v]"
| "took_out _ = []"

definition wake :: "condvar \<Rightarrow> 'a thread \<Rightarrow> 'a thread" where
  "wake cv t = (if th_mode t = Waiting cv then t\<lparr>th_mode := Owing []\<rparr> else t)"

inductive rb_step :: "'a rb_system \<Rightarrow> 'a rb_system \<Rightarrow> bool" where
  rb_return: "i < length (rb_threads s) \<Longrightarrow> rb_threads s ! i = t \<Longrightarrow> th_mode t = Owing [] \<Longrightarrow>
    wants t = Some (Call op) \<Longrightarrow> rb_section op (rb_buf s) = (Returns r ns, g) \<Longrightarrow>
    rb_step s \<lparr>rb_buf = g,
      rb_threads = (rb_threads s)[i := t\<lparr>th_results := th_results t @ [r], th_mode := Owing ns\<rparr>],
      rb_in = rb_in s @ put_in op r, rb_out = rb_out s @ took_out r\<rparr>"
| rb_wait: "i < length (rb_threads s) \<Longrightarrow> rb_threads s ! i = t \<Longrightarrow> th_mode t = Owing [] \<Longrightarrow>
    wants t = Some (Call op) \<Longrightarrow> rb_section op (rb_buf s) = (Waits cv, g) \<Longrightarrow>
    rb_step s (s\<lparr>rb_buf := g, rb_threads := (rb_threads s)[i := t\<lparr>th_mode := Waiting cv\<rparr>]\<rparr>)"
| rb_notify_one: "i < length (rb_threads s) \<Longrightarrow> rb_threads s ! i = t \<Longrightarrow>
    th_mode t = Owing (NotifyOne cv # ns) \<Longrightarrow>
    j < length (rb_threads s) \<Longrightarrow> rb_threads s ! j = u \<Longrightarrow> th_mode u = Waiting cv \<Longrightarrow>
    rb_step s (s\<lparr>rb_threads := (rb_threads s)[i := t\<lparr>th_mode := Owing ns\<rparr>, j := u\<lparr>th_mode := Owing []\<rparr>]\<rparr>)"
| rb_notify_none: "i < length (rb_threads s) \<Longrightarrow> rb_threads s ! i = t \<Longrightarrow>
    th_mode t = Owing (NotifyOne cv # ns) \<Longrightarrow> \<forall>u \<in> set (rb_threads s). th_mode u \<noteq> Waiting cv \<Longrightarrow>
    rb_step s (s\<lparr>rb_threads := (rb_threads s)[i := t\<lparr>th_mode := Owing ns\<rparr>]\<rparr>)"
| rb_notify_all: "i < length (rb_threads s) \<Longrightarrow> rb_threads s ! i = t \<Longrightarrow>
    th_mode t = Owing (NotifyAll cv # ns) \<Longrightarrow>
    rb_step s (s\<lparr>rb_threads := map (wake cv) ((rb_threads s)[i := t\<lparr>th_mode := Owing ns\<rparr>])\<rparr>)"
| rb_spurious: "i < length (rb_threads s) \<Longrightarrow> rb_threads s ! i = t \<Longrightarrow> th_mode t = Waiting cv \<Longrightarrow>
    rb_step s (s\<lparr>rb_threads := (rb_threads s)[i := t\<lparr>th_mode := Owing []\<rparr>]\<rparr>)"
| rb_join: "i < length (rb_threads s) \<Longrightarrow> rb_threads s ! i = t \<Longrightarrow> th_mode t = Owing [] \<Longrightarrow>
    wants t = Some (Join j) \<Longrightarrow> j < length (rb_threads s) \<Longrightarrow> finished (rb_threads s ! j) \<Longrightarrow>
    rb_step s (s\<lparr>rb_threads := (rb_threads s)[i := t\<lparr>th_results := th_results t @ [Done]\<rparr>]\<rparr>)"

section \<open>Invariant\<close>

definition tally :: "('a thread \<Rightarrow> 'b::comm_monoid_add) \<Rightarrow> 'a thread list \<Rightarrow> 'b" where
  "tally f ts = sum_list (map f ts)"

fun wants_on :: "condvar \<Rightarrow> 'a action option \<Rightarrow> bool" where
  "wants_on NotEmpty (Some (Call Pop)) = True"
| "wants_on NotFull (Some (Call (Push v))) = True"
| "wants_on _ _ = False"

definition sleeping :: "condvar \<Rightarrow> 'a thread \<Rightarrow> nat" where
  "sleeping cv t = (if th_mode t = Waiting cv then 1 else 0)"

definition owed :: "notice \<Rightarrow> 'a thread \<Rightarrow> nat" where
  "owed n t = (case th_mode t of Owing ns \<Rightarrow> count_list ns n | Waiting _ \<Rightarrow> 0)"

definition eager :: "condvar \<Rightarrow> 'a thread \<Rightarrow> nat" where
  "eager cv t = (if th_mode t = Owing [] \<and> wants_on cv (wants t) then 1 else 0)"

text \<open>What a sleeper of \<open>cv\<close> could use: the items, or the free places.\<close>

fun usable :: "condvar \<Rightarrow> 'a rb_inner \<Rightarrow> nat" where
  "usable NotEmpty g = length (rb_queue g)"
| "usable NotFull g = rb_capacity g - length (rb_queue g)"

definition rb_fifo :: "usize \<Rightarrow> 'a rb_system \<Rightarrow> bool" where
  "rb_fifo cap s \<longleftrightarrow>
     rb_capacity (rb_buf s) = cap \<and> length (rb_queue (rb_buf s)) \<le> cap \<and>
     rb_in s = rb_out s @ rb_queue (rb_buf s)"

text \<open>As long as somebody sleeps, whatever the sleepers could use is already promised: to a
  notification that is still owed, or to a thread about to take it.\<close>

definition rb_awake :: "'a rb_system \<Rightarrow> bool" where
  "rb_awake s \<longleftrightarrow>
     (\<forall>t \<in> set (rb_threads s). \<forall>cv. th_mode t = Waiting cv \<longrightarrow> wants_on cv (wants t)) \<and>
     (\<forall>cv. tally (sleeping cv) (rb_threads s) > 0 \<longrightarrow>
        (if rb_closed (rb_buf s) then tally (owed (NotifyAll cv)) (rb_threads s) > 0
         else usable cv (rb_buf s) \<le>
           tally (owed (NotifyOne cv)) (rb_threads s) + tally (eager cv) (rb_threads s)))"

lemma tally_update:
  "i < length ts \<Longrightarrow> tally f (ts[i := x]) + f (ts ! i) = tally f ts + f x"
proof (induction ts arbitrary: i)
  case (Cons t ts)
  then show ?case by (cases i) (auto simp: tally_def ac_simps)
qed simp

lemma tally_le: "i < length ts \<Longrightarrow> f (ts ! i) \<le> (tally f ts :: nat)"
  by (simp add: tally_def member_le_sum_list)

lemma tally_zero: "(tally f ts :: nat) = 0 \<longleftrightarrow> (\<forall>t \<in> set ts. f t = 0)"
  by (auto simp: tally_def)

lemma tally_map: "tally f (map g ts) = tally (\<lambda>t. f (g t)) ts"
  by (simp add: tally_def comp_def)

lemma tally_mono: "(\<And>t. t \<in> set ts \<Longrightarrow> f t \<le> g t) \<Longrightarrow> (tally f ts :: nat) \<le> tally g ts"
  by (simp add: tally_def sum_list_mono)

lemma mode_simps:
  "th_mode t = Owing ns \<Longrightarrow> sleeping cv t = 0" "th_mode t = Owing ns \<Longrightarrow> owed n t = count_list ns n"
  "th_mode t = Waiting cv \<Longrightarrow> sleeping cv' t = (if cv = cv' then 1 else 0)"
  "th_mode t = Waiting cv \<Longrightarrow> owed n t = 0" "th_mode t = Waiting cv \<Longrightarrow> eager cv' t = 0"
  "th_mode t = Owing (n' # ns) \<Longrightarrow> eager cv' t = 0"
  "th_mode t = Owing [] \<Longrightarrow> eager cv' t = (if wants_on cv' (wants t) then 1 else 0)"
  by (auto simp: sleeping_def owed_def eager_def)

lemma rb_section_returns:
  assumes "rb_section op g = (Returns r ns, g')" and "length (rb_queue g) \<le> rb_capacity g"
  shows "rb_capacity g' = rb_capacity g" "length (rb_queue g') \<le> rb_capacity g'"
    and "rb_queue g @ put_in op r = took_out r @ rb_queue g'"
  using assms
  by (cases op; auto simp: rb_push_def rb_pop_def rb_try_push_def rb_try_pop_def rb_close_def
      split: if_splits list.splits)+

lemma rb_section_waits:
  assumes "rb_section op g = (Waits cv, g')"
  shows "g' = g" "\<not> rb_closed g" "wants_on cv (Some (Call op))" "usable cv g = 0"
  using assms
  by (cases op; auto simp: rb_push_def rb_pop_def rb_try_push_def rb_try_pop_def rb_close_def
      split: if_splits list.splits)+

lemma rb_fifo_step: "rb_step s s' \<Longrightarrow> rb_fifo cap s \<Longrightarrow> rb_fifo cap s'"
proof (induction rule: rb_step.induct)
  case (rb_return i s t op r ns g)
  then show ?case
    using rb_section_returns [of op "rb_buf s" r ns g] by (auto simp: rb_fifo_def)
next
  case (rb_wait i s t op cv g)
  then show ?case using rb_section_waits(1) by (fastforce simp: rb_fifo_def)
qed (simp_all add: rb_fifo_def)

lemma rb_section_promises:
  assumes "rb_section op g = (Returns r ns, g')" and "length (rb_queue g) \<le> rb_capacity g"
  shows "rb_closed g \<Longrightarrow> rb_closed g'"
    and "rb_closed g' \<Longrightarrow> \<not> rb_closed g \<Longrightarrow> 0 < count_list ns (NotifyAll cv)"
    and "\<not> rb_closed g' \<Longrightarrow> usable cv g' + (if wants_on cv (Some (Call op)) then 1 else 0) \<le>
           usable cv g + count_list ns (NotifyOne cv)"
  using assms
  by (cases op; cases cv; auto simp: rb_push_def rb_pop_def rb_try_push_def rb_try_pop_def rb_close_def
      split: if_splits list.splits)+

lemma wants_on_unique: "wants_on cv a \<Longrightarrow> wants_on cv' a \<Longrightarrow> cv = cv'"
  by (cases "(cv, a)" rule: wants_on.cases; cases "(cv', a)" rule: wants_on.cases) auto

lemma wake_tally:
  "sleeping cv (wake cv t) = 0" "cv \<noteq> cv' \<Longrightarrow> sleeping cv' (wake cv t) = sleeping cv' t"
  "owed n (wake cv t) = owed n t" "eager cv' t \<le> eager cv' (wake cv t)"
  by (auto simp: wake_def sleeping_def owed_def eager_def split: mode.splits)

lemma rb_awakeI:
  assumes "\<And>t cv. t \<in> set (rb_threads s) \<Longrightarrow> th_mode t = Waiting cv \<Longrightarrow> wants_on cv (wants t)"
    and "\<And>cv. 0 < tally (sleeping cv) (rb_threads s) \<Longrightarrow> rb_closed (rb_buf s) \<Longrightarrow>
           0 < tally (owed (NotifyAll cv)) (rb_threads s)"
    and "\<And>cv. 0 < tally (sleeping cv) (rb_threads s) \<Longrightarrow> \<not> rb_closed (rb_buf s) \<Longrightarrow>
           usable cv (rb_buf s) \<le> tally (owed (NotifyOne cv)) (rb_threads s) + tally (eager cv) (rb_threads s)"
  shows "rb_awake s"
  using assms by (auto simp: rb_awake_def)

lemma rb_awakeD:
  assumes "rb_awake s"
  shows "t \<in> set (rb_threads s) \<Longrightarrow> th_mode t = Waiting cv \<Longrightarrow> wants_on cv (wants t)"
    and "0 < tally (sleeping cv) (rb_threads s) \<Longrightarrow> rb_closed (rb_buf s) \<Longrightarrow>
           0 < tally (owed (NotifyAll cv)) (rb_threads s)"
    and "0 < tally (sleeping cv) (rb_threads s) \<Longrightarrow> \<not> rb_closed (rb_buf s) \<Longrightarrow>
           usable cv (rb_buf s) \<le> tally (owed (NotifyOne cv)) (rb_threads s) + tally (eager cv) (rb_threads s)"
  using assms by (auto simp: rb_awake_def)

lemma in_set_update: "x \<in> set (ts[i := y]) \<Longrightarrow> x = y \<or> x \<in> set ts"
  using set_update_subset_insert [of ts i y] by blast

text \<open>A step that changes one thread and the buffer keeps the invariant when it pays for what it
  uses.\<close>

lemma rb_awake_update:
  assumes awake: "rb_awake s" and i: "i < length (rb_threads s)" "rb_threads s ! i = t"
    and mode: "\<And>cv. th_mode t' = Waiting cv \<Longrightarrow> wants_on cv (wants t')"
    and closed: "\<And>cv. rb_closed g \<Longrightarrow> 0 < owed (NotifyAll cv) t' \<or> rb_closed (rb_buf s) \<and>
           sleeping cv t' \<le> sleeping cv t \<and> owed (NotifyAll cv) t \<le> owed (NotifyAll cv) t'"
    and used: "\<And>cv. \<not> rb_closed g \<Longrightarrow> \<not> rb_closed (rb_buf s) \<and> (usable cv g = 0 \<or>
           sleeping cv t' \<le> sleeping cv t \<and> (tally (sleeping cv) (rb_threads s) = 0 \<or>
             usable cv g + owed (NotifyOne cv) t + eager cv t \<le>
               usable cv (rb_buf s) + owed (NotifyOne cv) t' + eager cv t'))"
    and s': "rb_buf s' = g" "rb_threads s' = (rb_threads s)[i := t']"
  shows "rb_awake s'"
proof (rule rb_awakeI, unfold s', goal_cases)
  note inv = rb_awakeD [OF awake]
  note up = tally_update [OF i(1), of _ t', unfolded i(2)]
  {
    case (1 u cv)
    then show ?case using inv(1) mode by (auto dest: in_set_update)
  next
    case (2 cv)
    then show ?case
      using inv(2) [of cv] closed [of cv] up [of "sleeping cv"] up [of "owed (NotifyAll cv)"]
        tally_le [of i "(rb_threads s)[i := t']" "owed (NotifyAll cv)"] i
      by (cases "0 < owed (NotifyAll cv) t'") auto
  next
    case (3 cv)
    then show ?case
      using inv(3) [of cv] used [of cv] up [of "sleeping cv"] up [of "owed (NotifyOne cv)"]
        up [of "eager cv"] by auto
  }
qed

lemma rb_awake_notify_one:
  assumes awake: "rb_awake s" and i: "i < length (rb_threads s)" "rb_threads s ! i = t"
      "th_mode t = Owing (NotifyOne cv # ns)"
    and j: "j < length (rb_threads s)" "rb_threads s ! j = u" "th_mode u = Waiting cv"
  shows "rb_awake (s\<lparr>rb_threads := (rb_threads s)[i := t\<lparr>th_mode := Owing ns\<rparr>, j := u\<lparr>th_mode := Owing []\<rparr>]\<rparr>)"
proof (rule rb_awakeI, goal_cases)
  let ?t = "t\<lparr>th_mode := Owing ns\<rparr>" and ?u = "u\<lparr>th_mode := Owing []\<rparr>" and ?ts = "rb_threads s"
  note inv = rb_awakeD [OF awake]
  have "i \<noteq> j" using i j by auto
  then have u: "?ts[i := ?t] ! j = u" "j < length (?ts[i := ?t])" using i j by auto
  note up1 = tally_update [OF i(1), of _ ?t, unfolded i(2)]
  note up2 = tally_update [OF u(2), of _ ?u, unfolded u(1)]
  have "wants_on cv (wants u)" using inv(1) j by auto
  then have f: "sleeping cv' ?t = 0" "sleeping cv' t = 0" "owed n ?t = count_list ns n"
      "owed n t = count_list (NotifyOne cv # ns) n" "eager cv' t = 0"
      "sleeping cv' ?u = 0" "sleeping cv' u = (if cv = cv' then 1 else 0)" "owed n ?u = 0" "owed n u = 0"
      "eager cv' u = 0" "cv' = cv \<Longrightarrow> eager cv' ?u = 1" for cv' n
    using i j by (auto simp: mode_simps wants_def)
  {
    case (1 x cv')
    then show ?case using inv(1) by (auto dest!: in_set_update)
  next
    case (2 cv')
    then show ?case
      using inv(2) [of cv'] up1 [of "sleeping cv'"] up1 [of "owed (NotifyAll cv')"]
        up2 [of "sleeping cv'"] up2 [of "owed (NotifyAll cv')"]
      by (auto simp: f)
  next
    case (3 cv')
    then show ?case
      using inv(3) [of cv'] up1 [of "sleeping cv'"] up1 [of "owed (NotifyOne cv')"] up1 [of "eager cv'"]
        up2 [of "sleeping cv'"] up2 [of "owed (NotifyOne cv')"] up2 [of "eager cv'"]
      by (auto simp: f split: if_splits)
  }
qed

lemma rb_awake_notify_all:
  assumes awake: "rb_awake s" and i: "i < length (rb_threads s)" "rb_threads s ! i = t"
      "th_mode t = Owing (NotifyAll cv # ns)"
  shows "rb_awake (s\<lparr>rb_threads := map (wake cv) ((rb_threads s)[i := t\<lparr>th_mode := Owing ns\<rparr>])\<rparr>)"
proof (rule rb_awakeI, goal_cases)
  let ?ts = "(rb_threads s)[i := t\<lparr>th_mode := Owing ns\<rparr>]"
  note inv = rb_awakeD [OF awake]
  note up = tally_update [OF i(1), of _ "t\<lparr>th_mode := Owing ns\<rparr>", unfolded i(2)]
  have W: "tally (sleeping cv) (map (wake cv) ?ts) = 0"
    by (simp add: tally_map wake_tally tally_zero)
  have E: "tally (eager cv') ?ts \<le> tally (eager cv') (map (wake cv) ?ts)" for cv'
    unfolding tally_map by (intro tally_mono wake_tally)
  have O: "tally (owed n) (map (wake cv) ?ts) = tally (owed n) ?ts" for n
    by (simp add: tally_map wake_tally)
  have S: "cv \<noteq> cv' \<Longrightarrow> tally (sleeping cv') (map (wake cv) ?ts) = tally (sleeping cv') ?ts" for cv'
    by (simp add: tally_map wake_tally)
  {
    case (1 x cv')
    then show ?case
      using inv(1) by (auto dest!: in_set_update simp: wake_def wants_def split: if_splits)
  next
    case (2 cv')
    then have "cv \<noteq> cv'" using W by auto
    with 2 show ?case
      using inv(2) [of cv'] up [of "sleeping cv'"] up [of "owed (NotifyAll cv')"] i
      by (auto simp: O S mode_simps)
  next
    case (3 cv')
    then have "cv \<noteq> cv'" using W by auto
    with 3 show ?case
      using inv(3) [of cv'] up [of "sleeping cv'"] up [of "owed (NotifyOne cv')"] up [of "eager cv'"]
        E [of cv'] i
      by (auto simp: O S mode_simps)
  }
qed

lemma rb_awake_step: "rb_step s s' \<Longrightarrow> rb_fifo cap s \<Longrightarrow> rb_awake s \<Longrightarrow> rb_awake s'"
proof (induction rule: rb_step.induct)
  case (rb_return i s t op r ns g)
  have le: "length (rb_queue (rb_buf s)) \<le> rb_capacity (rb_buf s)"
    using rb_return.prems by (simp add: rb_fifo_def)
  note sec = rb_section_promises [OF rb_return.hyps(5) le]
  let ?t = "t\<lparr>th_results := th_results t @ [r], th_mode := Owing ns\<rparr>"
  have f: "sleeping cv ?t = 0" "sleeping cv t = 0" "owed n ?t = count_list ns n" "owed n t = 0"
      "eager cv t = (if wants_on cv (Some (Call op)) then 1 else 0)" for cv n
    using rb_return.hyps by (auto simp: mode_simps)
  show ?case
  proof (rule rb_awake_update [OF rb_return.prems(2) rb_return.hyps(1,2), where g = g and t' = ?t], goal_cases)
    case (2 cv)
    then show ?case using sec(2) [of cv] by (auto simp: f)
  next
    case (3 cv)
    then show ?case using sec(1) sec(3) [of cv] by (auto simp: f)
  qed simp_all
next
  case (rb_wait i s t op cv g)
  note sec = rb_section_waits [OF rb_wait.hyps(5)]
  have "cv' \<noteq> cv \<Longrightarrow> \<not> wants_on cv' (wants t)" for cv'
    using sec(3) wants_on_unique rb_wait.hyps(4) by metis
  with sec show ?case
    by (intro rb_awake_update [OF rb_wait.prems(2) rb_wait.hyps(1,2), where g = g and
          t' = "t\<lparr>th_mode := Waiting cv\<rparr>"])
       (use rb_wait.hyps(3,4) in \<open>auto simp: mode_simps wants_def\<close>)
next
  case (rb_notify_one i s t cv ns j u)
  then show ?case by (intro rb_awake_notify_one)
next
  case (rb_notify_none i s t cv ns)
  have "tally (sleeping cv) (rb_threads s) = 0"
    using rb_notify_none.hyps(4) by (auto simp: tally_zero sleeping_def)
  then show ?case
    by (intro rb_awake_update [OF rb_notify_none.prems(2) rb_notify_none.hyps(1,2), where g = "rb_buf s" and
          t' = "t\<lparr>th_mode := Owing ns\<rparr>"])
       (use rb_notify_none.hyps(3) in \<open>auto simp: mode_simps\<close>)
next
  case (rb_notify_all i s t cv ns)
  then show ?case by (intro rb_awake_notify_all)
next
  case (rb_spurious i s t cv)
  show ?case
    by (rule rb_awake_update [OF rb_spurious.prems(2) rb_spurious.hyps(1,2), where g = "rb_buf s" and
          t' = "t\<lparr>th_mode := Owing []\<rparr>"])
       (use rb_spurious.hyps(3) in \<open>simp_all add: mode_simps\<close>)
next
  case (rb_join i s t j)
  let ?t = "t\<lparr>th_results := th_results t @ [Done]\<rparr>"
  have f: "sleeping cv ?t = 0" "sleeping cv t = 0" "owed n ?t = 0" "owed n t = 0" "eager cv t = 0" for cv n
    using rb_join.hyps(3,4) by (auto simp: mode_simps)
  show ?case
    by (rule rb_awake_update [OF rb_join.prems(2) rb_join.hyps(1,2), where g = "rb_buf s" and t' = ?t])
       (use rb_join.hyps(3) in \<open>simp_all add: f\<close>)
qed

section \<open>Who put in and took out what\<close>

fun put_by :: "'a action option \<Rightarrow> 'a rb_result \<Rightarrow> 'a list" where
  "put_by (Some (Call op)) r = put_in op r"
| "put_by _ _ = []"

definition offered :: "'a thread \<Rightarrow> 'a list" where
  "offered t = concat (map (\<lambda>k. put_by (th_next t (take k (th_results t))) (th_results t ! k))
     [0..<length (th_results t)])"

definition taken :: "'a thread \<Rightarrow> 'a list" where
  "taken t = concat (map took_out (th_results t))"

definition rb_ledger :: "'a rb_system \<Rightarrow> bool" where
  "rb_ledger s \<longleftrightarrow>
     mset (rb_in s) = tally (\<lambda>t. mset (offered t)) (rb_threads s) \<and>
     mset (rb_out s) = tally (\<lambda>t. mset (taken t)) (rb_threads s)"

lemma offered_mode [simp]: "offered (t\<lparr>th_mode := m\<rparr>) = offered t"
  and taken_mode [simp]: "taken (t\<lparr>th_mode := m\<rparr>) = taken t"
  by (simp_all add: offered_def taken_def)

lemma offered_result:
  "offered (t\<lparr>th_results := th_results t @ [r]\<rparr>) = offered t @ put_by (wants t) r"
proof -
  have "map (\<lambda>k. put_by (th_next t (take k (th_results t @ [r]))) ((th_results t @ [r]) ! k)) [0..<length (th_results t)] =
     map (\<lambda>k. put_by (th_next t (take k (th_results t))) (th_results t ! k)) [0..<length (th_results t)]"
    by (intro map_cong refl) (simp add: nth_append)
  moreover have "take (length (th_results t)) (th_results t @ [r]) = th_results t" by simp
  ultimately show ?thesis by (simp add: offered_def wants_def del: take_append map_eq_conv)
qed

lemma taken_result: "taken (t\<lparr>th_results := th_results t @ [r]\<rparr>) = taken t @ took_out r"
  by (simp add: taken_def)

lemma wake_ledger [simp]: "offered (wake cv t) = offered t" "taken (wake cv t) = taken t"
  by (simp_all add: wake_def)

lemma tally_same: "i < length ts \<Longrightarrow> f x = f (ts ! i) \<Longrightarrow> tally f (ts[i := x]) = tally f ts"
  for f :: "'a thread \<Rightarrow> 'b::cancel_comm_monoid_add"
  using tally_update [of i ts f x] by simp

lemma rb_ledger_step: "rb_step s s' \<Longrightarrow> rb_ledger s \<Longrightarrow> rb_ledger s'"
proof (induction rule: rb_step.induct)
  case (rb_return i s t op r ns g)
  let ?t = "t\<lparr>th_results := th_results t @ [r], th_mode := Owing ns\<rparr>"
  note up = tally_update [OF rb_return.hyps(1), of _ ?t, unfolded rb_return.hyps(2)]
  have "tally (\<lambda>t. mset (offered t)) ((rb_threads s)[i := ?t]) =
      tally (\<lambda>t. mset (offered t)) (rb_threads s) + mset (put_in op r)"
    using up [of "\<lambda>t. mset (offered t)"] by (simp add: offered_result rb_return.hyps(4) ac_simps)
  moreover have "tally (\<lambda>t. mset (taken t)) ((rb_threads s)[i := ?t]) =
      tally (\<lambda>t. mset (taken t)) (rb_threads s) + mset (took_out r)"
    using up [of "\<lambda>t. mset (taken t)"] by (simp add: taken_result ac_simps)
  ultimately show ?case using rb_return.prems by (simp add: rb_ledger_def)
next
  case (rb_notify_one i s t cv ns j u)
  then have "i \<noteq> j" by auto
  with rb_notify_one show ?case
    by (simp add: rb_ledger_def tally_same)
next
  case (rb_join i s t j)
  then show ?case
    by (simp add: rb_ledger_def tally_same offered_result taken_result)
qed (auto simp: rb_ledger_def tally_same tally_map)

section \<open>Reachable states\<close>

definition rb_inv :: "usize \<Rightarrow> 'a rb_system \<Rightarrow> bool" where
  "rb_inv cap s \<longleftrightarrow> rb_fifo cap s \<and> rb_awake s \<and> rb_ledger s"

lemma tally_0: "(\<And>t. t \<in> set ts \<Longrightarrow> f t = 0) \<Longrightarrow> tally f ts = 0"
  by (induction ts) (simp_all add: tally_def)

lemma rb_start_inv:
  assumes "rb_start cap programs = Some s"
  shows "0 < cap \<and> rb_inv cap s"
proof -
  have s: "0 < cap" "s = \<lparr>rb_buf = \<lparr>rb_queue = [], rb_capacity = cap, rb_closed = False\<rparr>,
      rb_threads = map spawn programs, rb_in = [], rb_out = []\<rparr>"
    using assms by (auto simp: rb_start_def rb_new_def split: if_splits)
  have "tally (sleeping cv) (map spawn programs) = 0" for cv
    by (rule tally_0) (auto simp: spawn_def sleeping_def)
  moreover have "tally (\<lambda>t. mset (offered t)) (map spawn programs) = {#}"
      "tally (\<lambda>t. mset (taken t)) (map spawn programs) = {#}"
    by (rule tally_0; auto simp: spawn_def offered_def taken_def)+
  ultimately show ?thesis
    by (auto simp: s rb_inv_def rb_fifo_def rb_awake_def rb_ledger_def spawn_def)
qed

lemma rb_inv_reachable: "rb_step\<^sup>*\<^sup>* s s' \<Longrightarrow> rb_inv cap s \<Longrightarrow> rb_inv cap s'"
  by (induction rule: rtranclp_induct)
     (auto simp: rb_inv_def intro: rb_fifo_step rb_awake_step rb_ledger_step)

text \<open>Whether a thread can take a step of its own, without a spurious wake-up.\<close>

definition can_move :: "'a rb_system \<Rightarrow> 'a thread \<Rightarrow> bool" where
  "can_move s t =
     (case th_mode t of
        Waiting _ \<Rightarrow> False
      | Owing (_ # _) \<Rightarrow> True
      | Owing [] \<Rightarrow>
          (case wants t of
             None \<Rightarrow> False
           | Some (Call _) \<Rightarrow> True
           | Some (Join j) \<Rightarrow> j < length (rb_threads s) \<and> finished (rb_threads s ! j)))"

lemma can_move_step:
  assumes "i < length (rb_threads s)" "can_move s (rb_threads s ! i)"
  shows "\<exists>s'. rb_step s s'"
proof (cases "th_mode (rb_threads s ! i)")
  case (Owing ns)
  show ?thesis
  proof (cases ns)
    case Nil
    with Owing assms consider op where "wants (rb_threads s ! i) = Some (Call op)"
      | j where "wants (rb_threads s ! i) = Some (Join j)" "j < length (rb_threads s)" "finished (rb_threads s ! j)"
      by (auto simp: can_move_def split: option.splits action.splits)
    then show ?thesis
    proof cases
      case 1
      obtain oc g where sec: "rb_section op (rb_buf s) = (oc, g)" by fastforce
      show ?thesis
      proof (cases oc)
        case (Waits cv)
        with sec show ?thesis using rb_wait [OF assms(1) refl] Owing Nil 1 by blast
      next
        case (Returns r ns')
        with sec show ?thesis using rb_return [OF assms(1) refl] Owing Nil 1 by blast
      qed
    next
      case 2
      then show ?thesis using rb_join [OF assms(1) refl] Owing Nil by blast
    qed
  next
    case (Cons n ns')
    show ?thesis
    proof (cases n)
      case (NotifyOne cv)
      show ?thesis
      proof (cases "\<exists>u \<in> set (rb_threads s). th_mode u = Waiting cv")
        case True
        then show ?thesis
          using rb_notify_one [OF assms(1) refl] Owing Cons NotifyOne by (metis in_set_conv_nth)
      next
        case False
        then show ?thesis using rb_notify_none [OF assms(1) refl] Owing Cons NotifyOne by blast
      qed
    next
      case (NotifyAll cv)
      then show ?thesis using rb_notify_all [OF assms(1) refl] Owing Cons by blast
    qed
  qed
qed (use assms in \<open>simp add: can_move_def\<close>)

lemma can_move_awake: "0 < owed n t \<Longrightarrow> can_move s t" "0 < eager cv t \<Longrightarrow> can_move s t"
  by (auto simp: owed_def eager_def can_move_def count_list_0_iff neq_Nil_conv
      split: mode.splits if_splits list.splits elim: wants_on.elims)

lemma tally_pos: "0 < (tally f ts :: nat) \<Longrightarrow> \<exists>t \<in> set ts. 0 < f t"
  using tally_zero [of f ts] by force

lemma no_lost_wakeup:
  assumes "rb_awake s" and "\<forall>t \<in> set (rb_threads s). \<not> can_move s t"
    and "t \<in> set (rb_threads s)" and "th_mode t = Waiting cv"
  shows "\<not> rb_closed (rb_buf s)" "usable cv (rb_buf s) = 0"
proof -
  have "0 < sleeping cv t" using assms(4) by (simp add: sleeping_def)
  then have W: "0 < tally (sleeping cv) (rb_threads s)"
    using assms(3) tally_le [of _ "rb_threads s" "sleeping cv"] by (metis in_set_conv_nth less_le_trans)
  have quiet: "tally (owed n) (rb_threads s) = 0" "tally (eager cv) (rb_threads s) = 0" for n
    using assms(2) tally_pos can_move_awake by (metis gr0I)+
  show "\<not> rb_closed (rb_buf s)" using rb_awakeD(2) [OF assms(1) W] quiet by auto
  then show "usable cv (rb_buf s) = 0" using rb_awakeD(3) [OF assms(1) W] quiet by auto
qed

section \<open>The functional test of the exercise\<close>

text \<open>The programs of \<open>demo_fonctionnelle\<close>: a producer pushes its values in order (and would panic on
  an error), a consumer pops until it is told that the buffer is closed, the main thread joins
  the producers, closes the buffer and joins the consumers.\<close>

definition producer :: "nat \<Rightarrow> (nat \<Rightarrow> 'a) \<Rightarrow> 'a rb_result list \<Rightarrow> 'a action option" where
  "producer n val rs =
     (if Failed \<in> set rs then None
      else if length rs < n then Some (Call (Push (val (length rs)))) else None)"

definition consumer :: "'a rb_result list \<Rightarrow> 'a action option" where
  "consumer rs = (if rs \<noteq> [] \<and> last rs = Failed then None else Some (Call Pop))"

definition main_thread :: "nat \<Rightarrow> nat \<Rightarrow> 'a rb_result list \<Rightarrow> 'a action option" where
  "main_thread n_prod n_cons rs =
     (if length rs < n_prod then Some (Join (length rs))
      else if length rs = n_prod then Some (Call Close)
      else if length rs \<le> n_prod + n_cons then Some (Join (length rs - 1))
      else None)"

definition demo_programs ::
  "nat \<Rightarrow> nat \<Rightarrow> nat \<Rightarrow> (nat \<Rightarrow> nat \<Rightarrow> 'a) \<Rightarrow> ('a rb_result list \<Rightarrow> 'a action option) list" where
  "demo_programs n_prod n_cons messages_par_prod val =
     map (\<lambda>p. producer messages_par_prod (val p)) [0..<n_prod] @ replicate n_cons consumer @
     [main_thread n_prod n_cons]"

definition demo_value :: "nat \<Rightarrow> nat \<Rightarrow> nat \<Rightarrow> u64" where
  "demo_value messages_par_prod p i = of_nat (p * messages_par_prod + i)"

definition demo_main :: "nat \<Rightarrow> nat \<Rightarrow> nat" where
  "demo_main n_prod n_cons = n_prod + n_cons"

text \<open>One step as each thread sees it.\<close>

lemma rb_step_thread:
  assumes "rb_step s s'" and "k < length (rb_threads s)"
  defines "t \<equiv> rb_threads s ! k" and "t' \<equiv> rb_threads s' ! k"
  shows "length (rb_threads s') = length (rb_threads s)" and "th_next t' = th_next t"
    and "finished t \<Longrightarrow> t' = t"
    and "th_results t' = th_results t \<or>
      (\<exists>op r ns. wants t = Some (Call op) \<and> rb_section op (rb_buf s) = (Returns r ns, rb_buf s') \<and>
         th_results t' = th_results t @ [r]) \<or>
      (\<exists>j. wants t = Some (Join j) \<and> j < length (rb_threads s) \<and> finished (rb_threads s ! j) \<and>
         th_results t' = th_results t @ [Done] \<and> rb_buf s' = rb_buf s)"
  using assms(1,2) unfolding t_def t'_def
  by (induction rule: rb_step.induct)
     (auto simp: finished_def wake_def nth_list_update dest: rb_section_waits(1))

lemma rb_step_buf:
  assumes "rb_step s s'"
  shows "rb_buf s' = rb_buf s \<or> (\<exists>k < length (rb_threads s). \<exists>op r ns.
    wants (rb_threads s ! k) = Some (Call op) \<and> rb_section op (rb_buf s) = (Returns r ns, rb_buf s') \<and>
    th_results (rb_threads s' ! k) = th_results (rb_threads s ! k) @ [r])"
  using assms by (induction rule: rb_step.induct) (auto dest: rb_section_waits(1) intro!: exI)

definition demo_inv :: "nat \<Rightarrow> nat \<Rightarrow> nat \<Rightarrow> (nat \<Rightarrow> nat \<Rightarrow> 'a) \<Rightarrow> 'a rb_system \<Rightarrow> bool" where
  "demo_inv n_prod n_cons m val s \<longleftrightarrow>
     (let ts = rb_threads s; joined = length (th_results (ts ! (n_prod + n_cons))) in
      map th_next ts = demo_programs n_prod n_cons m val \<and>
      (\<forall>p < n_prod. set (th_results (ts ! p)) \<subseteq> {Done} \<and> length (th_results (ts ! p)) \<le> m) \<and>
      (rb_closed (rb_buf s) \<longleftrightarrow> n_prod < joined) \<and>
      set (th_results (ts ! (n_prod + n_cons))) \<subseteq> {Done} \<and>
      (\<forall>p < min n_prod joined. finished (ts ! p)) \<and>
      (\<forall>c \<in> {n_prod..<n_prod + n_cons}.
         set (th_results (ts ! c)) \<subseteq> insert Failed (range Got) \<and>
         (Failed \<in> set (th_results (ts ! c)) \<longrightarrow> rb_closed (rb_buf s) \<and> rb_queue (rb_buf s) = [])))"

lemma demo_programs_simps:
  "length (demo_programs n_prod n_cons m val) = n_prod + n_cons + 1"
  "p < n_prod \<Longrightarrow> demo_programs n_prod n_cons m val ! p = producer m (val p)"
  "n_prod \<le> c \<Longrightarrow> c < n_prod + n_cons \<Longrightarrow> demo_programs n_prod n_cons m val ! c = consumer"
  "demo_programs n_prod n_cons m val ! (n_prod + n_cons) = main_thread n_prod n_cons"
  by (auto simp: demo_programs_def nth_append)

lemma demo_threads:
  assumes "demo_inv n_prod n_cons m val s"
  shows "length (rb_threads s) = n_prod + n_cons + 1"
    and "p < n_prod \<Longrightarrow> th_next (rb_threads s ! p) = producer m (val p)"
    and "n_prod \<le> c \<Longrightarrow> c < n_prod + n_cons \<Longrightarrow> th_next (rb_threads s ! c) = consumer"
    and "th_next (rb_threads s ! (n_prod + n_cons)) = main_thread n_prod n_cons"
proof -
  have progs: "map th_next (rb_threads s) = demo_programs n_prod n_cons m val"
    using assms by (simp add: demo_inv_def Let_def)
  then show len: "length (rb_threads s) = n_prod + n_cons + 1"
    by (metis demo_programs_simps(1) length_map)
  have "k < length (rb_threads s) \<Longrightarrow> th_next (rb_threads s ! k) = demo_programs n_prod n_cons m val ! k" for k
    using progs by (metis nth_map)
  then show "p < n_prod \<Longrightarrow> th_next (rb_threads s ! p) = producer m (val p)"
    and "n_prod \<le> c \<Longrightarrow> c < n_prod + n_cons \<Longrightarrow> th_next (rb_threads s ! c) = consumer"
    and "th_next (rb_threads s ! (n_prod + n_cons)) = main_thread n_prod n_cons"
    by (simp_all add: len demo_programs_simps)
qed

lemma demo_start_inv:
  "rb_start cap (demo_programs n_prod n_cons m val) = Some s \<Longrightarrow> demo_inv n_prod n_cons m val s"
  by (auto simp: rb_start_def rb_new_def demo_inv_def Let_def demo_programs_simps spawn_def comp_def
      split: if_splits)

lemma section_closed_empty:
  "rb_section op g = (Returns r ns, g') \<Longrightarrow> rb_closed g \<Longrightarrow> rb_queue g = [] \<Longrightarrow> rb_closed g' \<and> rb_queue g' = []"
  by (cases op) (auto simp: rb_push_def rb_pop_def rb_try_push_def rb_try_pop_def rb_close_def)

lemma section_closes:
  "rb_section op g = (Returns r ns, g') \<Longrightarrow> rb_closed g' \<longleftrightarrow> rb_closed g \<or> op = Close"
  by (cases op) (auto simp: rb_push_def rb_pop_def rb_try_push_def rb_try_pop_def rb_close_def
      split: if_splits list.splits)

lemma section_push: "rb_section (Push v) g = (Returns r ns, g') \<Longrightarrow> r = (if rb_closed g then Failed else Done)"
  by (auto simp: rb_push_def split: if_splits)

lemma section_pop:
  "rb_section Pop g = (Returns r ns, g') \<Longrightarrow>
   r \<in> range Got \<or> r = Failed \<and> rb_closed g' \<and> rb_queue g' = []"
  by (auto simp: rb_pop_def split: if_splits list.splits)

lemma producer_cases:
  "producer m val rs = Some a \<Longrightarrow> a = Call (Push (val (length rs))) \<and> length rs < m \<and> Failed \<notin> set rs"
  by (auto simp: producer_def split: if_splits)

lemma consumer_cases: "consumer rs = Some a \<Longrightarrow> a = Call Pop"
  by (auto simp: consumer_def split: if_splits)

lemma main_cases:
  "main_thread n_prod n_cons rs = Some a \<Longrightarrow>
   (a = Call Close \<and> length rs = n_prod) \<or>
   (\<exists>j. a = Join j \<and> j < n_prod + n_cons \<and> length rs \<noteq> n_prod \<and> (length rs < n_prod \<longrightarrow> j = length rs))"
  by (auto simp: main_thread_def split: if_splits)

lemma demo_inv_step:
  assumes step: "rb_step s s'" and inv: "demo_inv n_prod n_cons m val s"
  shows "demo_inv n_prod n_cons m val s'"
proof -
  let ?ts = "rb_threads s" and ?ts' = "rb_threads s'" and ?N = "n_prod + n_cons"
  note th = demo_threads [OF inv]
  note st = rb_step_thread [OF step]
  have main: "?N < length ?ts" using th(1) by simp
  have len': "length ?ts' = length ?ts" using st(1) [OF main] .
  have producers: "set (th_results (?ts ! p)) \<subseteq> {Done}" "length (th_results (?ts ! p)) \<le> m" if "p < n_prod" for p
    using inv that by (auto simp: demo_inv_def Let_def)
  have closed: "rb_closed (rb_buf s) \<longleftrightarrow> n_prod < length (th_results (?ts ! ?N))"
    using inv by (simp add: demo_inv_def Let_def)
  have joined: "p < n_prod \<Longrightarrow> p < length (th_results (?ts ! ?N)) \<Longrightarrow> finished (?ts ! p)" for p
    using inv by (simp add: demo_inv_def Let_def)
  have consumers: "set (th_results (?ts ! c)) \<subseteq> insert Failed (range Got)"
      "Failed \<in> set (th_results (?ts ! c)) \<Longrightarrow> rb_closed (rb_buf s) \<and> rb_queue (rb_buf s) = []"
    if "n_prod \<le> c" "c < ?N" for c
    using inv that by (auto simp: demo_inv_def Let_def)
  have progs: "map th_next ?ts' = demo_programs n_prod n_cons m val"
  proof -
    have "map th_next ?ts' = map th_next ?ts"
      using st(2) len' by (intro nth_equalityI) auto
    then show ?thesis using inv by (simp add: demo_inv_def Let_def)
  qed
  have keeps: "rb_closed (rb_buf s) \<Longrightarrow> rb_queue (rb_buf s) = [] \<Longrightarrow> rb_closed (rb_buf s') \<and> rb_queue (rb_buf s') = []"
    using rb_step_buf [OF step] section_closed_empty by metis
  have p': "set (th_results (?ts' ! p)) \<subseteq> {Done} \<and> length (th_results (?ts' ! p)) \<le> m" if "p < n_prod" for p
  proof -
    have p: "p < length ?ts" using th(1) that by simp
    show ?thesis
    proof (cases "wants (?ts ! p)")
      case None
      with st(4) [OF p] producers [OF that] show ?thesis by auto
    next
      case (Some a)
      then have a: "a = Call (Push (val p (length (th_results (?ts ! p)))))" "length (th_results (?ts ! p)) < m"
        using th(2) [OF that] by (auto simp: wants_def dest: producer_cases)
      have "\<not> rb_closed (rb_buf s)"
        using closed joined [OF that] Some that by (auto simp: finished_def)
      with Some a st(4) [OF p] section_push [of _ "rb_buf s" _ _ "rb_buf s'"]
      have "th_results (?ts' ! p) \<in> {th_results (?ts ! p), th_results (?ts ! p) @ [Done]}" by fastforce
      with a(2) producers [OF that] show ?thesis by auto
    qed
  qed
  have c': "set (th_results (?ts' ! c)) \<subseteq> insert Failed (range Got) \<and>
      (Failed \<in> set (th_results (?ts' ! c)) \<longrightarrow> rb_closed (rb_buf s') \<and> rb_queue (rb_buf s') = [])"
    if "n_prod \<le> c" "c < ?N" for c
  proof -
    have c: "c < length ?ts" using th(1) that by simp
    show ?thesis
      using st(4) [OF c] consumers [OF that] th(3) [OF that] keeps
      by (auto simp: wants_def dest!: consumer_cases section_pop)
  qed
  have dones: "set (th_results (?ts ! ?N)) \<subseteq> {Done}" using inv by (simp add: demo_inv_def Let_def)
  have m': "(rb_closed (rb_buf s') \<longleftrightarrow> n_prod < length (th_results (?ts' ! ?N))) \<and>
      set (th_results (?ts' ! ?N)) \<subseteq> {Done} \<and>
      (\<forall>p < min n_prod (length (th_results (?ts' ! ?N))). finished (?ts ! p))"
  proof -
    consider (same) "th_results (?ts' ! ?N) = th_results (?ts ! ?N)"
      | (join) j where "wants (?ts ! ?N) = Some (Join j)" "finished (?ts ! j)" "rb_buf s' = rb_buf s"
          "th_results (?ts' ! ?N) = th_results (?ts ! ?N) @ [Done]"
      | (close) op r ns where "wants (?ts ! ?N) = Some (Call op)"
          "rb_section op (rb_buf s) = (Returns r ns, rb_buf s')"
          "th_results (?ts' ! ?N) = th_results (?ts ! ?N) @ [r]"
      using st(4) [OF main] by blast
    then show ?thesis
    proof cases
      case same
      have "rb_closed (rb_buf s') = rb_closed (rb_buf s)"
      proof (rule ccontr)
        assume ch: "rb_closed (rb_buf s') \<noteq> rb_closed (rb_buf s)"
        then obtain k op r ns where k: "k < length ?ts" "wants (?ts ! k) = Some (Call op)"
            "rb_section op (rb_buf s) = (Returns r ns, rb_buf s')"
            "th_results (?ts' ! k) = th_results (?ts ! k) @ [r]"
          using rb_step_buf [OF step] by auto
        with ch section_closes have "op = Close" by blast
        moreover have "k \<noteq> ?N" using k(4) same by auto
        with k(1) th(1) consider "k < n_prod" | "n_prod \<le> k" "k < ?N" by linarith
        then have "wants (?ts ! k) \<noteq> Some (Call Close)"
          by cases (auto simp: wants_def th dest!: producer_cases consumer_cases)
        ultimately show False using k(2) by simp
      qed
      with same closed joined dones show ?thesis by simp
    next
      case join
      with closed joined dones th(4) show ?thesis
        by (auto simp: wants_def less_Suc_eq dest!: main_cases)
    next
      case close
      with th(4) have "op = Close" "length (th_results (?ts ! ?N)) = n_prod"
        by (auto simp: wants_def dest!: main_cases)
      with close(2) section_closes [OF close(2)] have "r = Done" "rb_closed (rb_buf s')"
        by (auto simp: rb_close_def)
      with \<open>length _ = n_prod\<close> close(3) joined dones show ?thesis by auto
    qed
  qed
  moreover have "finished (?ts' ! p)" if "p < n_prod" "finished (?ts ! p)" for p
    using st(3) that th(1) by simp
  ultimately show ?thesis
    using progs p' c' unfolding demo_inv_def Let_def by auto
qed

lemma demo_inv_reachable:
  "rb_step\<^sup>*\<^sup>* s s' \<Longrightarrow> demo_inv n_prod n_cons m val s \<Longrightarrow> demo_inv n_prod n_cons m val s'"
  by (induction rule: rtranclp_induct) (auto intro: demo_inv_step)

text \<open>When nobody can move everybody has finished.\<close>

lemma demo_not_stuck:
  assumes inv: "demo_inv n_prod n_cons m val s" "rb_inv cap s" and pos: "0 < cap" "0 < n_cons"
    and quiet: "\<forall>t \<in> set (rb_threads s). \<not> can_move s t"
  shows "\<forall>t \<in> set (rb_threads s). finished t"
proof -
  let ?ts = "rb_threads s" and ?N = "n_prod + n_cons"
  note th = demo_threads [OF inv(1)]
  have awake: "rb_awake s" and cap: "rb_capacity (rb_buf s) = cap"
    using inv(2) by (simp_all add: rb_inv_def rb_fifo_def)
  have mem: "k \<le> ?N \<Longrightarrow> ?ts ! k \<in> set ?ts" for k using th(1) by simp
  have closed: "rb_closed (rb_buf s) \<longleftrightarrow> n_prod < length (th_results (?ts ! ?N))"
    using inv(1) by (simp add: demo_inv_def Let_def)
  have still: "wants (?ts ! k) = Some (Call op) \<Longrightarrow> k \<le> ?N \<Longrightarrow> \<exists>cv. th_mode (?ts ! k) = Waiting cv" for k op
    using quiet mem [of k] by (fastforce simp: can_move_def split: mode.splits list.splits)
  have asleep: "wants_on cv (wants (?ts ! k))" "\<not> rb_closed (rb_buf s)" "usable cv (rb_buf s) = 0"
    if "k \<le> ?N" "th_mode (?ts ! k) = Waiting cv" for k cv
    using rb_awakeD(1) [OF awake] no_lost_wakeup [OF awake quiet] mem that by blast+
  have producer: "finished (?ts ! p) \<or> length (rb_queue (rb_buf s)) = cap \<and> \<not> rb_closed (rb_buf s)" if "p < n_prod" for p
  proof (cases "wants (?ts ! p)")
    case None
    with asleep(1) [of p] quiet mem [of p] that show ?thesis
      by (fastforce simp: finished_def can_move_def split: mode.splits list.splits)
  next
    case (Some a)
    then have "a = Call (Push (val p (length (th_results (?ts ! p)))))"
      using th(2) [OF that] by (auto simp: wants_def dest: producer_cases)
    with Some still that obtain cv where "th_mode (?ts ! p) = Waiting cv" by fastforce
    moreover from this have "cv = NotFull"
      using asleep(1) [of p] Some \<open>a = _\<close> that by (cases cv) auto
    moreover have "length (rb_queue (rb_buf s)) \<le> cap" using inv(2) by (simp add: rb_inv_def rb_fifo_def)
    ultimately show ?thesis using asleep(2,3) [of p] that cap by auto
  qed
  have consumer: "finished (?ts ! c) \<and> Failed \<in> set (th_results (?ts ! c)) \<or>
      rb_queue (rb_buf s) = [] \<and> \<not> rb_closed (rb_buf s)" if "n_prod \<le> c" "c < ?N" for c
  proof (cases "wants (?ts ! c)")
    case None
    then have "Failed \<in> set (th_results (?ts ! c))"
      using th(3) [OF that] by (auto simp: wants_def consumer_def split: if_splits) (metis last_in_set)
    with None asleep(1) [of c] quiet mem [of c] that show ?thesis
      by (fastforce simp: finished_def can_move_def split: mode.splits list.splits)
  next
    case (Some a)
    then have "a = Call Pop" using th(3) [OF that] by (auto simp: wants_def dest: consumer_cases)
    with Some still that obtain cv where "th_mode (?ts ! c) = Waiting cv" by fastforce
    moreover from this have "cv = NotEmpty"
      using asleep(1) [of c] Some \<open>a = _\<close> that by (cases cv) auto
    ultimately show ?thesis using asleep(2,3) [of c] that by auto
  qed
  have "\<not> (\<exists>cv. th_mode (?ts ! ?N) = Waiting cv)"
  proof
    assume "\<exists>cv. th_mode (?ts ! ?N) = Waiting cv"
    then obtain cv where "th_mode (?ts ! ?N) = Waiting cv" ..
    then have "wants_on cv (wants (?ts ! ?N))" using asleep(1) by simp
    then obtain a where "wants (?ts ! ?N) = Some a" "wants_on cv (Some a)" by (cases "wants (?ts ! ?N)") auto
    with th(4) show False by (cases cv) (auto simp: wants_def dest!: main_cases)
  qed
  moreover have unmoved: "\<not> can_move s (?ts ! ?N)" using quiet mem [of ?N] by simp
  ultimately have main: "th_mode (?ts ! ?N) = Owing []"
    by (cases "th_mode (?ts ! ?N)") (auto simp: can_move_def split: list.splits)
  have not_open: "rb_closed (rb_buf s)"
  proof (rule ccontr)
    assume unclosed: "\<not> rb_closed (rb_buf s)"
    moreover have "rb_queue (rb_buf s) = []"
    proof (rule ccontr)
      assume "rb_queue (rb_buf s) \<noteq> []"
      with consumer [of n_prod] pos have "Failed \<in> set (th_results (?ts ! n_prod))" by auto
      with inv(1) pos unclosed show False by (auto simp: demo_inv_def Let_def)
    qed
    ultimately have all: "p < n_prod \<Longrightarrow> finished (?ts ! p)" for p
      using producer [of p] pos by auto
    from unclosed closed have "length (th_results (?ts ! ?N)) \<le> n_prod" by simp
    with all main unmoved th(1,4) pos show False
      by (auto simp: can_move_def wants_def main_thread_def split: if_splits)
  qed
  have others: "k < ?N \<Longrightarrow> finished (?ts ! k)" for k
    using producer [of k] consumer [of k] not_open by (cases "k < n_prod") auto
  moreover have "finished (?ts ! ?N)"
  proof (cases "wants (?ts ! ?N)")
    case (Some a)
    with th(4) have "(a = Call Close) \<or> (\<exists>j. a = Join j \<and> j < ?N)" by (auto simp: wants_def dest!: main_cases)
    with Some main unmoved others th(1) show ?thesis by (auto simp: can_move_def)
  qed (simp add: finished_def main)
  ultimately show ?thesis
    using th(1) by (auto simp: in_set_conv_nth less_Suc_eq)
qed

section \<open>Running a schedule\<close>

text \<open>Thread \<open>i\<close> moves, if it can; a notification wakes the first sleeper.\<close>

definition rb_move :: "nat \<Rightarrow> 'a rb_system \<Rightarrow> 'a rb_system" where
  "rb_move i s =
     (let ts = rb_threads s; t = ts ! i in
      if \<not> (i < length ts \<and> can_move s t) then s
      else
        (case th_mode t of
           Owing (NotifyOne cv # ns) \<Rightarrow>
             (case List.find (\<lambda>j. th_mode (ts ! j) = Waiting cv) [0..<length ts] of
                Some j \<Rightarrow> s\<lparr>rb_threads := ts[i := t\<lparr>th_mode := Owing ns\<rparr>, j := (ts ! j)\<lparr>th_mode := Owing []\<rparr>]\<rparr>
              | None \<Rightarrow> s\<lparr>rb_threads := ts[i := t\<lparr>th_mode := Owing ns\<rparr>]\<rparr>)
         | Owing (NotifyAll cv # ns) \<Rightarrow> s\<lparr>rb_threads := map (wake cv) (ts[i := t\<lparr>th_mode := Owing ns\<rparr>])\<rparr>
         | _ \<Rightarrow>
             (case wants t of
                Some (Call op) \<Rightarrow>
                  (case rb_section op (rb_buf s) of
                     (Returns r ns, g) \<Rightarrow>
                       \<lparr>rb_buf = g, rb_threads = ts[i := t\<lparr>th_results := th_results t @ [r], th_mode := Owing ns\<rparr>],
                        rb_in = rb_in s @ put_in op r, rb_out = rb_out s @ took_out r\<rparr>
                   | (Waits cv, g) \<Rightarrow> s\<lparr>rb_buf := g, rb_threads := ts[i := t\<lparr>th_mode := Waiting cv\<rparr>]\<rparr>)
              | _ \<Rightarrow> s\<lparr>rb_threads := ts[i := t\<lparr>th_results := th_results t @ [Done]\<rparr>]\<rparr>)))"

lemma rb_move_steps: "rb_step\<^sup>*\<^sup>* s (rb_move i s)"
proof (cases "i < length (rb_threads s) \<and> can_move s (rb_threads s ! i)")
  case True
  let ?t = "rb_threads s ! i"
  have "rb_step s (rb_move i s)"
  proof (cases "th_mode ?t")
    case (Owing ns)
    show ?thesis
    proof (cases ns)
      case Nil
      with Owing have m: "th_mode ?t = Owing []" by simp
      show ?thesis
      proof (cases "wants ?t")
        case (Some a)
        then show ?thesis
          using True m rb_return [OF _ refl m] rb_wait [OF _ refl m] rb_join [OF _ refl m]
          by (cases a) (auto simp: rb_move_def can_move_def Let_def split: prod.splits outcome.splits)
      qed (use True m in \<open>auto simp: can_move_def\<close>)
    next
      case (Cons n ns')
      with Owing have m: "th_mode ?t = Owing (n # ns')" by simp
      show ?thesis
      proof (cases n)
        case (NotifyOne cv)
        show ?thesis
        proof (cases "List.find (\<lambda>j. th_mode (rb_threads s ! j) = Waiting cv) [0..<length (rb_threads s)]")
          case None
          then have "\<forall>u \<in> set (rb_threads s). th_mode u \<noteq> Waiting cv"
            by (auto simp: find_None_iff in_set_conv_nth)
          with None True m NotifyOne rb_notify_none [OF _ refl, of i s cv ns'] show ?thesis
            by (simp add: rb_move_def Let_def)
        next
          case (Some j)
          then have "j < length (rb_threads s)" "th_mode (rb_threads s ! j) = Waiting cv"
            by (auto simp: find_Some_iff)
          with Some True m NotifyOne rb_notify_one [OF _ refl _ _ refl, of i s cv ns' j] show ?thesis
            by (simp add: rb_move_def Let_def)
        qed
      next
        case (NotifyAll cv)
        with True m rb_notify_all [OF _ refl, of i s cv ns'] show ?thesis
          by (simp add: rb_move_def Let_def)
      qed
    qed
  qed (use True in \<open>auto simp: can_move_def\<close>)
  then show ?thesis by blast
qed (auto simp: rb_move_def)

definition rb_run :: "nat list \<Rightarrow> 'a rb_system \<Rightarrow> 'a rb_system" where
  "rb_run sched s = fold rb_move sched s"

lemma rb_run_steps: "rb_step\<^sup>*\<^sup>* s (rb_run sched s)"
  unfolding rb_run_def
proof (induction sched arbitrary: s)
  case (Cons i sched)
  then show ?case using rb_move_steps [of s i] by (auto intro: rtranclp_trans)
qed simp

section \<open>The values of the test\<close>

lemma offered_producer:
  assumes "th_next t = producer m val" "set (th_results t) \<subseteq> {Done}" "length (th_results t) \<le> m"
  shows "offered t = map val [0..<length (th_results t)]"
proof -
  have "put_by (th_next t (take k (th_results t))) (th_results t ! k) = [val k]"
    if "k < length (th_results t)" for k
  proof -
    have "th_results t ! k = Done" using assms(2) that by (meson nth_mem singletonD subsetD)
    moreover have "Failed \<notin> set (take k (th_results t))"
      using assms(2) by (auto dest: in_set_takeD)
    ultimately show ?thesis using assms(1,3) that by (simp add: producer_def)
  qed
  then have "offered t = concat (map (\<lambda>k. [val k]) [0..<length (th_results t)])"
    unfolding offered_def by (intro arg_cong [of _ _ concat] map_cong) auto
  then show ?thesis by (simp add: concat_map_singleton)
qed

lemma put_in_nothing: "(\<And>v. op \<noteq> Push v) \<Longrightarrow> (\<And>v. op \<noteq> TryPush v) \<Longrightarrow> put_in op r = []"
  by (cases op; cases r) auto

lemma offered_nothing:
  assumes "\<And>rs v. th_next t rs \<noteq> Some (Call (Push v))" "\<And>rs v. th_next t rs \<noteq> Some (Call (TryPush v))"
  shows "offered t = []"
proof -
  have "put_by (th_next t rs) r = []" for rs r
    using assms by (cases "(th_next t rs, r)" rule: put_by.cases) (auto intro!: put_in_nothing)
  then show ?thesis by (simp add: offered_def)
qed

lemma taken_nothing: "set (th_results t) \<subseteq> {Done} \<Longrightarrow> taken t = []"
  by (auto simp: taken_def)

lemma tally_split:
  assumes "length ts = n_prod + n_cons + 1"
  shows "tally f ts = (\<Sum>p \<leftarrow> [0..<n_prod]. f (ts ! p)) + (\<Sum>t \<leftarrow> take n_cons (drop n_prod ts). f t) +
    f (ts ! (n_prod + n_cons))"
proof -
  have "ts = take n_prod ts @ take n_cons (drop n_prod ts) @ drop (n_prod + n_cons) ts"
    by (metis append_take_drop_id drop_drop add.commute)
  moreover have "drop (n_prod + n_cons) ts = [ts ! (n_prod + n_cons)]"
    using assms by (simp add: Cons_nth_drop_Suc [symmetric])
  moreover have "take n_prod ts = map ((!) ts) [0..<n_prod]"
    using assms by (intro nth_equalityI) auto
  ultimately have "ts = map ((!) ts) [0..<n_prod] @ take n_cons (drop n_prod ts) @ [ts ! (n_prod + n_cons)]"
    by simp
  from arg_cong [OF this, of "\<lambda>ts. sum_list (map f ts)"] show ?thesis
    by (simp add: tally_def comp_def add.assoc)
qed

lemma sum_list_same: "(\<And>x. x \<in> set xs \<Longrightarrow> f x = g x) \<Longrightarrow> sum_list (map f xs) = sum_list (map g xs)"
  by (metis (mono_tags, lifting) map_eq_conv)

lemma sum_list_zero: "(\<And>x. x \<in> set xs \<Longrightarrow> f x = 0) \<Longrightarrow> sum_list (map f xs) = 0"
  by (induction xs) simp_all

lemma sum_list_concat: "sum_list (concat xss) = sum_list (map sum_list xss)"
  by (induction xss) simp_all

lemma demo_values:
  assumes inv: "demo_inv n_prod n_cons m val s" "rb_inv cap s" and pos: "0 < n_cons"
    and all: "\<forall>t \<in> set (rb_threads s). finished t"
  shows "mset (concat (map taken (take n_cons (drop n_prod (rb_threads s))))) =
    mset (concat (map (\<lambda>p. map (val p) [0..<m]) [0..<n_prod]))"
proof -
  let ?ts = "rb_threads s" and ?N = "n_prod + n_cons"
  note th = demo_threads [OF inv(1)]
  note split = tally_split [OF th(1)]
  have fin: "k \<le> ?N \<Longrightarrow> wants (?ts ! k) = None" for k
    using all th(1) by (simp add: finished_def)
  have prod: "offered (?ts ! p) = map (val p) [0..<m]" "taken (?ts ! p) = []" if "p < n_prod" for p
  proof -
    have d: "set (th_results (?ts ! p)) \<subseteq> {Done}" "length (th_results (?ts ! p)) \<le> m"
      using inv(1) that by (auto simp: demo_inv_def Let_def)
    then have "length (th_results (?ts ! p)) = m"
      using fin [of p] th(2) [OF that] that by (auto simp: wants_def producer_def split: if_splits)
    then show "offered (?ts ! p) = map (val p) [0..<m]" "taken (?ts ! p) = []"
      using offered_producer [OF th(2) [OF that] d] taken_nothing [OF d(1)] by simp_all
  qed
  have cons: "offered t = []" if "t \<in> set (take n_cons (drop n_prod ?ts))" for t
  proof -
    obtain c where c: "c < n_cons" "t = ?ts ! (n_prod + c)"
      using \<open>t \<in> _\<close> th(1) by (auto simp: in_set_conv_nth)
    then show ?thesis
      using th(3) [of "n_prod + c"] by (intro offered_nothing) (auto dest: consumer_cases)
  qed
  have main: "offered (?ts ! ?N) = []" "taken (?ts ! ?N) = []"
    using th(4) inv(1) by (auto intro!: offered_nothing taken_nothing dest!: main_cases simp: demo_inv_def Let_def)
  have "Failed \<in> set (th_results (?ts ! n_prod))"
    using fin [of n_prod] th(3) [of n_prod] pos
    by (auto simp: wants_def consumer_def split: if_splits) (metis last_in_set)
  then have "rb_queue (rb_buf s) = []" using inv(1) pos by (auto simp: demo_inv_def Let_def)
  then have "mset (rb_in s) = mset (rb_out s)" using inv(2) by (simp add: rb_inv_def rb_fifo_def)
  moreover have "mset (rb_in s) = tally (\<lambda>t. mset (offered t)) ?ts" "mset (rb_out s) = tally (\<lambda>t. mset (taken t)) ?ts"
    using inv(2) by (simp_all add: rb_inv_def rb_ledger_def)
  ultimately have "tally (\<lambda>t. mset (taken t)) ?ts = tally (\<lambda>t. mset (offered t)) ?ts" by metis
  moreover have "(\<Sum>p \<leftarrow> [0..<n_prod]. mset (taken (?ts ! p))) = {#}"
    "(\<Sum>p \<leftarrow> [0..<n_prod]. mset (offered (?ts ! p))) = (\<Sum>p \<leftarrow> [0..<n_prod]. mset (map (val p) [0..<m]))"
    "(\<Sum>t \<leftarrow> take n_cons (drop n_prod ?ts). mset (offered t)) = {#}"
    using cons by (intro sum_list_zero sum_list_same; simp add: prod)+
  ultimately have "(\<Sum>t \<leftarrow> take n_cons (drop n_prod ?ts). mset (taken t)) =
      (\<Sum>p \<leftarrow> [0..<n_prod]. mset (map (val p) [0..<m]))"
    unfolding split by (simp add: main)
  then show ?thesis by (simp add: mset_concat comp_def)
qed

lemma sum_blocks:
  "sum_list (concat (map (\<lambda>p. map (\<lambda>i. g (p * m + i)) [0..<m]) [0..<n])) = (\<Sum>i < n * m. g i :: 'b::comm_monoid_add)"
proof (induction n)
  case (Suc n)
  have "(\<Sum>i < Suc n * m. g i) = (\<Sum>i < n * m. g i) + (\<Sum>i = n * m..<n * m + m. g i)"
    by (simp add: add.commute sum.atLeastLessThan_concat lessThan_atLeast0)
  also have "(\<Sum>i = n * m..<n * m + m. g i) = (\<Sum>i \<leftarrow> [0..<m]. g (n * m + i))"
    by (simp add: sum.shift_bounds_nat_ivl [of g 0 "n * m" m, simplified, symmetric] add.commute
        interv_sum_list_conv_sum_set_nat sum_set_upt_conv_sum_list_nat
        flip: sum.shift_bounds_nat_ivl)
  finally show ?case using Suc.IH by simp
qed simp

section \<open>Properties\<close>

text \<open>C18. The buffer is a bounded FIFO queue whatever the threads do: in every state that any number
  of threads, running any programs over \<open>push\<close>, \<open>pop\<close>, \<open>try_push\<close>, \<open>try_pop\<close> and \<open>close\<close>, can reach,
  at most \<open>capacity\<close> values are buffered, the values taken out followed by those still in the
  buffer are the values put in, in order, and the values put in and taken out are exactly those
  of the calls that succeeded.\<close>

theorem ringbuffer_fifo:
  assumes "rb_start cap programs = Some s0" and "rb_step\<^sup>*\<^sup>* s0 s"
  shows "0 < cap \<and> length (rb_queue (rb_buf s)) \<le> cap \<and> rb_in s = rb_out s @ rb_queue (rb_buf s) \<and>
    mset (rb_in s) = tally (\<lambda>t. mset (offered t)) (rb_threads s) \<and>
    mset (rb_out s) = tally (\<lambda>t. mset (taken t)) (rb_threads s)"
  using rb_start_inv [OF assms(1)] rb_inv_reachable [OF assms(2), of cap]
  by (auto simp: rb_inv_def rb_fifo_def rb_ledger_def)

text \<open>One producer and one consumer on a buffer of capacity one, run to the end.\<close>

definition demo_schedule :: "nat list" where
  "demo_schedule = concat (replicate 8 [1, 0, 2])"

definition small_demo :: "u64 rb_system" where
  "small_demo = the (rb_start 1 (demo_programs 1 1 2 (demo_value 2)))"

lemma small_demo_start: "rb_start 1 (demo_programs 1 1 2 (demo_value 2)) = Some small_demo"
  by (simp add: small_demo_def rb_start_def rb_new_def)

theorem ringbuffer_fifo_witness:
  "length (rb_queue (rb_buf (rb_run demo_schedule small_demo))) \<le> 1 \<and>
   rb_in (rb_run demo_schedule small_demo) =
     rb_out (rb_run demo_schedule small_demo) @ rb_queue (rb_buf (rb_run demo_schedule small_demo))"
  using ringbuffer_fifo [OF small_demo_start rb_run_steps] by blast

text \<open>C17. No wake-up is lost: if in a reachable state no thread can move (every notification has been
  delivered and every running thread has finished or waits for another one), then a thread that
  still waits for an item sees an empty buffer, one that waits for a place sees a full one, and
  the buffer is not closed. In every other state some thread can take a step.\<close>

theorem ringbuffer_no_lost_wakeup:
  assumes "rb_start cap programs = Some s0" and "rb_step\<^sup>*\<^sup>* s0 s"
  shows "((\<exists>t \<in> set (rb_threads s). can_move s t) \<longrightarrow> (\<exists>s'. rb_step s s')) \<and>
    ((\<forall>t \<in> set (rb_threads s). \<not> can_move s t) \<longrightarrow>
      (\<forall>t \<in> set (rb_threads s).
         (th_mode t = Waiting NotEmpty \<longrightarrow> rb_queue (rb_buf s) = [] \<and> \<not> rb_closed (rb_buf s)) \<and>
         (th_mode t = Waiting NotFull \<longrightarrow> length (rb_queue (rb_buf s)) = cap \<and> \<not> rb_closed (rb_buf s))))"
proof -
  have inv: "rb_awake s" "rb_capacity (rb_buf s) = cap" "length (rb_queue (rb_buf s)) \<le> cap"
    using rb_inv_reachable [OF assms(2)] rb_start_inv [OF assms(1)] by (auto simp: rb_inv_def rb_fifo_def)
  have "(\<exists>t \<in> set (rb_threads s). can_move s t) \<Longrightarrow> \<exists>s'. rb_step s s'"
    by (metis can_move_step in_set_conv_nth)
  then show ?thesis using no_lost_wakeup [OF inv(1)] inv(2,3) by fastforce
qed

text \<open>A consumer alone waits on the empty buffer.\<close>

theorem ringbuffer_no_lost_wakeup_witness:
  "let s = rb_run [0] (the (rb_start 1 [consumer])) in
   th_mode (rb_threads s ! 0) = Waiting NotEmpty \<and> rb_queue (rb_buf s :: u64 rb_inner) = [] \<and> \<not> rb_closed (rb_buf s)"
proof -
  let ?s0 = "the (rb_start 1 [consumer]) :: u64 rb_system"
  have start: "rb_start 1 [consumer] = Some ?s0" by (simp add: rb_start_def rb_new_def)
  have "rb_threads (rb_run [0] ?s0) = [\<lparr>th_next = consumer, th_results = [], th_mode = Waiting NotEmpty\<rparr>]"
    by (simp add: rb_run_def rb_move_def rb_start_def rb_new_def spawn_def can_move_def wants_def consumer_def rb_pop_def)
  moreover from this have "\<forall>t \<in> set (rb_threads (rb_run [0] ?s0)). \<not> can_move (rb_run [0] ?s0) t"
    by (simp add: can_move_def)
  ultimately show ?thesis
    using ringbuffer_no_lost_wakeup [OF start rb_run_steps [of ?s0 "[0]"]] by (simp add: Let_def)
qed

text \<open>The functional test of the exercise: with at least one consumer, every run of the producers,
  the consumers and the main thread can always go on until all threads have finished, and then
  the consumers have received every value once: their sums add up to the sum of all values and
  their counts to \<open>n_prod * messages_par_prod\<close>, as the two final assertions demand.\<close>

theorem ringbuffer_demo_exact:
  assumes "rb_start cap (demo_programs n_prod n_cons m (demo_value m)) = Some s0" and "0 < n_cons"
    and "rb_step\<^sup>*\<^sup>* s0 s"
  shows "(\<exists>s'. rb_step s s') \<or>
    (\<forall>t \<in> set (rb_threads s). finished t) \<and>
    (\<Sum>t \<leftarrow> take n_cons (drop n_prod (rb_threads s)). sum_list (taken t)) = (\<Sum>i < n_prod * m. of_nat i) \<and>
    (\<Sum>t \<leftarrow> take n_cons (drop n_prod (rb_threads s)). length (taken t)) = n_prod * m"
proof (cases "\<exists>t \<in> set (rb_threads s). can_move s t")
  case True
  then show ?thesis by (metis can_move_step in_set_conv_nth)
next
  case False
  let ?cons = "take n_cons (drop n_prod (rb_threads s))"
  have cap: "0 < cap" and inv: "rb_inv cap s" "demo_inv n_prod n_cons m (demo_value m) s"
    using rb_start_inv [OF assms(1)] rb_inv_reachable [OF assms(3)] demo_start_inv [OF assms(1)]
      demo_inv_reachable [OF assms(3)] by auto
  have fin: "\<forall>t \<in> set (rb_threads s). finished t"
    using demo_not_stuck [OF inv(2,1) cap assms(2)] False by blast
  have vals: "mset (concat (map taken ?cons)) =
      mset (concat (map (\<lambda>p. map (\<lambda>i. of_nat (p * m + i)) [0..<m]) [0..<n_prod]))"
    using demo_values [OF inv(2,1) assms(2) fin] by (simp add: demo_value_def [abs_def])
  have "(\<Sum>t \<leftarrow> ?cons. sum_list (taken t)) = sum_list (concat (map taken ?cons))"
    by (simp add: sum_list_concat comp_def)
  also have "\<dots> = (\<Sum>i < n_prod * m. of_nat i)"
    using arg_cong [OF vals, of sum_mset] sum_blocks [of of_nat m n_prod] by (simp only: sum_mset_sum_list)
  finally have sums: "(\<Sum>t \<leftarrow> ?cons. sum_list (taken t)) = (\<Sum>i < n_prod * m. of_nat i)" .
  have "(\<Sum>t \<leftarrow> ?cons. length (taken t)) = length (concat (map taken ?cons))"
    by (simp add: length_concat comp_def)
  also have "\<dots> = n_prod * m"
    using arg_cong [OF vals, of size] by (simp only: size_mset) (simp add: length_concat comp_def sum_list_triv)
  finally show ?thesis using sums fin by blast
qed

lemma finished_no_step: "\<forall>t \<in> set (rb_threads s). finished t \<Longrightarrow> \<not> rb_step s s'"
  by (auto simp: finished_def elim!: rb_step.cases)

theorem ringbuffer_demo_exact_witness:
  "(\<Sum>t \<leftarrow> take 1 (drop 1 (rb_threads (rb_run demo_schedule small_demo))). sum_list (taken t)) = 1"
proof -
  have "list_all finished (rb_threads (rb_run demo_schedule small_demo))" by code_simp
  then have "\<not> (\<exists>s'. rb_step (rb_run demo_schedule small_demo) s')"
    using finished_no_step by (auto simp: list_all_iff)
  with ringbuffer_demo_exact [OF small_demo_start _ rb_run_steps [of small_demo demo_schedule]]
  show ?thesis by (simp add: numeral_2_eq_2)
qed

end
