(* ===== verification/Monitors.thy ===== *)
theory Monitors
  imports RingBuffer LatencyStats
begin

text \<open>
  The lock-protected structures of \<open>demos/src/bin/demo05_mutex_rwlock.rs\<close>: the counter behind a
  mutex, the configuration behind a reader-writer lock, and the bounded queue with two condition
  variables.

  The locale \<open>blocking_fifo\<close> is the contract a bounded queue offers to one user: seen through
  \<open>items\<close> it is a list, an insertion has to wait exactly when the list is full and a removal
  exactly when it is empty. The bounded queue of this demo and the ring buffer of exercise 5 are
  its two interpretations.
\<close>

section \<open>The counter\<close>

text \<open>A schedule is the list of the threads that hold the lock in turn, one increment each.\<close>

definition bench_mutex_counter :: "nat list \<Rightarrow> u64" where
  "bench_mutex_counter sched = foldl (\<lambda>guard _. guard + 1) 0 sched"

definition bench_parking_lot_counter :: "nat list \<Rightarrow> u64" where
  "bench_parking_lot_counter sched = foldl (\<lambda>guard _. guard + 1) 0 sched"

text \<open>The assertion at the end of both benchmarks.\<close>

lemma bench_mutex_exact:
  assumes "compteur_schedule threads (unat iterations) sched"
  shows "bench_mutex_counter sched = iterations * of_nat threads \<and>
    bench_parking_lot_counter sched = iterations * of_nat threads"
proof -
  have "bench_mutex_counter sched = of_nat (length sched)"
    by (induction sched rule: rev_induct) (auto simp: bench_mutex_counter_def)
  moreover have "bench_parking_lot_counter sched = bench_mutex_counter sched"
    by (simp add: bench_parking_lot_counter_def bench_mutex_counter_def)
  ultimately show ?thesis by (simp add: length_compteur_schedule [OF assms] mult.commute)
qed

section \<open>The configuration\<close>

record app_config =
  ac_server_port :: u16
  ac_max_connections :: u32
  ac_region :: string

definition app_config_new :: "u16 \<Rightarrow> u32 \<Rightarrow> string \<Rightarrow> app_config" where
  "app_config_new port max_conn region =
     \<lparr>ac_server_port = port, ac_max_connections = max_conn, ac_region = region\<rparr>"

text \<open>Readers share the lock and a writer holds it alone, so each access is one step.\<close>

record config_store =
  cf_inner :: app_config

definition config_store_new :: "app_config \<Rightarrow> config_store" where
  "config_store_new initial = \<lparr>cf_inner = initial\<rparr>"

definition config_get_port :: "config_store \<Rightarrow> u16" where
  "config_get_port st = ac_server_port (cf_inner st)"

definition config_snapshot :: "config_store \<Rightarrow> app_config" where
  "config_snapshot st = cf_inner st"

definition config_update :: "app_config \<Rightarrow> config_store \<Rightarrow> config_store" where
  "config_update new_config st = st\<lparr>cf_inner := new_config\<rparr>"

lemma config_last_update:
  "config_snapshot (foldl (\<lambda>st c. config_update c st) (config_store_new c0) cs) = last (c0 # cs)"
proof -
  have "foldl (\<lambda>st c. config_update c st) st cs = (if cs = [] then st else config_update (last cs) st)" for st
    by (induction cs arbitrary: st) (auto simp: config_update_def)
  then show ?thesis by (auto simp: config_snapshot_def config_store_new_def config_update_def)
qed

section \<open>The bounded queue\<close>

record 'a bounded_queue =
  bq_inner :: "'a list"
  bq_capacity :: usize

definition bq_new :: "usize \<Rightarrow> 'a bounded_queue option" where
  "bq_new capacity = (if capacity > 0 then Some \<lparr>bq_inner = [], bq_capacity = capacity\<rparr> else None)"

text \<open>The critical sections; here the notification is sent before the guard is dropped.\<close>

definition bq_push :: "'a \<Rightarrow> 'a bounded_queue \<Rightarrow> unit outcome \<times> 'a bounded_queue" where
  "bq_push item q =
     (if length (bq_inner q) \<ge> bq_capacity q then (Waits NotFull, q)
      else (Returns () [NotifyOne NotEmpty], q\<lparr>bq_inner := bq_inner q @ [item]\<rparr>))"

definition bq_pop :: "'a bounded_queue \<Rightarrow> 'a outcome \<times> 'a bounded_queue" where
  "bq_pop q =
     (case bq_inner q of
        [] \<Rightarrow> (Waits NotEmpty, q)
      | item # rest \<Rightarrow> (Returns item [NotifyOne NotFull], q\<lparr>bq_inner := rest\<rparr>))"

definition bq_len :: "'a bounded_queue \<Rightarrow> usize" where
  "bq_len q = length (bq_inner q)"

section \<open>The contract of a bounded queue\<close>

text \<open>An insertion or a removal that does not have to wait.\<close>

definition at_once :: "'r outcome \<times> 's \<Rightarrow> ('r \<times> 's) option" where
  "at_once x = (case x of (Returns r ns, s) \<Rightarrow> Some (r, s) | (Waits cv, s) \<Rightarrow> None)"

locale blocking_fifo =
  fixes push :: "'a \<Rightarrow> 's \<Rightarrow> 's option"
    and pop :: "'s \<Rightarrow> ('a \<times> 's) option"
    and items :: "'s \<Rightarrow> 'a list"
    and capacity :: "'s \<Rightarrow> nat"
    and ok :: "'s \<Rightarrow> bool"
  assumes push_full: "ok s \<Longrightarrow> push v s = None \<longleftrightarrow> length (items s) = capacity s"
    and push_items: "ok s \<Longrightarrow> push v s = Some s' \<Longrightarrow> ok s' \<and> items s' = items s @ [v] \<and> capacity s' = capacity s"
    and pop_empty: "ok s \<Longrightarrow> pop s = None \<longleftrightarrow> items s = []"
    and pop_items: "ok s \<Longrightarrow> pop s = Some (v, s') \<Longrightarrow> ok s' \<and> items s = v # items s' \<and> capacity s' = capacity s"
    and ok_bounded: "ok s \<Longrightarrow> length (items s) \<le> capacity s"
begin

fun push_all :: "'a list \<Rightarrow> 's \<Rightarrow> 's option" where
  "push_all [] s = Some s"
| "push_all (v # vs) s = (case push v s of None \<Rightarrow> None | Some s \<Rightarrow> push_all vs s)"

fun pop_many :: "nat \<Rightarrow> 's \<Rightarrow> ('a list \<times> 's) option" where
  "pop_many 0 s = Some ([], s)"
| "pop_many (Suc n) s =
     (case pop s of None \<Rightarrow> None
      | Some (v, s) \<Rightarrow> map_option (\<lambda>(vs, s). (v # vs, s)) (pop_many n s))"

lemma push_all_fits:
  assumes "ok s" and "length (items s) + length vs \<le> capacity s"
  shows "\<exists>s'. push_all vs s = Some s' \<and> ok s' \<and> items s' = items s @ vs \<and> capacity s' = capacity s"
  using assms
proof (induction vs arbitrary: s)
  case (Cons v vs)
  then have "push v s \<noteq> None" using push_full by auto
  then obtain s1 where "push v s = Some s1" by blast
  with Cons push_items [OF Cons.prems(1) this] show ?case by fastforce
qed simp

lemma pop_many_there:
  assumes "ok s" and "n \<le> length (items s)"
  shows "\<exists>s'. pop_many n s = Some (take n (items s), s') \<and> ok s' \<and> items s' = drop n (items s)"
  using assms
proof (induction n arbitrary: s)
  case (Suc n)
  then obtain v s1 where p: "pop s = Some (v, s1)" using pop_empty by fastforce
  with pop_items [OF Suc.prems(1) p] Suc show ?case by fastforce
qed simp

lemma fill_and_drain:
  assumes "ok s" and "items s = []" and "length vs \<le> capacity s"
  shows "\<exists>s' s''. push_all vs s = Some s' \<and> pop_many (length vs) s' = Some (vs, s'') \<and> items s'' = []"
  using push_all_fits [of s vs] pop_many_there [of _ "length vs"] assms by fastforce

end

definition rb_ok :: "'a rb_inner \<Rightarrow> bool" where
  "rb_ok g \<longleftrightarrow> length (rb_queue g) \<le> rb_capacity g \<and> \<not> rb_closed g"

definition rb_put_now :: "'a \<Rightarrow> 'a rb_inner \<Rightarrow> 'a rb_inner option" where
  "rb_put_now v g = (case at_once (rb_push v g) of Some (Inr _, g) \<Rightarrow> Some g | _ \<Rightarrow> None)"

definition rb_take_now :: "'a rb_inner \<Rightarrow> ('a \<times> 'a rb_inner) option" where
  "rb_take_now g = (case at_once (rb_pop g) of Some (Inr v, g) \<Rightarrow> Some (v, g) | _ \<Rightarrow> None)"

definition bq_ok :: "'a bounded_queue \<Rightarrow> bool" where
  "bq_ok q \<longleftrightarrow> length (bq_inner q) \<le> bq_capacity q"

definition bq_put_now :: "'a \<Rightarrow> 'a bounded_queue \<Rightarrow> 'a bounded_queue option" where
  "bq_put_now v q = map_option snd (at_once (bq_push v q))"

definition bq_take_now :: "'a bounded_queue \<Rightarrow> ('a \<times> 'a bounded_queue) option" where
  "bq_take_now q = at_once (bq_pop q)"

interpretation ring_buffer: blocking_fifo rb_put_now rb_take_now rb_queue rb_capacity rb_ok
  by unfold_locales
     (auto simp: rb_put_now_def rb_take_now_def rb_push_def rb_pop_def at_once_def rb_ok_def
       split: list.splits if_splits)

interpretation bounded_queue: blocking_fifo bq_put_now bq_take_now bq_inner bq_capacity bq_ok
  by unfold_locales
     (auto simp: bq_put_now_def bq_take_now_def bq_push_def bq_pop_def at_once_def bq_ok_def
       split: list.splits if_splits)

end
