(* ===== verification/QueueThreads.thy ===== *)
theory QueueThreads
  imports Monitors
begin

text \<open>
  The threads that \<open>demos/src/bin/demo05_mutex_rwlock.rs\<close> runs on its bounded queue and on its
  configuration store: part 3 of \<open>main\<close> with its two producers, three consumers and the thread
  that drains what is left, and the test with four producers and four consumers.

  The bounded queue is the monitor of \<open>RingBuffer\<close> whose buffer nobody closes: \<open>bq_section\<close> shows
  that each of its critical sections is the one of the ring buffer on the same list. So the threads
  run under \<open>rb_step\<close>. The queue sends its notification just before it drops the guard, the ring
  buffer just after: the runs of the queue are those in which a notification follows its section
  at once, and what is shown for every run holds for them.

  A thread that the source spawns in the middle of \<open>main\<close> is one that first joins the threads
  \<open>main\<close> had joined by then.
\<close>

section \<open>The bounded queue as a monitor\<close>

definition as_buffer :: "'a bounded_queue \<Rightarrow> 'a rb_inner" where
  "as_buffer q = \<lparr>rb_queue = bq_inner q, rb_capacity = bq_capacity q, rb_closed = False\<rparr>"

lemma bq_section:
  assumes "bq_ok q"
  shows "rb_section (Push v) (as_buffer q) = map_prod (map_outcome (\<lambda>_. Done)) as_buffer (bq_push v q)"
    and "rb_section Pop (as_buffer q) = map_prod (map_outcome Got) as_buffer (bq_pop q)"
    and "rb_section Len (as_buffer q) = (Returns (Counted (bq_len q)) [], as_buffer q)"
    and "map_option as_buffer (bq_new cap) = rb_new cap"
  using assms
  by (auto simp: bq_ok_def as_buffer_def rb_push_def rb_pop_def rb_len_def bq_push_def bq_pop_def bq_len_def
      rb_new_def bq_new_def split: list.splits)

section \<open>The programs\<close>

text \<open>A producer of the test pushes its values; one of \<open>main\<close> also prints the length after each.\<close>

definition test_producer :: "nat \<Rightarrow> (nat \<Rightarrow> 'a) \<Rightarrow> 'a rb_result list \<Rightarrow> 'a action option" where
  "test_producer n val rs =
     (if length rs < n then Some (Call (Push (val (length rs)))) else None)"

definition event_producer :: "nat \<Rightarrow> (nat \<Rightarrow> 'a) \<Rightarrow> 'a rb_result list \<Rightarrow> 'a action option" where
  "event_producer n val rs =
     (if length rs < 2 * n
      then Some (Call (if even (length rs) then Push (val (length rs div 2)) else Len))
      else None)"

definition taker :: "nat \<Rightarrow> 'a rb_result list \<Rightarrow> 'a action option" where
  "taker n rs = (if length rs < n then Some (Call Pop) else None)"

definition drain :: "nat \<Rightarrow> 'a rb_result list \<Rightarrow> 'a action option" where
  "drain n_prod rs =
     (if length rs < n_prod then Some (Join (length rs))
      else if length rs = n_prod then Some (Call Len)
      else if length rs = n_prod + 1
        then (case last rs of Counted n \<Rightarrow> if n > 0 then Some (Call Pop) else None | _ \<Rightarrow> None)
      else None)"

text \<open>\<open>main\<close> joins the producers, the consumers and the drain, then reads the length left.\<close>

definition queue_main :: "nat \<Rightarrow> nat \<Rightarrow> 'a rb_result list \<Rightarrow> 'a action option" where
  "queue_main n_prod n_cons rs =
     (if length rs < n_prod + n_cons + 1 then Some (Join (length rs))
      else if length rs = n_prod + n_cons + 1 then Some (Call Len)
      else None)"

definition queue_demo ::
  "nat \<Rightarrow> nat \<Rightarrow> nat \<Rightarrow> nat \<Rightarrow> (nat \<Rightarrow> nat \<Rightarrow> 'a) \<Rightarrow> ('a rb_result list \<Rightarrow> 'a action option) list" where
  "queue_demo n_prod n_cons n k val =
     map (\<lambda>p. event_producer n (val p)) [0..<n_prod] @ replicate n_cons (taker k) @
     [drain n_prod, queue_main n_prod n_cons]"

definition queue_test ::
  "nat \<Rightarrow> nat \<Rightarrow> nat \<Rightarrow> nat \<Rightarrow> (nat \<Rightarrow> nat \<Rightarrow> 'a) \<Rightarrow> ('a rb_result list \<Rightarrow> 'a action option) list" where
  "queue_test n_prod n_cons n k val =
     map (\<lambda>p. test_producer n (val p)) [0..<n_prod] @ replicate n_cons (taker k)"

text \<open>The messages of \<open>main\<close> and the numbers of the test.\<close>

definition event_name :: "nat \<Rightarrow> nat \<Rightarrow> string" where
  "event_name p i = ''event-p'' @ show_nat p @ ''-#'' @ show_nat i"

definition test_item :: "nat \<Rightarrow> nat \<Rightarrow> u32" where
  "test_item p i = of_nat p * 1000 + of_nat i"

definition consumer_sum :: "u32 thread \<Rightarrow> u64" where
  "consumer_sum t = (\<Sum>x \<leftarrow> taken t. ucast x)"

section \<open>Histories\<close>

text \<open>What a call can answer on a buffer that is never closed, and the answers a program can have
  had so far.\<close>

fun answers :: "'a action \<Rightarrow> 'a rb_result \<Rightarrow> bool" where
  "answers (Call (Push v)) r \<longleftrightarrow> r = Done"
| "answers (Call Pop) r \<longleftrightarrow> r \<in> range Got"
| "answers (Call (TryPush v)) r \<longleftrightarrow> r \<in> {Done, Failed}"
| "answers (Call TryPop) r \<longleftrightarrow> r \<in> insert Empty (range Got)"
| "answers (Call Close) r \<longleftrightarrow> r = Done"
| "answers (Call Len) r \<longleftrightarrow> r \<in> range Counted"
| "answers (Join j) r \<longleftrightarrow> r = Done"

inductive history :: "('a rb_result list \<Rightarrow> 'a action option) \<Rightarrow> 'a rb_result list \<Rightarrow> bool" for f where
  history_start: "history f []"
| history_snoc: "history f rs \<Longrightarrow> f rs = Some a \<Longrightarrow> answers a r \<Longrightarrow> history f (rs @ [r])"

lemma history_answers:
  "history f rs \<Longrightarrow> i < length rs \<Longrightarrow> \<exists>a. f (take i rs) = Some a \<and> answers a (rs ! i)"
  by (induction arbitrary: i rule: history.induct) (auto simp: nth_append less_Suc_eq)

definition never_closes :: "'a thread \<Rightarrow> bool" where
  "never_closes t \<longleftrightarrow> (\<forall>rs. th_next t rs \<noteq> Some (Call Close))"

definition open_inv :: "'a rb_system \<Rightarrow> bool" where
  "open_inv s \<longleftrightarrow> \<not> rb_closed (rb_buf s) \<and>
     (\<forall>t \<in> set (rb_threads s). never_closes t \<and> history (th_next t) (th_results t))"

lemma section_answers:
  "rb_section op g = (Returns r ns, g') \<Longrightarrow> \<not> rb_closed g \<Longrightarrow> answers (Call op) r"
  by (cases op) (auto simp: rb_push_def rb_pop_def rb_try_push_def rb_try_pop_def rb_close_def
      split: if_splits list.splits)

lemma open_inv_step:
  assumes "rb_step s s'" and inv: "open_inv s"
  shows "open_inv s'"
proof -
  note st = rb_step_thread [OF assms(1)]
  have len: "length (rb_threads s') = length (rb_threads s)"
    using assms(1) by (induction rule: rb_step.induct) auto
  have open_buf: "\<not> rb_closed (rb_buf s)" using inv by (simp add: open_inv_def)
  have old: "never_closes (rb_threads s ! k)" "history (th_next (rb_threads s ! k)) (th_results (rb_threads s ! k))"
    if "k < length (rb_threads s)" for k
    using inv that by (simp_all add: open_inv_def)
  have "never_closes (rb_threads s' ! k) \<and> history (th_next (rb_threads s' ! k)) (th_results (rb_threads s' ! k))"
    if k: "k < length (rb_threads s)" for k
  proof -
    let ?t = "rb_threads s ! k" and ?t' = "rb_threads s' ! k"
    note extend = history_snoc [OF old(2) [OF k], folded wants_def]
    from st(4) [OF k] consider "th_results ?t' = th_results ?t"
      | op r ns where "wants ?t = Some (Call op)" "rb_section op (rb_buf s) = (Returns r ns, rb_buf s')"
          "th_results ?t' = th_results ?t @ [r]"
      | j where "wants ?t = Some (Join j)" "th_results ?t' = th_results ?t @ [Done]"
      by blast
    then have "history (th_next ?t) (th_results ?t')"
    proof cases
      case 1
      with old(2) [OF k] show ?thesis by simp
    next
      case 2
      with extend [of "Call op" r] section_answers [OF 2(2) open_buf] show ?thesis by simp
    next
      case 3
      with extend [of "Join j" Done] show ?thesis by simp
    qed
    with st(2) [OF k] old(1) [OF k] show ?thesis by (simp add: never_closes_def)
  qed
  moreover have "\<not> rb_closed (rb_buf s')"
    using rb_step_buf [OF assms(1)]
  proof
    assume "\<exists>k < length (rb_threads s). \<exists>op r ns. wants (rb_threads s ! k) = Some (Call op) \<and>
      rb_section op (rb_buf s) = (Returns r ns, rb_buf s') \<and>
      th_results (rb_threads s' ! k) = th_results (rb_threads s ! k) @ [r]"
    then obtain k op r ns where k: "k < length (rb_threads s)" "wants (rb_threads s ! k) = Some (Call op)"
        "rb_section op (rb_buf s) = (Returns r ns, rb_buf s')"
      by blast
    with old(1) [OF k(1)] have "op \<noteq> Close" by (auto simp: never_closes_def wants_def)
    with section_closes [OF k(3)] open_buf show ?thesis by simp
  qed (use open_buf in simp)
  ultimately show ?thesis
    by (auto simp: open_inv_def in_set_conv_nth len)
qed

lemma open_inv_start:
  assumes "rb_start cap programs = Some s" and "\<And>f rs. f \<in> set programs \<Longrightarrow> f rs \<noteq> Some (Call Close)"
  shows "open_inv s"
proof -
  have "history f []" for f :: "'a rb_result list \<Rightarrow> 'a action option" by (rule history_start)
  with assms show ?thesis
    by (auto simp: rb_start_def rb_new_def open_inv_def never_closes_def spawn_def split: if_splits)
qed

lemma programs_fixed:
  assumes "rb_step\<^sup>*\<^sup>* s s'"
  shows "map th_next (rb_threads s') = map th_next (rb_threads s)"
  using assms
proof (induction rule: rtranclp_induct)
  case (step s1 s2)
  have "length (rb_threads s2) = length (rb_threads s1)"
    using step(2) by (induction rule: rb_step.induct) auto
  then have "map th_next (rb_threads s2) = map th_next (rb_threads s1)"
    using rb_step_thread(2) [OF step(2)] by (intro nth_equalityI) auto
  with step show ?case by simp
qed simp

lemma start_programs: "rb_start cap programs = Some s \<Longrightarrow> map th_next (rb_threads s) = programs"
  by (auto simp: rb_start_def rb_new_def spawn_def comp_def split: if_splits)

text \<open>What the history of each program says of its thread.\<close>

lemma offered_snoc:
  "offered \<lparr>th_next = f, th_results = rs @ [r], th_mode = m\<rparr> =
   offered \<lparr>th_next = f, th_results = rs, th_mode = m\<rparr> @ put_by (f rs) r"
  using offered_result [of "\<lparr>th_next = f, th_results = rs, th_mode = m\<rparr>" r] by (simp add: wants_def)

lemma taken_snoc:
  "taken \<lparr>th_next = f, th_results = rs @ [r], th_mode = m\<rparr> =
   taken \<lparr>th_next = f, th_results = rs, th_mode = m\<rparr> @ took_out r"
  by (simp add: taken_def)

lemma ledger_empty [simp]:
  "offered \<lparr>th_next = f, th_results = [], th_mode = m\<rparr> = []"
  "taken \<lparr>th_next = f, th_results = [], th_mode = m\<rparr> = []"
  by (simp_all add: offered_def taken_def)

lemmas history_ledger = offered_snoc taken_snoc

lemma history_thread:
  assumes "history (th_next t) (th_results t)"
    and "\<And>f rs m. history f rs \<Longrightarrow> f = th_next t \<Longrightarrow> P \<lparr>th_next = f, th_results = rs, th_mode = m\<rparr>"
  shows "P t"
  using assms(2) [OF assms(1) refl, of "th_mode t"] by (cases t) simp


lemma event_producer_history:
  assumes "history f rs" and "f = event_producer n val"
  shows "length rs \<le> 2 * n \<and>
    offered \<lparr>th_next = f, th_results = rs, th_mode = m\<rparr> = map val [0..<(length rs + 1) div 2] \<and>
    taken \<lparr>th_next = f, th_results = rs, th_mode = m\<rparr> = []"
  using assms
proof (induction rule: history.induct)
  case (history_snoc rs a r)
  then show ?case
    by (auto simp: history_ledger event_producer_def split: if_splits elim!: evenE oddE)
qed simp

lemma test_producer_history:
  assumes "history f rs" and "f = test_producer n val"
  shows "length rs \<le> n \<and>
    offered \<lparr>th_next = f, th_results = rs, th_mode = m\<rparr> = map val [0..<length rs] \<and>
    taken \<lparr>th_next = f, th_results = rs, th_mode = m\<rparr> = []"
  using assms
proof (induction rule: history.induct)
  case (history_snoc rs a r)
  then show ?case by (auto simp: history_ledger test_producer_def split: if_splits)
qed simp

lemma taker_history:
  assumes "history f rs" and "f = taker k"
  shows "length rs \<le> k \<and>
    offered \<lparr>th_next = f, th_results = rs, th_mode = m\<rparr> = [] \<and>
    length (taken \<lparr>th_next = f, th_results = rs, th_mode = m\<rparr>) = length rs"
  using assms
proof (induction rule: history.induct)
  case (history_snoc rs a r)
  then show ?case by (auto simp: history_ledger taker_def split: if_splits)
qed simp

lemma drain_history:
  assumes "history f rs" and "f = drain n_prod"
  shows "length rs \<le> n_prod + 2 \<and>
    offered \<lparr>th_next = f, th_results = rs, th_mode = m\<rparr> = [] \<and>
    length (taken \<lparr>th_next = f, th_results = rs, th_mode = m\<rparr>) = length rs - (n_prod + 1)"
  using assms
proof (induction rule: history.induct)
  case (history_snoc rs a r)
  then show ?case
    by (auto simp: history_ledger drain_def split: if_splits rb_result.splits)
qed simp

lemma queue_main_history:
  assumes "history f rs" and "f = queue_main n_prod n_cons"
  shows "length rs \<le> n_prod + n_cons + 2 \<and>
    offered \<lparr>th_next = f, th_results = rs, th_mode = m\<rparr> = [] \<and>
    taken \<lparr>th_next = f, th_results = rs, th_mode = m\<rparr> = []"
  using assms
proof (induction rule: history.induct)
  case (history_snoc rs a r)
  then show ?case by (auto simp: history_ledger queue_main_def split: if_splits)
qed simp

section \<open>Joining\<close>

text \<open>A join that has returned found its thread finished, and a finished thread stays so.\<close>

definition joined_inv :: "'a rb_system \<Rightarrow> bool" where
  "joined_inv s \<longleftrightarrow> (\<forall>t \<in> set (rb_threads s). \<forall>k < length (th_results t). \<forall>j.
     th_next t (take k (th_results t)) = Some (Join j) \<longrightarrow> finished (rb_threads s ! j) \<and> j < length (rb_threads s))"

lemma joined_inv_start: "rb_start cap programs = Some s \<Longrightarrow> joined_inv s"
  by (auto simp: rb_start_def rb_new_def joined_inv_def spawn_def split: if_splits)

lemma joined_inv_step:
  assumes "rb_step s s'" and inv: "joined_inv s"
  shows "joined_inv s'"
proof -
  note st = rb_step_thread [OF assms(1)]
  have len: "length (rb_threads s') = length (rb_threads s)"
    using assms(1) by (induction rule: rb_step.induct) auto
  have "finished (rb_threads s' ! j) \<and> j < length (rb_threads s)"
    if i: "i < length (rb_threads s)" and k: "k < length (th_results (rb_threads s' ! i))"
      and j: "th_next (rb_threads s' ! i) (take k (th_results (rb_threads s' ! i))) = Some (Join j)" for i k j
  proof -
    let ?t = "rb_threads s ! i"
    have old: "finished (rb_threads s ! j) \<and> j < length (rb_threads s)"
      if "k < length (th_results ?t)" "th_next ?t (take k (th_results ?t)) = Some (Join j)"
      using inv nth_mem [OF i] that unfolding joined_inv_def by blast+
    have "finished (rb_threads s ! j) \<and> j < length (rb_threads s)"
      using st(4) [OF i]
    proof (elim disjE exE conjE)
      assume "th_results (rb_threads s' ! i) = th_results ?t"
      with old k j st(2) [OF i] show ?thesis by simp
    next
      fix op r ns
      assume "wants ?t = Some (Call op)" "th_results (rb_threads s' ! i) = th_results ?t @ [r]"
      with old k j st(2) [OF i] show ?thesis by (auto simp: wants_def less_Suc_eq)
    next
      fix l
      assume "wants ?t = Some (Join l)" "l < length (rb_threads s)" "finished (rb_threads s ! l)"
        "th_results (rb_threads s' ! i) = th_results ?t @ [Done]"
      with old k j st(2) [OF i] show ?thesis by (auto simp: wants_def less_Suc_eq)
    qed
    with st(3) show ?thesis by auto
  qed
  then show ?thesis by (auto simp: joined_inv_def len in_set_conv_nth)
qed

section \<open>Counting\<close>

lemma tally_nth: "tally f ts = (\<Sum>i < length ts. f (ts ! i))"
  by (simp add: tally_def sum_list_sum_nth lessThan_atLeast0)

lemma sum_lessThan_add_nat: "(\<Sum>i < m + n. f i) = (\<Sum>i < m. f i) + (\<Sum>i < (n :: nat). f (m + i) :: nat)"
  by (induction n) simp_all

lemma ledger_lengths:
  assumes "rb_inv cap s"
  shows "length (rb_in s) = (\<Sum>i < length (rb_threads s). length (offered (rb_threads s ! i)))"
    and "length (rb_out s) = (\<Sum>i < length (rb_threads s). length (taken (rb_threads s ! i)))"
    and "length (rb_in s) = length (rb_out s) + length (rb_queue (rb_buf s))"
proof -
  have size: "size (\<Sum>i < n. mset (f i)) = (\<Sum>i < (n :: nat). length (f i))" for f :: "nat \<Rightarrow> 'a list" and n
    by (induction n) simp_all
  have "mset (rb_in s) = (\<Sum>i < length (rb_threads s). mset (offered (rb_threads s ! i)))"
    "mset (rb_out s) = (\<Sum>i < length (rb_threads s). mset (taken (rb_threads s ! i)))"
    using assms by (simp_all add: rb_inv_def rb_ledger_def tally_nth)
  from this [THEN arg_cong [of _ _ size]] size
  show "length (rb_in s) = (\<Sum>i < length (rb_threads s). length (offered (rb_threads s ! i)))"
    "length (rb_out s) = (\<Sum>i < length (rb_threads s). length (taken (rb_threads s ! i)))"
    by (metis size_mset)+
  show "length (rb_in s) = length (rb_out s) + length (rb_queue (rb_buf s))"
    using assms by (simp add: rb_inv_def rb_fifo_def)
qed

text \<open>When nobody can move, a thread has finished, waits for a place or an item, or joins one that
  has not finished.\<close>

lemma quiet_thread:
  assumes inv: "rb_inv cap s" and quiet: "\<forall>t \<in> set (rb_threads s). \<not> can_move s t"
    and t: "t \<in> set (rb_threads s)"
  shows "finished t \<or>
    (\<exists>v. wants t = Some (Call (Push v)) \<and> length (rb_queue (rb_buf s)) = cap) \<or>
    (wants t = Some (Call Pop) \<and> rb_queue (rb_buf s) = []) \<or>
    (\<exists>j. wants t = Some (Join j) \<and> \<not> (j < length (rb_threads s) \<and> finished (rb_threads s ! j)))"
proof (cases "th_mode t")
  case (Waiting cv)
  have awake: "rb_awake s" and fifo: "rb_capacity (rb_buf s) = cap" "length (rb_queue (rb_buf s)) \<le> cap"
    using inv by (simp_all add: rb_inv_def rb_fifo_def)
  have "wants_on cv (wants t)" "usable cv (rb_buf s) = 0"
    using rb_awakeD(1) [OF awake t Waiting] no_lost_wakeup(2) [OF awake quiet t Waiting] by auto
  then show ?thesis
    using fifo by (cases "(cv, wants t)" rule: wants_on.cases) auto
next
  case (Owing ns)
  have still: "\<not> can_move s t" using quiet t by blast
  with Owing have "ns = []" by (cases ns) (simp_all add: can_move_def)
  show ?thesis
  proof (cases "wants t")
    case (Some a)
    with still Owing \<open>ns = []\<close> show ?thesis by (cases a) (simp_all add: can_move_def)
  qed (simp add: finished_def Owing \<open>ns = []\<close>)
qed


section \<open>Part 3 of main\<close>

text \<open>The threads by their index: producers, consumers, the drain, \<open>main\<close>.\<close>

definition queue_demo_inv ::
  "usize \<Rightarrow> nat \<Rightarrow> nat \<Rightarrow> nat \<Rightarrow> nat \<Rightarrow> (nat \<Rightarrow> nat \<Rightarrow> 'a) \<Rightarrow> 'a rb_system \<Rightarrow> bool" where
  "queue_demo_inv cap n_prod n_cons n k val s \<longleftrightarrow>
     rb_inv cap s \<and> open_inv s \<and> joined_inv s \<and>
     map th_next (rb_threads s) = queue_demo n_prod n_cons n k val \<and>
     (let dr = th_results (rb_threads s ! (n_prod + n_cons));
          mr = th_results (rb_threads s ! (n_prod + n_cons + 1)) in
      (n_prod < length dr \<longrightarrow> (\<exists>l > 0. dr ! n_prod = Counted l)) \<and>
      (n_prod + n_cons + 1 < length mr \<longrightarrow> mr ! (n_prod + n_cons + 1) = Counted 0))"

lemma queue_demo_simps:
  "length (queue_demo n_prod n_cons n k val) = n_prod + n_cons + 2"
  "p < n_prod \<Longrightarrow> queue_demo n_prod n_cons n k val ! p = event_producer n (val p)"
  "n_prod \<le> c \<Longrightarrow> c < n_prod + n_cons \<Longrightarrow> queue_demo n_prod n_cons n k val ! c = taker k"
  "queue_demo n_prod n_cons n k val ! (n_prod + n_cons) = drain n_prod"
  "queue_demo n_prod n_cons n k val ! Suc (n_prod + n_cons) = queue_main n_prod n_cons"
  by (auto simp: queue_demo_def nth_append)

lemma queue_demo_threads:
  assumes "queue_demo_inv cap n_prod n_cons n k val s"
  shows "length (rb_threads s) = n_prod + n_cons + 2"
    and "p < n_prod \<Longrightarrow> th_next (rb_threads s ! p) = event_producer n (val p)"
    and "n_prod \<le> c \<Longrightarrow> c < n_prod + n_cons \<Longrightarrow> th_next (rb_threads s ! c) = taker k"
    and "th_next (rb_threads s ! (n_prod + n_cons)) = drain n_prod"
    and "th_next (rb_threads s ! Suc (n_prod + n_cons)) = queue_main n_prod n_cons"
proof -
  have progs: "map th_next (rb_threads s) = queue_demo n_prod n_cons n k val"
    using assms by (simp add: queue_demo_inv_def)
  then show len: "length (rb_threads s) = n_prod + n_cons + 2"
    by (metis queue_demo_simps(1) length_map)
  have "i < length (rb_threads s) \<Longrightarrow> th_next (rb_threads s ! i) = queue_demo n_prod n_cons n k val ! i" for i
    using progs by (metis nth_map)
  then show "p < n_prod \<Longrightarrow> th_next (rb_threads s ! p) = event_producer n (val p)"
    and "n_prod \<le> c \<Longrightarrow> c < n_prod + n_cons \<Longrightarrow> th_next (rb_threads s ! c) = taker k"
    and "th_next (rb_threads s ! (n_prod + n_cons)) = drain n_prod"
    and "th_next (rb_threads s ! Suc (n_prod + n_cons)) = queue_main n_prod n_cons"
    by (simp_all add: len queue_demo_simps)
qed

lemma queue_demo_ledger:
  assumes inv: "queue_demo_inv cap n_prod n_cons n k val s"
  shows "p < n_prod \<Longrightarrow> length (th_results (rb_threads s ! p)) \<le> 2 * n \<and>
      offered (rb_threads s ! p) = map (val p) [0..<(length (th_results (rb_threads s ! p)) + 1) div 2] \<and>
      taken (rb_threads s ! p) = []"
    and "n_prod \<le> c \<Longrightarrow> c < n_prod + n_cons \<Longrightarrow> length (th_results (rb_threads s ! c)) \<le> k \<and>
      offered (rb_threads s ! c) = [] \<and>
      length (taken (rb_threads s ! c)) = length (th_results (rb_threads s ! c))"
    and "length (th_results (rb_threads s ! (n_prod + n_cons))) \<le> n_prod + 2 \<and>
      offered (rb_threads s ! (n_prod + n_cons)) = [] \<and>
      length (taken (rb_threads s ! (n_prod + n_cons))) =
        length (th_results (rb_threads s ! (n_prod + n_cons))) - (n_prod + 1)"
    and "length (th_results (rb_threads s ! Suc (n_prod + n_cons))) \<le> n_prod + n_cons + 2 \<and>
      offered (rb_threads s ! Suc (n_prod + n_cons)) = [] \<and> taken (rb_threads s ! Suc (n_prod + n_cons)) = []"
proof -
  note th = queue_demo_threads [OF inv]
  have hist: "history (th_next (rb_threads s ! i)) (th_results (rb_threads s ! i))" if "i < length (rb_threads s)" for i
    using inv that by (simp add: queue_demo_inv_def open_inv_def)
  have whole: "\<lparr>th_next = th_next t, th_results = th_results t, th_mode = th_mode t\<rparr> = t" for t :: "'a thread"
    by (cases t) simp
  show "p < n_prod \<Longrightarrow> length (th_results (rb_threads s ! p)) \<le> 2 * n \<and>
      offered (rb_threads s ! p) = map (val p) [0..<(length (th_results (rb_threads s ! p)) + 1) div 2] \<and>
      taken (rb_threads s ! p) = []"
    using event_producer_history [OF hist [of p] th(2), of "th_mode (rb_threads s ! p)"] th(1) by (simp add: whole)
  show "n_prod \<le> c \<Longrightarrow> c < n_prod + n_cons \<Longrightarrow> length (th_results (rb_threads s ! c)) \<le> k \<and>
      offered (rb_threads s ! c) = [] \<and>
      length (taken (rb_threads s ! c)) = length (th_results (rb_threads s ! c))"
    using taker_history [OF hist [of c] th(3), of "th_mode (rb_threads s ! c)"] th(1) by (simp add: whole)
  show "length (th_results (rb_threads s ! (n_prod + n_cons))) \<le> n_prod + 2 \<and>
      offered (rb_threads s ! (n_prod + n_cons)) = [] \<and>
      length (taken (rb_threads s ! (n_prod + n_cons))) =
        length (th_results (rb_threads s ! (n_prod + n_cons))) - (n_prod + 1)"
    using drain_history [OF hist th(4), of "th_mode (rb_threads s ! (n_prod + n_cons))"] th(1) by (simp add: whole)
  show "length (th_results (rb_threads s ! Suc (n_prod + n_cons))) \<le> n_prod + n_cons + 2 \<and>
      offered (rb_threads s ! Suc (n_prod + n_cons)) = [] \<and> taken (rb_threads s ! Suc (n_prod + n_cons)) = []"
    using queue_main_history [OF hist th(5), of "th_mode (rb_threads s ! Suc (n_prod + n_cons))"] th(1) by (simp add: whole)
qed

text \<open>How many values are in and out, by what the threads have done.\<close>

lemma queue_demo_counts:
  assumes inv: "queue_demo_inv cap n_prod n_cons n k val s"
  shows "length (rb_in s) = (\<Sum>p < n_prod. (length (th_results (rb_threads s ! p)) + 1) div 2)"
    and "length (rb_out s) = (\<Sum>c < n_cons. length (th_results (rb_threads s ! (n_prod + c)))) +
      (length (th_results (rb_threads s ! (n_prod + n_cons))) - (n_prod + 1))"
proof -
  note len = ledger_lengths [of cap s]
  show "length (rb_in s) = (\<Sum>p < n_prod. (length (th_results (rb_threads s ! p)) + 1) div 2)"
    using inv queue_demo_threads(1) [OF inv] queue_demo_ledger [OF inv] len(1)
    by (simp add: queue_demo_inv_def sum_lessThan_add_nat)
  show "length (rb_out s) = (\<Sum>c < n_cons. length (th_results (rb_threads s ! (n_prod + c)))) +
      (length (th_results (rb_threads s ! (n_prod + n_cons))) - (n_prod + 1))"
    using inv queue_demo_threads(1) [OF inv] queue_demo_ledger [OF inv] len(2)
    by (simp add: queue_demo_inv_def sum_lessThan_add_nat)
qed


lemma event_producer_done: "event_producer n val rs = None \<longleftrightarrow> 2 * n \<le> length rs"
  by (simp add: event_producer_def)

lemma taker_done: "taker k rs = None \<longleftrightarrow> k \<le> length rs"
  by (simp add: taker_def)

lemmas finished_wants = finished_def wants_def

text \<open>All producers done; all consumers done.\<close>

lemma queue_demo_full:
  assumes inv: "queue_demo_inv cap n_prod n_cons n k val s"
  shows "length (rb_in s) \<le> n_prod * n"
    and "(\<And>p. p < n_prod \<Longrightarrow> wants (rb_threads s ! p) = None) \<Longrightarrow> length (rb_in s) = n_prod * n"
    and "(\<Sum>c < n_cons. length (th_results (rb_threads s ! (n_prod + c)))) \<le> n_cons * k"
    and "(\<And>c. c < n_cons \<Longrightarrow> wants (rb_threads s ! (n_prod + c)) = None) \<Longrightarrow>
      (\<Sum>c < n_cons. length (th_results (rb_threads s ! (n_prod + c)))) = n_cons * k"
proof -
  note th = queue_demo_threads [OF inv] and led = queue_demo_ledger [OF inv]
  have p: "(length (th_results (rb_threads s ! p)) + 1) div 2 \<le> n" if "p < n_prod" for p
    using conjunct1 [OF led(1) [OF that]] by linarith
  have c: "length (th_results (rb_threads s ! (n_prod + c))) \<le> k" if "c < n_cons" for c
    using led(2) [of "n_prod + c"] that by simp
  show "length (rb_in s) \<le> n_prod * n"
    unfolding queue_demo_counts(1) [OF inv] using sum_bounded_above [of "{..<n_prod}", OF p] by simp
  show "(\<Sum>c < n_cons. length (th_results (rb_threads s ! (n_prod + c)))) \<le> n_cons * k"
    using sum_bounded_above [of "{..<n_cons}", OF c] by simp
  {
    assume ended: "\<And>p. p < n_prod \<Longrightarrow> wants (rb_threads s ! p) = None"
    have "(length (th_results (rb_threads s ! p)) + 1) div 2 = n" if "p < n_prod" for p
    proof -
      have "length (th_results (rb_threads s ! p)) = 2 * n"
        using ended [OF that] led(1) [OF that] th(2) [OF that]
        by (simp add: wants_def event_producer_done)
      then show ?thesis by simp
    qed
    then show "length (rb_in s) = n_prod * n" unfolding queue_demo_counts(1) [OF inv] by simp
  next
    assume ended: "\<And>c. c < n_cons \<Longrightarrow> wants (rb_threads s ! (n_prod + c)) = None"
    have "length (th_results (rb_threads s ! (n_prod + c))) = k" if "c < n_cons" for c
      using ended [OF that] c [OF that] th(3) [of "n_prod + c"] that by (simp add: wants_def taker_done)
    then show "(\<Sum>c < n_cons. length (th_results (rb_threads s ! (n_prod + c)))) = n_cons * k" by simp
  }
qed

text \<open>What the drain and \<open>main\<close> know from their joins.\<close>

lemma queue_demo_joined:
  assumes inv: "queue_demo_inv cap n_prod n_cons n k val s"
  shows "p < n_prod \<Longrightarrow> p < length (th_results (rb_threads s ! (n_prod + n_cons))) \<Longrightarrow> finished (rb_threads s ! p)"
    and "j < n_prod + n_cons + 1 \<Longrightarrow> j < length (th_results (rb_threads s ! Suc (n_prod + n_cons))) \<Longrightarrow>
      finished (rb_threads s ! j)"
proof -
  note th = queue_demo_threads [OF inv]
  have joined: "i < length (rb_threads s) \<Longrightarrow> j < length (th_results (rb_threads s ! i)) \<Longrightarrow>
      th_next (rb_threads s ! i) (take j (th_results (rb_threads s ! i))) = Some (Join j) \<Longrightarrow>
      finished (rb_threads s ! j)" for i j
    using inv nth_mem [of i "rb_threads s"] unfolding queue_demo_inv_def joined_inv_def by blast
  show "p < n_prod \<Longrightarrow> p < length (th_results (rb_threads s ! (n_prod + n_cons))) \<Longrightarrow> finished (rb_threads s ! p)"
    using joined [of "n_prod + n_cons" p] th(1,4) by (simp add: drain_def)
  show "j < n_prod + n_cons + 1 \<Longrightarrow> j < length (th_results (rb_threads s ! Suc (n_prod + n_cons))) \<Longrightarrow>
      finished (rb_threads s ! j)"
    using joined [of "Suc (n_prod + n_cons)" j] th(1,5) by (simp add: queue_main_def)
qed

lemma queue_demo_drained:
  assumes inv: "queue_demo_inv cap n_prod n_cons n k val s" and room: "n_prod * n = n_cons * k + 1"
    and fin: "\<And>j. j < n_prod + n_cons + 1 \<Longrightarrow> finished (rb_threads s ! j)"
  shows "rb_queue (rb_buf s) = []"
    and "length (th_results (rb_threads s ! (n_prod + n_cons))) = n_prod + 2"
proof -
  let ?dr = "th_results (rb_threads s ! (n_prod + n_cons))"
  note th = queue_demo_threads [OF inv] and full = queue_demo_full [OF inv]
  have d: "drain n_prod ?dr = None" "length ?dr \<le> n_prod + 2"
    using fin [of "n_prod + n_cons"] th(4) queue_demo_ledger(3) [OF inv] by (simp_all add: finished_wants)
  then have long: "n_prod < length ?dr" by (auto simp: drain_def split: if_splits)
  then obtain l where l: "0 < l" "?dr ! n_prod = Counted l"
    using inv by (auto simp: queue_demo_inv_def Let_def)
  have "length ?dr \<noteq> n_prod + 1"
  proof
    assume one: "length ?dr = n_prod + 1"
    then have "last ?dr = Counted l" using l(2) by (metis add_diff_cancel_right' last_conv_nth length_0_conv long not_less_zero)
    with d(1) one l(1) show False by (simp add: drain_def)
  qed
  with d(2) long show two: "length ?dr = n_prod + 2" by simp
  have "length (rb_in s) = n_prod * n" using full(2) fin by (simp add: finished_def)
  moreover have "length (rb_out s) = n_cons * k + 1"
    using full(4) fin two by (simp add: queue_demo_counts(2) [OF inv] finished_def)
  moreover have "rb_inv cap s" using inv by (simp add: queue_demo_inv_def)
  ultimately show "rb_queue (rb_buf s) = []" using ledger_lengths(3) [of cap s] room by simp
qed


text \<open>The invariant holds at the start and every step keeps it: the drain reads the length after all
  producers have finished, when one value at least is left, and \<open>main\<close> when everybody has.\<close>

lemma queue_demo_inv_start:
  assumes "rb_start cap (queue_demo n_prod n_cons n k val) = Some s"
  shows "queue_demo_inv cap n_prod n_cons n k val s"
proof -
  have "open_inv s"
    using assms by (rule open_inv_start)
      (auto simp: queue_demo_def event_producer_def taker_def drain_def queue_main_def
        split: if_splits rb_result.splits)
  moreover have "i < n_prod + n_cons + 2 \<Longrightarrow> th_results (rb_threads s ! i) = []" for i
    using assms queue_demo_simps(1) [of n_prod n_cons n k val]
    by (auto simp: rb_start_def rb_new_def spawn_def split: if_splits)
  ultimately show ?thesis
    using rb_start_inv [OF assms] joined_inv_start [OF assms] start_programs [OF assms]
    by (simp add: queue_demo_inv_def)
qed

lemma queue_demo_inv_step:
  assumes step: "rb_step s s'" and inv: "queue_demo_inv cap n_prod n_cons n k val s"
    and room: "n_prod * n = n_cons * k + 1"
  shows "queue_demo_inv cap n_prod n_cons n k val s'"
proof -
  let ?N = "n_prod + n_cons"
  note th = queue_demo_threads [OF inv] and st = rb_step_thread(4) [OF step]
  have rb: "rb_inv cap s" "open_inv s" "joined_inv s" "map th_next (rb_threads s) = queue_demo n_prod n_cons n k val"
    and dr: "n_prod < length (th_results (rb_threads s ! ?N)) \<Longrightarrow> \<exists>l > 0. th_results (rb_threads s ! ?N) ! n_prod = Counted l"
    and mr: "?N + 1 < length (th_results (rb_threads s ! Suc ?N)) \<Longrightarrow>
      th_results (rb_threads s ! Suc ?N) ! (?N + 1) = Counted 0"
    using inv by (simp_all add: queue_demo_inv_def Let_def)
  have "\<exists>l > 0. th_results (rb_threads s' ! ?N) ! n_prod = Counted l" if long: "n_prod < length (th_results (rb_threads s' ! ?N))"
  proof (cases "n_prod < length (th_results (rb_threads s ! ?N))")
    case True
    with dr st [of ?N] th(1) show ?thesis by (auto simp: nth_append)
  next
    case False
    with long st [of ?N] th(1) obtain a r where a: "wants (rb_threads s ! ?N) = Some a"
        "th_results (rb_threads s' ! ?N) = th_results (rb_threads s ! ?N) @ [r]"
        and len: "length (th_results (rb_threads s ! ?N)) = n_prod"
        and call: "\<And>op. a = Call op \<Longrightarrow> \<exists>ns. rb_section op (rb_buf s) = (Returns r ns, rb_buf s')"
      by fastforce
    then have "a = Call Len" using th(4) by (auto simp: wants_def drain_def)
    with call have r: "r = Counted (length (rb_queue (rb_buf s)))" by (auto simp: rb_len_def)
    have "length (rb_in s) = n_prod * n"
      using queue_demo_full(2) [OF inv] queue_demo_joined(1) [OF inv] len by (simp add: finished_def)
    moreover have "length (rb_out s) \<le> n_cons * k"
      using queue_demo_full(3) [OF inv] len by (simp add: queue_demo_counts(2) [OF inv])
    ultimately have "0 < length (rb_queue (rb_buf s))" using ledger_lengths(3) [OF rb(1)] room by linarith
    with a(2) len r show ?thesis by (simp add: nth_append)
  qed
  moreover have "th_results (rb_threads s' ! Suc ?N) ! (?N + 1) = Counted 0"
    if long: "?N + 1 < length (th_results (rb_threads s' ! Suc ?N))"
  proof (cases "?N + 1 < length (th_results (rb_threads s ! Suc ?N))")
    case True
    with mr st [of "Suc ?N"] th(1) show ?thesis by (auto simp: nth_append)
  next
    case False
    with long st [of "Suc ?N"] th(1) obtain a r where a: "wants (rb_threads s ! Suc ?N) = Some a"
        "th_results (rb_threads s' ! Suc ?N) = th_results (rb_threads s ! Suc ?N) @ [r]"
        and len: "length (th_results (rb_threads s ! Suc ?N)) = ?N + 1"
        and call: "\<And>op. a = Call op \<Longrightarrow> \<exists>ns. rb_section op (rb_buf s) = (Returns r ns, rb_buf s')"
      by fastforce
    then have "a = Call Len" using th(5) by (auto simp: wants_def queue_main_def)
    with call have r: "r = Counted (length (rb_queue (rb_buf s)))" by (auto simp: rb_len_def)
    have "rb_queue (rb_buf s) = []"
      using queue_demo_drained(1) [OF inv room] queue_demo_joined(2) [OF inv] len by simp
    with a(2) len r show ?thesis by (simp add: nth_append)
  qed
  moreover have "rb_inv cap s'" using rb_inv_reachable [of s s' cap] step rb(1) by blast
  moreover have "map th_next (rb_threads s') = queue_demo n_prod n_cons n k val"
    using programs_fixed [of s s'] step rb(4) by auto
  ultimately show ?thesis
    using open_inv_step [OF step rb(2)] joined_inv_step [OF step rb(3)] by (simp add: queue_demo_inv_def Let_def)
qed

lemma queue_demo_inv_reachable:
  assumes "rb_start cap (queue_demo n_prod n_cons n k val) = Some s0" and "rb_step\<^sup>*\<^sup>* s0 s"
    and "n_prod * n = n_cons * k + 1"
  shows "queue_demo_inv cap n_prod n_cons n k val s"
  using assms(2) by (induction rule: rtranclp_induct)
    (auto intro: queue_demo_inv_start [OF assms(1)] queue_demo_inv_step [OF _ _ assms(3)])

lemma queue_demo_not_stuck:
  assumes inv: "queue_demo_inv cap n_prod n_cons n k val s" and room: "n_prod * n = n_cons * k + 1"
    and cap: "0 < cap" and quiet: "\<forall>t \<in> set (rb_threads s). \<not> can_move s t"
    and t: "t \<in> set (rb_threads s)"
  shows "finished t"
proof -
  let ?N = "n_prod + n_cons" and ?ts = "rb_threads s"
  note th = queue_demo_threads [OF inv] and full = queue_demo_full [OF inv]
  have rb: "rb_inv cap s" using inv by (simp add: queue_demo_inv_def)
  note lens = ledger_lengths(3) [OF rb] queue_demo_counts(2) [OF inv] and still = quiet_thread [OF rb quiet]
  have drain_takes: "length (th_results (?ts ! ?N)) - (n_prod + 1) \<le> 1"
    using queue_demo_ledger(3) [OF inv] by linarith
  have producer: "finished (?ts ! p) \<or>
      length (rb_queue (rb_buf s)) = cap \<and> (length (th_results (?ts ! p)) + 1) div 2 < n" if "p < n_prod" for p
    using still [of "?ts ! p"] th(1) th(2) [OF that] that
    by (auto simp: wants_def event_producer_def split: if_splits elim!: evenE)
  have consumer: "finished (?ts ! c) \<or> rb_queue (rb_buf s) = [] \<and> length (th_results (?ts ! c)) < k"
    if "n_prod \<le> c" "c < ?N" for c
    using still [of "?ts ! c"] th(1) th(3) [OF that] that
    by (auto simp: wants_def taker_def split: if_splits)
  have c_done: "finished (?ts ! (n_prod + c))" if "c < n_cons" for c
  proof (rule ccontr)
    assume "\<not> finished (?ts ! (n_prod + c))"
    with consumer [of "n_prod + c"] that have *: "rb_queue (rb_buf s) = []" "length (th_results (?ts ! (n_prod + c))) < k"
      by auto
    with producer cap have "length (rb_in s) = n_prod * n" using full(2) by (auto simp: finished_def)
    moreover have "(\<Sum>c < n_cons. length (th_results (?ts ! (n_prod + c)))) < (\<Sum>c < n_cons. k)"
      by (rule sum_strict_mono_ex1) (use queue_demo_ledger(2) [OF inv] * that in auto)
    ultimately show False using lens room drain_takes *(1) by simp
  qed
  then have taken: "(\<Sum>c < n_cons. length (th_results (?ts ! (n_prod + c)))) = n_cons * k"
    using full(4) by (simp add: finished_def)
  have p_done: "finished (?ts ! p)" if "p < n_prod" for p
  proof (rule ccontr)
    assume "\<not> finished (?ts ! p)"
    with producer [OF that] have *: "length (rb_queue (rb_buf s)) = cap" "(length (th_results (?ts ! p)) + 1) div 2 < n"
      by auto
    have "(length (th_results (?ts ! i)) + 1) div 2 \<le> n" if "i < n_prod" for i
      using conjunct1 [OF queue_demo_ledger(1) [OF inv that]] by linarith
    with * that have "(\<Sum>i < n_prod. (length (th_results (?ts ! i)) + 1) div 2) < (\<Sum>i < n_prod. n)"
      by (intro sum_strict_mono_ex1) auto
    then have "length (rb_in s) < n_prod * n" using queue_demo_counts(1) [OF inv] by simp
    with * show False using lens taken room cap by linarith
  qed
  have d_done: "finished (?ts ! ?N)"
  proof (rule ccontr)
    assume "\<not> finished (?ts ! ?N)"
    then show False
      using still [of "?ts ! ?N"] th(1,4) p_done lens taken room full(2)
      by (auto simp: wants_def drain_def finished_def split: if_splits rb_result.splits)
  qed
  have others: "finished (?ts ! i)" if "i < ?N + 1" for i
    using p_done [of i] c_done [of "i - n_prod"] d_done that
    by (cases "i < n_prod"; cases "i < ?N") (auto simp: less_Suc_eq)
  moreover have "finished (?ts ! Suc ?N)"
    using still [of "?ts ! Suc ?N"] th(1,5) others
    by (auto simp: wants_def queue_main_def split: if_splits)
  ultimately have "finished (?ts ! i)" if "i < ?N + 2" for i
    using that by (cases "i = Suc ?N") auto
  with t th(1) show ?thesis by (auto simp: in_set_conv_nth)
qed


text \<open>All the values, whichever thread took them.\<close>

lemma queue_demo_values:
  assumes inv: "queue_demo_inv cap n_prod n_cons n k val s" and room: "n_prod * n = n_cons * k + 1"
    and fin: "\<And>t. t \<in> set (rb_threads s) \<Longrightarrow> finished t"
  shows "mset (rb_out s) = mset (concat (map (\<lambda>p. map (val p) [0..<n]) [0..<n_prod]))"
proof -
  note th = queue_demo_threads [OF inv] and led = queue_demo_ledger [OF inv]
  have fin': "i < n_prod + n_cons + 2 \<Longrightarrow> finished (rb_threads s ! i)" for i using fin th(1) by simp
  have prods: "offered (rb_threads s ! p) = map (val p) [0..<n]" if "p < n_prod" for p
  proof -
    have "length (th_results (rb_threads s ! p)) = 2 * n"
      using fin' [of p] led(1) [OF that] th(2) [OF that] that by (simp add: finished_wants event_producer_done)
    with led(1) [OF that] show ?thesis by simp
  qed
  have split: "(\<Sum>i < m + c. f i) = (\<Sum>i < m. f i) + (\<Sum>i < (c :: nat). f (m + i) :: 'a multiset)" for f m c
    by (induction c) (simp_all add: ac_simps)
  have "mset (rb_in s) = (\<Sum>i < n_prod + n_cons + 2. mset (offered (rb_threads s ! i)))"
    using inv th(1) by (simp add: queue_demo_inv_def rb_inv_def rb_ledger_def tally_nth)
  also have "\<dots> = (\<Sum>p < n_prod. mset (offered (rb_threads s ! p))) + (\<Sum>c < n_cons. mset (offered (rb_threads s ! (n_prod + c))))"
    using led(3,4) by (simp add: split)
  also have "(\<Sum>c < n_cons. mset (offered (rb_threads s ! (n_prod + c)))) = {#}"
    using led(2) by simp
  also have "(\<Sum>p < n_prod. mset (offered (rb_threads s ! p))) = (\<Sum>p < n_prod. mset (map (val p) [0..<n]))"
    using prods by simp
  also have "\<dots> = mset (concat (map (\<lambda>p. map (val p) [0..<n]) [0..<n_prod]))"
    by (simp add: mset_concat comp_def sum_list_sum_nth lessThan_atLeast0)
  finally have "mset (rb_in s) = mset (concat (map (\<lambda>p. map (val p) [0..<n]) [0..<n_prod]))" by simp
  moreover have "rb_queue (rb_buf s) = []" using queue_demo_drained(1) [OF inv room] fin' by simp
  moreover have "rb_in s = rb_out s @ rb_queue (rb_buf s)" using inv by (simp add: queue_demo_inv_def rb_inv_def rb_fifo_def)
  ultimately show ?thesis by simp
qed

section \<open>The test with several producers and consumers\<close>

lemma queue_test_threads:
  assumes "rb_start cap (queue_test n_prod n_cons n k val) = Some s0" and "rb_step\<^sup>*\<^sup>* s0 s"
  shows "rb_inv cap s" "open_inv s" "length (rb_threads s) = n_prod + n_cons"
    and "p < n_prod \<Longrightarrow> th_next (rb_threads s ! p) = test_producer n (val p)"
    and "c < n_cons \<Longrightarrow> th_next (rb_threads s ! (n_prod + c)) = taker k"
proof -
  have "open_inv s0"
    using assms(1) by (rule open_inv_start)
      (auto simp: queue_test_def test_producer_def taker_def split: if_splits)
  with assms(2) show "open_inv s" by (induction rule: rtranclp_induct) (auto intro: open_inv_step)
  show "rb_inv cap s" using rb_inv_reachable [OF assms(2)] rb_start_inv [OF assms(1)] by blast
  have progs: "map th_next (rb_threads s) = queue_test n_prod n_cons n k val"
    using programs_fixed [OF assms(2)] start_programs [OF assms(1)] by simp
  have "length (map th_next (rb_threads s)) = n_prod + n_cons" unfolding progs by (simp add: queue_test_def)
  then show len: "length (rb_threads s) = n_prod + n_cons" by simp
  have "i < length (rb_threads s) \<Longrightarrow> th_next (rb_threads s ! i) = queue_test n_prod n_cons n k val ! i" for i
    using progs by (metis nth_map)
  then show "p < n_prod \<Longrightarrow> th_next (rb_threads s ! p) = test_producer n (val p)"
    and "c < n_cons \<Longrightarrow> th_next (rb_threads s ! (n_prod + c)) = taker k"
    by (simp_all add: len queue_test_def nth_append)
qed

lemma queue_test_ledger:
  assumes "rb_start cap (queue_test n_prod n_cons n k val) = Some s0" and "rb_step\<^sup>*\<^sup>* s0 s"
  shows "p < n_prod \<Longrightarrow> length (th_results (rb_threads s ! p)) \<le> n \<and>
      offered (rb_threads s ! p) = map (val p) [0..<length (th_results (rb_threads s ! p))] \<and>
      taken (rb_threads s ! p) = []"
    and "c < n_cons \<Longrightarrow> length (th_results (rb_threads s ! (n_prod + c))) \<le> k \<and>
      offered (rb_threads s ! (n_prod + c)) = [] \<and>
      length (taken (rb_threads s ! (n_prod + c))) = length (th_results (rb_threads s ! (n_prod + c)))"
proof -
  note th = queue_test_threads [OF assms]
  have hist: "history (th_next (rb_threads s ! i)) (th_results (rb_threads s ! i))" if "i < length (rb_threads s)" for i
    using th(2) that by (simp add: open_inv_def)
  have whole: "\<lparr>th_next = th_next t, th_results = th_results t, th_mode = th_mode t\<rparr> = t" for t :: "'a thread"
    by (cases t) simp
  show "p < n_prod \<Longrightarrow> length (th_results (rb_threads s ! p)) \<le> n \<and>
      offered (rb_threads s ! p) = map (val p) [0..<length (th_results (rb_threads s ! p))] \<and>
      taken (rb_threads s ! p) = []"
    using test_producer_history [OF hist [of p] th(4), of "th_mode (rb_threads s ! p)"] th(3) by (simp add: whole)
  show "c < n_cons \<Longrightarrow> length (th_results (rb_threads s ! (n_prod + c))) \<le> k \<and>
      offered (rb_threads s ! (n_prod + c)) = [] \<and>
      length (taken (rb_threads s ! (n_prod + c))) = length (th_results (rb_threads s ! (n_prod + c)))"
    using taker_history [OF hist [of "n_prod + c"] th(5), of "th_mode (rb_threads s ! (n_prod + c))"] th(3)
    by (simp add: whole)
qed

text \<open>Nobody is stuck when the consumers take as many values as the producers push.\<close>

lemma queue_test_not_stuck:
  assumes start: "rb_start cap (queue_test n_prod n_cons n k val) = Some s0" and run: "rb_step\<^sup>*\<^sup>* s0 s"
    and room: "n_prod * n = n_cons * k" and quiet: "\<forall>t \<in> set (rb_threads s). \<not> can_move s t"
  shows "(p < n_prod \<longrightarrow> length (th_results (rb_threads s ! p)) = n) \<and>
    (c < n_cons \<longrightarrow> length (th_results (rb_threads s ! (n_prod + c))) = k) \<and>
    (\<forall>t \<in> set (rb_threads s). finished t) \<and> rb_queue (rb_buf s) = []"
proof -
  let ?ts = "rb_threads s"
  note th = queue_test_threads [OF start run] and led = queue_test_ledger [OF start run]
  note still = quiet_thread [OF th(1) quiet]
  have cap: "0 < cap" using rb_start_inv [OF start] by simp
  have ins: "length (rb_in s) = (\<Sum>p < n_prod. length (th_results (?ts ! p)))"
    and outs: "length (rb_out s) = (\<Sum>c < n_cons. length (th_results (?ts ! (n_prod + c))))"
    using ledger_lengths(1,2) [OF th(1)] th(3) led by (simp_all add: sum_lessThan_add_nat)
  note both = ledger_lengths(3) [OF th(1)]
  have producer: "finished (?ts ! p) \<and> length (th_results (?ts ! p)) = n \<or>
      length (rb_queue (rb_buf s)) = cap \<and> length (th_results (?ts ! p)) < n" if "p < n_prod" for p
    using still [of "?ts ! p"] th(3) th(4) [OF that] led(1) [OF that] that
    by (auto simp: finished_wants test_producer_def split: if_splits)
  have consumer: "finished (?ts ! (n_prod + c)) \<and> length (th_results (?ts ! (n_prod + c))) = k \<or>
      rb_queue (rb_buf s) = [] \<and> length (th_results (?ts ! (n_prod + c))) < k" if "c < n_cons" for c
    using still [of "?ts ! (n_prod + c)"] th(3) th(5) [OF that] led(2) [OF that] that
    by (auto simp: finished_wants taker_def split: if_splits)
  have c_done: "length (th_results (?ts ! (n_prod + c))) = k" if "c < n_cons" for c
  proof (rule ccontr)
    assume "length (th_results (?ts ! (n_prod + c))) \<noteq> k"
    with consumer [OF that] have *: "rb_queue (rb_buf s) = []" "length (th_results (?ts ! (n_prod + c))) < k" by auto
    with producer cap have "length (th_results (?ts ! p)) = n" if "p < n_prod" for p using that by fastforce
    moreover have "(\<Sum>c < n_cons. length (th_results (?ts ! (n_prod + c)))) < (\<Sum>c < n_cons. k)"
      by (rule sum_strict_mono_ex1) (use led(2) * that in auto)
    ultimately show False using ins outs both room *(1) by simp
  qed
  have "length (rb_in s) \<le> n_prod * n"
    using ins sum_bounded_above [of "{..<n_prod}" "\<lambda>p. length (th_results (?ts ! p))" n] led(1) by simp
  moreover have "length (rb_out s) = n_cons * k" using outs c_done by simp
  ultimately have empty: "rb_queue (rb_buf s) = []" using both room by simp
  with producer cap have p_done: "length (th_results (?ts ! p)) = n" "finished (?ts ! p)" if "p < n_prod" for p
    using that by fastforce+
  have "finished (?ts ! i)" if "i < n_prod + n_cons" for i
    using p_done(2) [of i] consumer [of "i - n_prod"] c_done [of "i - n_prod"] that
    by (cases "i < n_prod") auto
  with th(3) have "\<forall>t \<in> set ?ts. finished t" by (auto simp: in_set_conv_nth)
  with p_done(1) c_done empty show ?thesis by blast
qed

lemma queue_test_values:
  assumes start: "rb_start cap (queue_test n_prod n_cons n k val) = Some s0" and run: "rb_step\<^sup>*\<^sup>* s0 s"
    and ended: "\<And>p. p < n_prod \<Longrightarrow> length (th_results (rb_threads s ! p)) = n" and empty: "rb_queue (rb_buf s) = []"
  shows "mset (concat (map taken (drop n_prod (rb_threads s)))) =
    mset (concat (map (\<lambda>p. map (val p) [0..<n]) [0..<n_prod]))"
proof -
  note th = queue_test_threads [OF start run] and led = queue_test_ledger [OF start run]
  have split: "(\<Sum>i < m + c. f i) = (\<Sum>i < m. f i) + (\<Sum>i < (c :: nat). f (m + i) :: 'a multiset)" for f m c
    by (induction c) (simp_all add: ac_simps)
  have "mset (rb_in s) = (\<Sum>p < n_prod. mset (map (val p) [0..<n]))"
    using th(1,3) led ended by (simp add: rb_inv_def rb_ledger_def tally_nth split)
  also have "\<dots> = mset (concat (map (\<lambda>p. map (val p) [0..<n]) [0..<n_prod]))"
    by (simp add: mset_concat comp_def sum_list_sum_nth lessThan_atLeast0)
  finally have ins: "mset (rb_in s) = mset (concat (map (\<lambda>p. map (val p) [0..<n]) [0..<n_prod]))" .
  have "mset (rb_out s) = (\<Sum>c < n_cons. mset (taken (rb_threads s ! (n_prod + c))))"
    using th(1,3) led by (simp add: rb_inv_def rb_ledger_def tally_nth split)
  also have "\<dots> = mset (concat (map taken (drop n_prod (rb_threads s))))"
    using th(3) by (simp add: mset_concat comp_def sum_list_sum_nth lessThan_atLeast0)
  finally show ?thesis using ins th(1) empty by (simp add: rb_inv_def rb_fifo_def)
qed

section \<open>Part 2 of main: readers and a writer of the configuration\<close>

text \<open>A schedule of accesses to the reader-writer lock: a read of the port by a reader, which it adds to
  its sum, or the update by the writer.\<close>

datatype config_event = ReadPort nat | Reload

fun config_access :: "app_config \<Rightarrow> (nat \<Rightarrow> u64) \<times> config_store \<Rightarrow> config_event \<Rightarrow> (nat \<Rightarrow> u64) \<times> config_store" where
  "config_access new_config (port_sum, st) (ReadPort r) =
     (port_sum(r := port_sum r + ucast (config_get_port st)), st)"
| "config_access new_config (port_sum, st) Reload = (port_sum, config_update new_config st)"

definition config_demo ::
  "app_config \<Rightarrow> app_config \<Rightarrow> config_event list \<Rightarrow> (nat \<Rightarrow> u64) \<times> config_store" where
  "config_demo initial new_config sched =
     foldl (config_access new_config) (\<lambda>_. 0, config_store_new initial) sched"

text \<open>A reader sees the old port some number of times and the new one for the rest; after the writer
  has joined the snapshot is the new configuration.\<close>

lemma config_access_inv:
  fixes initial new_config :: app_config
  defines "port c \<equiv> (ucast (ac_server_port c) :: u64)"
  assumes "port_sum r = of_nat a * port initial + of_nat b * port new_config"
    and "config_snapshot st \<in> {initial, new_config}"
  obtains a' b' where "fst (config_access new_config (port_sum, st) x) r =
      of_nat a' * port initial + of_nat b' * port new_config"
    and "a' + b' = a + b + (if x = ReadPort r then 1 else 0)"
proof (cases "x = ReadPort r")
  case True
  consider "cf_inner st = initial" | "cf_inner st = new_config"
    using assms(3) by (auto simp: config_snapshot_def)
  then show ?thesis
  proof cases
    case 1
    with True assms(2) show ?thesis
      by (intro that [of "Suc a" b]) (simp_all add: port_def config_get_port_def algebra_simps)
  next
    case 2
    with True assms(2) show ?thesis
      by (intro that [of a "Suc b"]) (simp_all add: port_def config_get_port_def algebra_simps)
  qed
next
  case False
  with assms(2) show ?thesis by (cases x) (auto intro: that [of a b])
qed

lemma config_demo_reads:
  "(\<exists>a b. a + b = count_list sched (ReadPort r) \<and> fst (config_demo initial new_config sched) r =
      of_nat a * ucast (ac_server_port initial) + of_nat b * ucast (ac_server_port new_config)) \<and>
   config_snapshot (snd (config_demo initial new_config sched)) =
     (if Reload \<in> set sched then new_config else initial)"
proof (induction sched rule: rev_induct)
  case (snoc x sched)
  obtain port_sum st where st: "config_demo initial new_config sched = (port_sum, st)" by fastforce
  then have run: "config_demo initial new_config (sched @ [x]) = config_access new_config (port_sum, st) x"
    by (simp add: config_demo_def)
  from snoc st obtain a b where ab: "a + b = count_list sched (ReadPort r)"
      "port_sum r = of_nat a * ucast (ac_server_port initial) + of_nat b * ucast (ac_server_port new_config)"
      "config_snapshot st = (if Reload \<in> set sched then new_config else initial)"
    by auto
  from ab(3) have "config_snapshot st \<in> {initial, new_config}" by simp
  with ab(2) obtain a' b' where "fst (config_access new_config (port_sum, st) x) r =
      of_nat a' * ucast (ac_server_port initial) + of_nat b' * ucast (ac_server_port new_config)"
    and "a' + b' = a + b + (if x = ReadPort r then 1 else 0)"
    by (rule config_access_inv)
  with ab(1) have "\<exists>a b. a + b = count_list (sched @ [x]) (ReadPort r) \<and>
      fst (config_access new_config (port_sum, st) x) r =
      of_nat a * ucast (ac_server_port initial) + of_nat b * ucast (ac_server_port new_config)"
    by (intro exI [of _ a'] exI [of _ b']) (auto simp: count_list_append)
  moreover have "config_snapshot (snd (config_access new_config (port_sum, st) x)) =
      (if Reload \<in> set (sched @ [x]) then new_config else initial)"
    using ab(3) by (cases x) (auto simp: config_update_def config_snapshot_def)
  ultimately show ?case by (simp add: run)
qed (simp add: config_demo_def config_store_new_def config_snapshot_def)

section \<open>Properties\<close>





text \<open>The instance of \<open>main\<close>, under a scheduler that goes round the seven threads.\<close>

definition queue_schedule :: "nat list" where
  "queue_schedule = concat (replicate 30 [0..<7])"

definition main_queue :: "string rb_system" where
  "main_queue = the (rb_start 4 (queue_demo 2 3 5 3 event_name))"

lemma main_queue_start: "rb_start 4 (queue_demo 2 3 5 3 event_name) = Some main_queue"
  by (simp add: main_queue_def rb_start_def rb_new_def)


text \<open>The test with several producers and consumers passes: when the consumers take as many values
  as the producers push (4 * 100 on a queue of capacity 8), every run can go on until all threads
  have finished, and the sums the consumers return add up to the sum of all the values pushed,
  which is what the last assertion compares.\<close>

theorem bounded_queue_test_sum:
  assumes "rb_start cap (queue_test n_prod n_cons n k test_item) = Some s0"
    and "n_prod * n = n_cons * k" and "rb_step\<^sup>*\<^sup>* s0 s"
  shows "(\<exists>s'. rb_step s s') \<or>
    ((\<forall>t \<in> set (rb_threads s). finished t) \<and>
     (\<Sum>t \<leftarrow> drop n_prod (rb_threads s). consumer_sum t) =
     (\<Sum>p \<leftarrow> [0..<n_prod]. \<Sum>i \<leftarrow> [0..<n]. ucast (test_item p i)))"
proof (cases "\<exists>t \<in> set (rb_threads s). can_move s t")
  case True
  then show ?thesis by (metis can_move_step in_set_conv_nth)
next
  case False
  then have quiet: "\<forall>t \<in> set (rb_threads s). \<not> can_move s t" by blast
  note over = queue_test_not_stuck [OF assms(1,3,2) quiet]
  have "mset (concat (map taken (drop n_prod (rb_threads s)))) =
      mset (concat (map (\<lambda>p. map (test_item p) [0..<n]) [0..<n_prod]))"
    using queue_test_values [OF assms(1,3)] over by blast
  from arg_cong [OF this, of "\<lambda>M. \<Sum>x \<in># M. (ucast x :: u64)"]
  show ?thesis using over
    by (simp add: sum_mset_sum_list map_concat sum_list_concat comp_def consumer_sum_def flip: mset_map)
qed


definition test_schedule :: "nat list" where
  "test_schedule = concat (replicate 4 [0..<4])"

definition small_test :: "u32 rb_system" where
  "small_test = the (rb_start 8 (queue_test 2 2 1 1 test_item))"

lemma small_test_start: "rb_start 8 (queue_test 2 2 1 1 test_item) = Some small_test"
  by (simp add: small_test_def rb_start_def rb_new_def)

theorem bounded_queue_test_sum_witness:
  "(\<Sum>t \<leftarrow> drop 2 (rb_threads (rb_run test_schedule small_test)). consumer_sum t) = 1000"
proof -
  let ?s = "rb_run test_schedule small_test"
  have "list_all finished (rb_threads ?s)" by code_simp
  then have "\<not> (\<exists>s'. rb_step ?s s')"
    using finished_no_step by (auto simp: list_all_iff)
  with bounded_queue_test_sum [OF small_test_start _ rb_run_steps [of small_test test_schedule]]
  show ?thesis by (simp add: test_item_def upt_rec)
qed

end
