(* ===== verification/Dispatcher.thy ===== *)
theory Dispatcher
  imports Prelude
begin

text \<open>
  The task dispatcher of \<open>demos/src/bin/exo07_dispatcher.rs\<close>, in its lock-free and its mutex
  variants.

  The queue, the counters and the flag are separate shared objects, so one turn of a worker's
  loop is several atomic steps, and other threads may act between any two of them:
  \<open>worker_step\<close> is one step, \<open>worker\<close> the place in the loop. \<open>di_event\<close> is a step of the whole
  program of \<open>main\<close>: a worker's step, a producer's \<open>submit\<close>, or the \<open>stop\<close> that \<open>main\<close> calls
  once it has joined the producers.
\<close>

section \<open>Tasks\<close>

datatype type_tache = Parse | Metrique | Alerte

record tache =
  ta_id :: u64
  ta_kind :: type_tache
  ta_payload :: u64

definition traiter :: "tache \<Rightarrow> u64" where
  "traiter t = foldl (\<lambda>acc _. acc * 2654435761 + 1) (ta_payload t) [0..<50]"

fun nom_kind :: "type_tache \<Rightarrow> string" where
  "nom_kind Parse = ''parse''"
| "nom_kind Metrique = ''metrique''"
| "nom_kind Alerte = ''alerte''"

definition fabriquer_tache :: "u64 \<Rightarrow> tache" where
  "fabriquer_tache i =
     \<lparr>ta_id = i,
      ta_kind = (if i mod 3 = 0 then Parse else if i mod 3 = 1 then Metrique else Alerte),
      ta_payload = i * 37\<rparr>"

definition fabriquer_taches :: "usize \<Rightarrow> tache list" where
  "fabriquer_taches n = map (\<lambda>i. fabriquer_tache (of_nat i)) [0..<n]"

section \<open>The lock-free dispatcher\<close>

record dispatcher =
  di_queue :: "tache list"
  di_stats :: "string \<rightharpoonup> u64"
  di_running :: bool

definition dispatcher_new :: dispatcher where
  "dispatcher_new = \<lparr>di_queue = [], di_stats = Map.empty, di_running = True\<rparr>"

definition submit :: "tache \<Rightarrow> dispatcher \<Rightarrow> dispatcher" where
  "submit t d = d\<lparr>di_queue := di_queue d @ [t]\<rparr>"

definition stop :: "dispatcher \<Rightarrow> dispatcher" where
  "stop d = d\<lparr>di_running := False\<rparr>"

definition stat_of :: "(string \<rightharpoonup> u64) \<Rightarrow> string \<Rightarrow> u64" where
  "stat_of m k = (case m k of Some n \<Rightarrow> n | None \<Rightarrow> 0)"

text \<open>\<open>entry(k).or_insert(0) += 1\<close>\<close>

definition bump :: "string \<Rightarrow> (string \<rightharpoonup> u64) \<Rightarrow> string \<rightharpoonup> u64" where
  "bump k m = m(k \<mapsto> stat_of m k + 1)"

text \<open>At the head of the loop, with a task in hand (popped, not yet counted), after an empty pop,
  and after the loop.\<close>

datatype worker = AtPop | InHand tache | AtCheck | Ended

fun worker_step :: "worker \<Rightarrow> dispatcher \<Rightarrow> worker \<times> dispatcher" where
  "worker_step AtPop d =
     (case di_queue d of
        t # q \<Rightarrow> (InHand t, d\<lparr>di_queue := q\<rparr>)
      | [] \<Rightarrow> (AtCheck, d))"
| "worker_step (InHand t) d = (AtPop, d\<lparr>di_stats := bump (nom_kind (ta_kind t)) (di_stats d)\<rparr>)"
| "worker_step AtCheck d = (if \<not> di_running d then (Ended, d) else (AtPop, d))"
| "worker_step Ended d = (Ended, d)"

text \<open>The \<open>worker_loop\<close> of a worker alone, once \<open>stop\<close> has been called.\<close>

function worker_loop :: "worker \<Rightarrow> dispatcher \<Rightarrow> dispatcher" where
  "worker_loop w d =
     (if w = Ended \<or> di_running d then d
      else (let (w, d) = worker_step w d in worker_loop w d))"
  by pat_completeness auto
termination
  by (relation "measure (\<lambda>(w, d). 3 * length (di_queue d) +
        (case w of AtPop \<Rightarrow> 2 | InHand t \<Rightarrow> 3 | AtCheck \<Rightarrow> 1 | Ended \<Rightarrow> 0))")
     (auto split: worker.splits list.splits)

declare worker_loop.simps [simp del]

section \<open>The mutex variant\<close>

record dispatcher_mutex =
  dm_queue :: "tache list"
  dm_stats :: "string \<rightharpoonup> u64"
  dm_running :: bool

definition dispatcher_mutex_new :: dispatcher_mutex where
  "dispatcher_mutex_new = \<lparr>dm_queue = [], dm_stats = Map.empty, dm_running = True\<rparr>"

definition mutex_submit :: "tache \<Rightarrow> dispatcher_mutex \<Rightarrow> dispatcher_mutex" where
  "mutex_submit t d = d\<lparr>dm_queue := dm_queue d @ [t]\<rparr>"

definition mutex_stop :: "dispatcher_mutex \<Rightarrow> dispatcher_mutex" where
  "mutex_stop d = d\<lparr>dm_running := False\<rparr>"

text \<open>Each lock is held for one access only: the guard of the queue is dropped before the task is
  processed.\<close>

fun mutex_worker_step :: "worker \<Rightarrow> dispatcher_mutex \<Rightarrow> worker \<times> dispatcher_mutex" where
  "mutex_worker_step AtPop d =
     (let next = (if dm_queue d = [] then None else Some (hd (dm_queue d)));
          d = d\<lparr>dm_queue := tl (dm_queue d)\<rparr>
      in case next of Some t \<Rightarrow> (InHand t, d) | None \<Rightarrow> (AtCheck, d))"
| "mutex_worker_step (InHand t) d = (AtPop, d\<lparr>dm_stats := bump (nom_kind (ta_kind t)) (dm_stats d)\<rparr>)"
| "mutex_worker_step AtCheck d = (if \<not> dm_running d then (Ended, d) else (AtPop, d))"
| "mutex_worker_step Ended d = (Ended, d)"

definition of_mutex :: "dispatcher_mutex \<Rightarrow> dispatcher" where
  "of_mutex d = \<lparr>di_queue = dm_queue d, di_stats = dm_stats d, di_running = dm_running d\<rparr>"

section \<open>The whole program\<close>

record di_system =
  ds_dispatcher :: dispatcher
  ds_workers :: "worker list"
  ds_todo :: "tache list list"

datatype di_event = Work nat | Produce nat | Stop

text \<open>\<open>None\<close> when the event cannot happen: no such thread, or \<open>main\<close> still waits for a producer.\<close>

fun di_step :: "di_event \<Rightarrow> di_system \<Rightarrow> di_system option" where
  "di_step (Work i) s =
     (if i < length (ds_workers s) then
        (let (w, d) = worker_step (ds_workers s ! i) (ds_dispatcher s)
         in Some (s\<lparr>ds_dispatcher := d, ds_workers := (ds_workers s)[i := w]\<rparr>))
      else None)"
| "di_step (Produce i) s =
     (if i < length (ds_todo s) then
        (case ds_todo s ! i of
           t # ts \<Rightarrow> Some (s\<lparr>ds_dispatcher := submit t (ds_dispatcher s), ds_todo := (ds_todo s)[i := ts]\<rparr>)
         | [] \<Rightarrow> None)
      else None)"
| "di_step Stop s =
     (if \<forall>ts \<in> set (ds_todo s). ts = [] then Some (s\<lparr>ds_dispatcher := stop (ds_dispatcher s)\<rparr>) else None)"

fun di_run :: "di_event list \<Rightarrow> di_system \<Rightarrow> di_system option" where
  "di_run [] s = Some s"
| "di_run (e # es) s = (case di_step e s of None \<Rightarrow> None | Some s \<Rightarrow> di_run es s)"

definition di_start :: "nat \<Rightarrow> tache list list \<Rightarrow> di_system" where
  "di_start n_work todo =
     \<lparr>ds_dispatcher = dispatcher_new, ds_workers = replicate n_work AtPop, ds_todo = todo\<rparr>"

definition all_ended :: "di_system \<Rightarrow> bool" where
  "all_ended s \<longleftrightarrow> (\<forall>w \<in> set (ds_workers s). w = Ended)"

text \<open>The total that \<open>main\<close> compares with the number of tasks.\<close>

definition grand_total :: "dispatcher \<Rightarrow> u64" where
  "grand_total d =
     stat_of (di_stats d) ''parse'' + stat_of (di_stats d) ''metrique'' + stat_of (di_stats d) ''alerte''"

section \<open>Where the tasks are\<close>

definition of_kind :: "type_tache \<Rightarrow> tache list \<Rightarrow> nat" where
  "of_kind k ts = length (filter (\<lambda>t. ta_kind t = k) ts)"

fun in_hand :: "worker \<Rightarrow> tache list" where
  "in_hand (InHand t) = [t]"
| "in_hand _ = []"

text \<open>The tasks not counted yet.\<close>

definition pending :: "di_system \<Rightarrow> tache list" where
  "pending s = concat (ds_todo s) @ di_queue (ds_dispatcher s) @ concat (map in_hand (ds_workers s))"

definition accounted :: "(type_tache \<Rightarrow> u64) \<Rightarrow> di_system \<Rightarrow> bool" where
  "accounted tot s \<longleftrightarrow>
     (\<forall>k. stat_of (di_stats (ds_dispatcher s)) (nom_kind k) + of_nat (of_kind k (pending s)) = tot k)"

lemma nom_kind_inject [simp]: "nom_kind a = nom_kind b \<longleftrightarrow> a = b"
  by (cases a; cases b) auto

lemma stat_of_bump: "stat_of (bump k m) k' = (if k' = k then stat_of m k + 1 else stat_of m k')"
  by (simp add: bump_def stat_of_def)

lemma of_kind_mset: "mset ts = mset ts' \<Longrightarrow> of_kind k ts = of_kind k ts'"
  by (metis of_kind_def mset_filter size_mset)

lemma of_kind_Cons [simp]: "of_kind k (t # ts) = (if ta_kind t = k then 1 else 0) + of_kind k ts"
  by (simp add: of_kind_def)

lemma pending_work:
  assumes "i < length (ds_workers s)" "worker_step (ds_workers s ! i) (ds_dispatcher s) = (w, d)"
  shows "(\<exists>t. ds_workers s ! i = InHand t \<and> mset (pending s) = add_mset t (mset (pending (s\<lparr>ds_dispatcher := d, ds_workers := (ds_workers s)[i := w]\<rparr>))) \<and>
      di_stats d = bump (nom_kind (ta_kind t)) (di_stats (ds_dispatcher s))) \<or>
    (mset (pending s) = mset (pending (s\<lparr>ds_dispatcher := d, ds_workers := (ds_workers s)[i := w]\<rparr>)) \<and>
      di_stats d = di_stats (ds_dispatcher s))"
proof -
  have up: "mset (concat (map in_hand ((ds_workers s)[i := w]))) + mset (in_hand (ds_workers s ! i)) =
      mset (concat (map in_hand (ds_workers s))) + mset (in_hand w)"
    using mset_concat_update [of i "map in_hand (ds_workers s)" "in_hand w"] assms(1) by (simp add: map_update)
  show ?thesis
    using assms(2) up
    by (cases "ds_workers s ! i") (auto simp: pending_def ac_simps split: list.splits if_splits)
qed

lemma accounted_step: "di_step e s = Some s' \<Longrightarrow> accounted tot s \<Longrightarrow> accounted tot s'"
proof (cases e)
  case (Work i)
  assume step: "di_step e s = Some s'" and acc: "accounted tot s"
  obtain w d where wd: "worker_step (ds_workers s ! i) (ds_dispatcher s) = (w, d)" by fastforce
  with step Work have i: "i < length (ds_workers s)"
    and s': "s' = s\<lparr>ds_dispatcher := d, ds_workers := (ds_workers s)[i := w]\<rparr>"
    by (auto split: if_splits)
  from pending_work [OF i wd] show ?thesis
  proof (elim disjE exE conjE)
    fix t
    assume m: "mset (pending s) = add_mset t (mset (pending (s\<lparr>ds_dispatcher := d, ds_workers := (ds_workers s)[i := w]\<rparr>)))"
      and st: "di_stats d = bump (nom_kind (ta_kind t)) (di_stats (ds_dispatcher s))"
    from m have "of_kind k (pending s) = of_kind k (t # pending s')" for k
      unfolding s' by (intro of_kind_mset) simp
    then have pend: "of_nat (of_kind k (pending s)) = (if ta_kind t = k then 1 else 0) + (of_nat (of_kind k (pending s')) :: u64)" for k
      by (simp add: of_nat_add)
    show ?thesis
      unfolding accounted_def
    proof
      fix k
      have "stat_of (di_stats (ds_dispatcher s)) (nom_kind k) + of_nat (of_kind k (pending s)) = tot k"
        using acc by (simp add: accounted_def)
      then show "stat_of (di_stats (ds_dispatcher s')) (nom_kind k) + of_nat (of_kind k (pending s')) = tot k"
        using pend [of k] st by (cases "ta_kind t = k") (auto simp: s' stat_of_bump add.assoc)
    qed
  next
    assume m: "mset (pending s) = mset (pending (s\<lparr>ds_dispatcher := d, ds_workers := (ds_workers s)[i := w]\<rparr>))"
      and st: "di_stats d = di_stats (ds_dispatcher s)"
    then have "of_kind k (pending s) = of_kind k (pending s')" for k
      unfolding s' by (intro of_kind_mset)
    with acc st show ?thesis by (simp add: accounted_def s')
  qed
next
  case (Produce i)
  assume step: "di_step e s = Some s'" and acc: "accounted tot s"
  then obtain t ts where i: "i < length (ds_todo s)" "ds_todo s ! i = t # ts"
    and s': "s' = s\<lparr>ds_dispatcher := submit t (ds_dispatcher s), ds_todo := (ds_todo s)[i := ts]\<rparr>"
    using Produce by (auto split: if_splits list.splits)
  have "mset (pending s) = mset (pending s')"
    using mset_concat_update [OF i(1), of ts] i(2) by (simp add: pending_def s' submit_def)
  then have "of_kind k (pending s) = of_kind k (pending s')" for k by (rule of_kind_mset)
  with acc show ?thesis by (simp add: accounted_def s' submit_def)
qed (auto simp: accounted_def pending_def stop_def split: if_splits)

lemma accounted_run: "di_run es s = Some s' \<Longrightarrow> accounted tot s \<Longrightarrow> accounted tot s'"
  by (induction es arbitrary: s) (auto split: option.splits intro: accounted_step)

lemma length_by_kind: "length ts = of_kind Parse ts + of_kind Metrique ts + of_kind Alerte ts"
proof (induction ts)
  case (Cons t ts)
  then show ?case by (cases "ta_kind t") simp_all
qed (simp add: of_kind_def)

lemma grand_total_accounted:
  assumes "accounted (\<lambda>k. of_nat (of_kind k ts)) s"
  shows "grand_total (ds_dispatcher s) + of_nat (length (pending s)) = of_nat (length ts)"
proof -
  let ?n = "\<lambda>k. stat_of (di_stats (ds_dispatcher s)) (nom_kind k)"
  have eq: "?n k + of_nat (of_kind k (pending s)) = of_nat (of_kind k ts)" for k
    using assms by (simp add: accounted_def)
  have "grand_total (ds_dispatcher s) + of_nat (length (pending s)) =
      (?n Parse + of_nat (of_kind Parse (pending s))) + (?n Metrique + of_nat (of_kind Metrique (pending s))) +
      (?n Alerte + of_nat (of_kind Alerte (pending s)))"
    unfolding length_by_kind [of "pending s"] grand_total_def by (simp add: ac_simps)
  also have "\<dots> = of_nat (length ts)"
    unfolding eq length_by_kind [of ts] by simp
  finally show ?thesis .
qed

lemma accounted_start: "accounted (\<lambda>k. of_nat (of_kind k (concat todo))) (di_start n todo)"
proof -
  have "concat (map in_hand (replicate n AtPop)) = []" by (induction n) auto
  then show ?thesis
    by (simp add: accounted_def di_start_def dispatcher_new_def stat_of_def pending_def)
qed

section \<open>The flag and the producers\<close>

definition stopped_after_producers :: "di_system \<Rightarrow> bool" where
  "stopped_after_producers s \<longleftrightarrow>
     (di_running (ds_dispatcher s) \<longrightarrow> Ended \<notin> set (ds_workers s)) \<and>
     (\<not> di_running (ds_dispatcher s) \<longrightarrow> concat (ds_todo s) = [])"

lemma stopped_after_producers_step:
  "di_step e s = Some s' \<Longrightarrow> stopped_after_producers s \<Longrightarrow> stopped_after_producers s'"
proof (cases e)
  case (Work i)
  assume step: "di_step e s = Some s'" and inv: "stopped_after_producers s"
  with Work have i: "i < length (ds_workers s)" by (simp split: if_splits)
  then have "ds_workers s ! i \<in> set (ds_workers s)" by simp
  with step inv Work i show ?thesis
    by (cases "ds_workers s ! i")
      (auto simp: stopped_after_producers_def dest!: subsetD [OF set_update_subset_insert]
        split: list.splits if_splits)
next
  case (Produce i)
  assume step: "di_step e s = Some s'" and inv: "stopped_after_producers s"
  then obtain t ts where i: "i < length (ds_todo s)" "ds_todo s ! i = t # ts"
    and s': "s' = s\<lparr>ds_dispatcher := submit t (ds_dispatcher s), ds_todo := (ds_todo s)[i := ts]\<rparr>"
    using Produce by (auto split: if_splits list.splits)
  from i have "t # ts \<in> set (ds_todo s)" by (metis nth_mem)
  then have "concat (ds_todo s) \<noteq> []" by auto
  with inv show ?thesis by (auto simp: stopped_after_producers_def s' submit_def)
qed (auto simp: stopped_after_producers_def stop_def split: if_splits)

lemma stopped_after_producers_run:
  "di_run es s = Some s' \<Longrightarrow> stopped_after_producers s \<Longrightarrow> stopped_after_producers s'"
  by (induction es arbitrary: s) (auto split: option.splits intro: stopped_after_producers_step)

lemma stopped_after_producers_start: "stopped_after_producers (di_start n todo)"
  by (simp add: stopped_after_producers_def di_start_def dispatcher_new_def)

lemma length_workers_step: "di_step e s = Some s' \<Longrightarrow> length (ds_workers s') = length (ds_workers s)"
  by (cases e) (auto split: if_splits list.splits prod.splits)

lemma length_workers_run: "di_run es s = Some s' \<Longrightarrow> length (ds_workers s') = length (ds_workers s)"
  by (induction es arbitrary: s) (auto split: option.splits dest: length_workers_step)

lemma all_ended_pending:
  assumes "di_run es (di_start n todo) = Some s" "all_ended s" "0 < n"
  shows "pending s = di_queue (ds_dispatcher s)"
proof -
  have "length (ds_workers s) = n" using length_workers_run [OF assms(1)] by (simp add: di_start_def)
  with assms(2,3) have "Ended \<in> set (ds_workers s)"
    by (cases "ds_workers s") (auto simp: all_ended_def)
  then have "concat (ds_todo s) = []"
    using stopped_after_producers_run [OF assms(1) stopped_after_producers_start]
    unfolding stopped_after_producers_def by blast
  moreover have "concat (map in_hand (ds_workers s)) = []"
    using assms(2) unfolding all_ended_def concat_eq_Nil_conv by force
  ultimately show ?thesis unfolding pending_def by (simp only: append_Nil append_Nil2)
qed

text \<open>Once the flag is down and nobody submits, a worker that has seen the queue empty is right.\<close>

definition draining :: "di_system \<Rightarrow> bool" where
  "draining s \<longleftrightarrow> (\<forall>ts \<in> set (ds_todo s). ts = []) \<and>
     (\<forall>w \<in> set (ds_workers s). w \<in> {AtCheck, Ended} \<longrightarrow> di_queue (ds_dispatcher s) = [])"

lemma draining_step: "di_step e s = Some s' \<Longrightarrow> draining s \<Longrightarrow> draining s'"
proof (cases e)
  case (Work i)
  assume step: "di_step e s = Some s'" and inv: "draining s"
  with Work have i: "i < length (ds_workers s)" by (simp split: if_splits)
  then have "ds_workers s ! i \<in> set (ds_workers s)" by simp
  with step inv Work i show ?thesis
    by (cases "ds_workers s ! i")
      (auto simp: draining_def dest!: subsetD [OF set_update_subset_insert]
        split: list.splits if_splits)
next
  case (Produce i)
  assume step: "di_step e s = Some s'" and inv: "draining s"
  with Produce show ?thesis
    by (auto simp: draining_def split: if_splits list.splits dest!: nth_mem)
qed (auto simp: draining_def stop_def split: if_splits)

lemma draining_run: "di_run es s = Some s' \<Longrightarrow> draining s \<Longrightarrow> draining s'"
  by (induction es arbitrary: s) (auto split: option.splits intro: draining_step)

definition is_work :: "di_event \<Rightarrow> bool" where
  "is_work e \<longleftrightarrow> (case e of Work _ \<Rightarrow> True | _ \<Rightarrow> False)"

lemma workers_unstarted:
  "di_run es s = Some s' \<Longrightarrow> \<forall>e \<in> set es. \<not> is_work e \<Longrightarrow> ds_workers s' = ds_workers s"
proof (induction es arbitrary: s)
  case (Cons e es)
  then obtain t where t: "di_step e s = Some t" "di_run es t = Some s'" by (auto split: option.splits)
  then have "ds_workers t = ds_workers s"
    using Cons.prems(2) by (cases e) (auto simp: is_work_def split: if_splits list.splits)
  with Cons t show ?case by simp
qed simp

lemma di_run_append:
  "di_run (es @ es') s = (case di_run es s of None \<Rightarrow> None | Some t \<Rightarrow> di_run es' t)"
  by (induction es arbitrary: s) (auto split: option.splits)

lemma draining_after_stop:
  assumes "di_run (es1 @ Stop # es2) (di_start n todo) = Some s" "\<forall>e \<in> set es1. \<not> is_work e"
  shows "draining s"
proof -
  obtain t u where t: "di_run es1 (di_start n todo) = Some t" and u: "di_step Stop t = Some u" "di_run es2 u = Some s"
    using assms(1) by (auto simp: di_run_append split: option.splits)
  have "ds_workers t = replicate n AtPop"
    using workers_unstarted [OF t assms(2)] by (simp add: di_start_def)
  with u(1) have "draining u" by (auto simp: draining_def split: if_splits)
  with u(2) show ?thesis by (rule draining_run)
qed

section \<open>The mutex variant does the same steps\<close>

lemma of_mutex_ops:
  "of_mutex dispatcher_mutex_new = dispatcher_new"
  "of_mutex (mutex_submit t d) = submit t (of_mutex d)"
  "of_mutex (mutex_stop d) = stop (of_mutex d)"
  by (simp_all add: of_mutex_def dispatcher_mutex_new_def dispatcher_new_def mutex_submit_def submit_def
      mutex_stop_def stop_def)

lemma of_mutex_worker_step:
  "worker_step w (of_mutex d) = (fst (mutex_worker_step w d), of_mutex (snd (mutex_worker_step w d)))"
  by (cases w; cases "dm_queue d") (auto simp: of_mutex_def)

section \<open>A worker alone\<close>

definition kind_stats :: "tache list \<Rightarrow> (string \<rightharpoonup> u64) \<Rightarrow> string \<rightharpoonup> u64" where
  "kind_stats ts m = foldl (\<lambda>m t. bump (nom_kind (ta_kind t)) m) m ts"

lemma worker_loop_drains:
  "\<not> di_running d \<Longrightarrow>
   worker_loop w d =
     (if w = Ended then d else
        d\<lparr>di_queue := (if w = AtCheck then di_queue d else []),
          di_stats := kind_stats (in_hand w @ (if w = AtCheck then [] else di_queue d)) (di_stats d)\<rparr>)"
proof (induction w d rule: worker_loop.induct)
  case (1 w d)
  show ?case
  proof (cases "w = Ended")
    case False
    obtain w' d' where wd: "worker_step w d = (w', d')" by fastforce
    then have "\<not> di_running d'" using 1(2) by (cases w) (auto split: list.splits)
    with 1 False wd have IH: "worker_loop w' d' =
      (if w' = Ended then d' else
        d'\<lparr>di_queue := (if w' = AtCheck then di_queue d' else []),
          di_stats := kind_stats (in_hand w' @ (if w' = AtCheck then [] else di_queue d')) (di_stats d')\<rparr>)"
      by simp
    have "worker_loop w d = worker_loop w' d'"
      using False 1(2) wd by (subst worker_loop.simps) simp
    with IH wd False 1(2) show ?thesis
      by (cases w) (auto simp: kind_stats_def split: list.splits)
  qed (simp add: worker_loop.simps)
qed

section \<open>What main asserts\<close>

text \<open>C33. Tasks are counted exactly, by kind and in total. In any interleaving of the workers with the
  producers and \<open>stop\<close>: when all the workers have ended, the statistics plus the tasks left in the
  queue are the tasks submitted, kind by kind. When the tasks were all submitted before the workers
  took their first step, nothing is left in the queue and the total of \<open>main\<close> is the number of
  tasks. A worker running alone after \<open>stop\<close> (the test \<open>stop_avant_drain_pas_de_perte\<close>) counts
  everything that was in the queue and leaves it empty.\<close>

theorem dispatcher_counts_tasks:
  assumes run: "di_run (es1 @ Stop # es2) (di_start n todo) = Some s"
    and ended: "all_ended s" and workers: "0 < n"
  shows "(\<forall>k. stat_of (di_stats (ds_dispatcher s)) (nom_kind k) +
        of_nat (of_kind k (di_queue (ds_dispatcher s))) = of_nat (of_kind k (concat todo))) \<and>
    grand_total (ds_dispatcher s) + of_nat (length (di_queue (ds_dispatcher s))) = of_nat (length (concat todo)) \<and>
    ((\<forall>e \<in> set es1. \<not> is_work e) \<longrightarrow>
      di_queue (ds_dispatcher s) = [] \<and> grand_total (ds_dispatcher s) = of_nat (length (concat todo))) \<and>
    (\<not> di_running d \<longrightarrow> di_queue (worker_loop AtPop d) = [] \<and>
      di_stats (worker_loop AtPop d) = kind_stats (di_queue d) (di_stats d))"
proof -
  have acc: "accounted (\<lambda>k. of_nat (of_kind k (concat todo))) s"
    by (rule accounted_run [OF run accounted_start])
  have pend: "pending s = di_queue (ds_dispatcher s)"
    by (rule all_ended_pending [OF run ended workers])
  have total: "grand_total (ds_dispatcher s) + of_nat (length (di_queue (ds_dispatcher s))) = of_nat (length (concat todo))"
    using grand_total_accounted [OF acc] pend by simp
  have drained: "di_queue (ds_dispatcher s) = []" if "\<forall>e \<in> set es1. \<not> is_work e"
  proof -
    have "length (ds_workers s) = n" using length_workers_run [OF run] by (simp add: di_start_def)
    with ended workers have "Ended \<in> set (ds_workers s)"
      by (cases "ds_workers s") (auto simp: all_ended_def)
    with draining_after_stop [OF run that] show ?thesis by (auto simp: draining_def)
  qed
  show ?thesis
    using acc pend total drained worker_loop_drains [of d AtPop] by (auto simp: accounted_def)
qed

lemma dispatcher_counts_tasks_witness:
  "\<exists>s. di_run [Produce 0, Produce 1, Stop, Work 0, Work 0, Work 1, Work 0, Work 1, Work 0, Work 1, Work 1]
        (di_start 2 [[fabriquer_tache 0], [fabriquer_tache 1]]) = Some s \<and>
     di_queue (ds_dispatcher s) = [] \<and> grand_total (ds_dispatcher s) = 2"
proof -
  let ?es = "[Work 0, Work 0, Work 1, Work 0, Work 1, Work 0, Work 1, Work 1]"
  let ?run = "di_run ([Produce 0, Produce 1] @ Stop # ?es) (di_start 2 [[fabriquer_tache 0], [fabriquer_tache 1]])"
  have ended: "?run \<noteq> None \<and> all_ended (the ?run)" by code_simp
  have nowork: "\<forall>e \<in> set [Produce 0, Produce 1]. \<not> is_work e" by (simp add: is_work_def)
  from ended obtain s where run: "?run = Some s" and "all_ended s" by (metis option.exhaust_sel)
  from dispatcher_counts_tasks [OF this] nowork
  have "di_queue (ds_dispatcher s) = [] \<and> grand_total (ds_dispatcher s) = 2" by simp
  with run show ?thesis by simp
qed


text \<open>The mutex variant loses a task in the same way (one worker here).\<close>

lemma mutex_task_lost:
  "let w = fst (mutex_worker_step AtPop dispatcher_mutex_new);
       d = mutex_stop (mutex_submit t (snd (mutex_worker_step AtPop dispatcher_mutex_new)))
   in fst (mutex_worker_step w d) = Ended \<and> dm_queue (snd (mutex_worker_step w d)) = [t]"
  by (simp add: dispatcher_mutex_new_def mutex_submit_def mutex_stop_def Let_def)

end
