(* ===== verification/Lockfree.thy ===== *)
theory Lockfree
  imports Prelude
begin

text \<open>
  The demonstrations of lock-free structures, \<open>demos/src/bin/demo07_lockfree_crossbeam.rs\<close>: the
  work-stealing scheduler, the bounded queue with rejected jobs, the unbounded queue and the
  sharded map. An operation of a crossbeam queue or deque or of \<open>DashMap\<close> is one atomic step on
  the value it represents: a list of tasks, a bounded list of jobs, a map. The places of a thread
  between two such operations are the constructors of its program counter.
\<close>

section \<open>Work stealing\<close>

text \<open>At the pop of the own deque; about to try stealer \<open>sid\<close>; with a task in hand, processed but
  not yet counted; after the loop.\<close>

datatype stealing = AtOwn | AtSteal nat | Holding u64 | Gone

record ws_system =
  ws_deques :: "u64 list list"
  ws_threads :: "stealing list"
  ws_processed :: "u64 list"

text \<open>Every deque is empty but the first, which holds all the tasks.\<close>

definition ws_start :: "nat \<Rightarrow> u64 \<Rightarrow> ws_system" where
  "ws_start n_workers total_tasks =
     \<lparr>ws_deques = (replicate n_workers [])[0 := map of_nat [0..<unat total_tasks]],
      ws_threads = replicate n_workers AtOwn,
      ws_processed = replicate n_workers 0\<rparr>"

text \<open>One step of worker \<open>w\<close>; \<open>retry\<close> says that a steal meets contention. Deques are FIFO: the owner
  and the thieves take from the front.\<close>

fun ws_turn :: "nat \<Rightarrow> bool \<Rightarrow> stealing \<Rightarrow> ws_system \<Rightarrow> stealing \<times> ws_system" where
  "ws_turn w retry AtOwn s =
     (case ws_deques s ! w of
        task # rest \<Rightarrow> (Holding task, s\<lparr>ws_deques := (ws_deques s)[w := rest]\<rparr>)
      | [] \<Rightarrow> (AtSteal 0, s))"
| "ws_turn w retry (AtSteal sid) s =
     (if sid \<ge> length (ws_deques s) then (Gone, s)
      else if sid = w then (AtSteal (sid + 1), s)
      else if retry then (AtOwn, s)
      else
        (case ws_deques s ! sid of
           task # rest \<Rightarrow> (Holding task, s\<lparr>ws_deques := (ws_deques s)[sid := rest]\<rparr>)
         | [] \<Rightarrow> (AtSteal (sid + 1), s)))"
| "ws_turn w retry (Holding task) s =
     (AtOwn, s\<lparr>ws_processed := (ws_processed s)[w := ws_processed s ! w + 1]\<rparr>)"
| "ws_turn w retry Gone s = (Gone, s)"

text \<open>An event: the worker that moves and whether its steal is told to retry.\<close>

type_synonym ws_event = "nat \<times> bool"

definition ws_step :: "ws_event \<Rightarrow> ws_system \<Rightarrow> ws_system option" where
  "ws_step e s =
     (case e of (w, retry) \<Rightarrow>
        if w < length (ws_threads s) \<and> ws_threads s ! w \<noteq> Gone then
          (let (pc, s') = ws_turn w retry (ws_threads s ! w) s
           in Some (s'\<lparr>ws_threads := (ws_threads s')[w := pc]\<rparr>))
        else None)"

fun ws_run :: "ws_event list \<Rightarrow> ws_system \<Rightarrow> ws_system option" where
  "ws_run [] s = Some s"
| "ws_run (e # es) s = (case ws_step e s of None \<Rightarrow> None | Some s \<Rightarrow> ws_run es s)"

definition ws_joined :: "ws_system \<Rightarrow> bool" where
  "ws_joined s \<longleftrightarrow> set (ws_threads s) \<subseteq> {Gone}"

text \<open>The total that the demonstration compares with the number of tasks.\<close>

definition ws_total :: "ws_system \<Rightarrow> u64" where
  "ws_total s = sum_list (ws_processed s)"

section \<open>No task is lost\<close>

fun holding :: "stealing \<Rightarrow> nat" where
  "holding (Holding _) = 1"
| "holding _ = 0"

definition ws_left :: "ws_system \<Rightarrow> nat" where
  "ws_left s = sum_list (map length (ws_deques s)) + sum_list (map holding (ws_threads s))"

text \<open>A worker past the pop of its own deque has seen it empty, and nobody fills it again.\<close>

definition ws_inv :: "nat \<Rightarrow> u64 \<Rightarrow> ws_system \<Rightarrow> bool" where
  "ws_inv n tot s \<longleftrightarrow>
     length (ws_deques s) = n \<and> length (ws_threads s) = n \<and> length (ws_processed s) = n \<and>
     ws_total s + of_nat (ws_left s) = tot \<and>
     (\<forall>w < n. ws_threads s ! w \<in> {Gone} \<union> range AtSteal \<longrightarrow> ws_deques s ! w = [])"

lemma sum_list_update_add:
  "i < length xs \<Longrightarrow> sum_list (xs[i := y]) + xs ! i = sum_list xs + (y :: 'a::{comm_monoid_add})"
proof (induction xs arbitrary: i)
  case (Cons x xs)
  then show ?case by (cases i) (auto simp: ac_simps)
qed simp

lemma ws_start_inv:
  assumes "0 < n"
  shows "ws_inv n tot (ws_start n tot)"
proof -
  obtain m where n: "n = Suc m" using assms by (cases n) auto
  have "ws_threads (ws_start n tot) ! w = AtOwn" if "w < n" for w
    using that by (simp add: ws_start_def del: replicate_Suc)
  then show ?thesis
    by (auto simp: ws_inv_def ws_total_def ws_left_def ws_start_def n sum_list_replicate)
qed

lemma sum_length_update:
  "i < length xss \<Longrightarrow> sum_list (map length (xss[i := xs])) + length (xss ! i) = sum_list (map length xss) + length xs"
  using sum_list_update_add [of i "map length xss" "length xs"] by (simp add: map_update)

lemma sum_holding_update:
  "i < length ps \<Longrightarrow> sum_list (map holding (ps[i := p])) + holding (ps ! i) = sum_list (map holding ps) + holding p"
  using sum_list_update_add [of i "map holding ps" "holding p"] by (simp add: map_update)

lemma ws_step_cases:
  assumes "ws_step (w, retry) s = Some s'"
  obtains pc s1 where "w < length (ws_threads s)" "ws_threads s ! w \<noteq> Gone"
    "ws_turn w retry (ws_threads s ! w) s = (pc, s1)"
    "s' = s1\<lparr>ws_threads := (ws_threads s)[w := pc]\<rparr>"
proof -
  obtain pc s1 where t: "ws_turn w retry (ws_threads s ! w) s = (pc, s1)" by fastforce
  moreover have "ws_threads s1 = ws_threads s"
    using t by (cases "ws_threads s ! w") (auto split: if_splits list.splits)
  ultimately show thesis using that assms by (auto simp: ws_step_def split: if_splits)
qed

text \<open>A turn moves a task from a deque to the hand, or from the hand to the count.\<close>

definition ws_queued :: "ws_system \<Rightarrow> nat" where
  "ws_queued s = sum_list (map length (ws_deques s))"

definition same_sizes :: "ws_system \<Rightarrow> ws_system \<Rightarrow> bool" where
  "same_sizes s s1 \<longleftrightarrow> length (ws_deques s1) = length (ws_deques s) \<and>
     length (ws_processed s1) = length (ws_processed s)"

lemma ws_take:
  assumes "i < length (ws_deques s)" "ws_deques s ! i = task # rest"
    and "s1 = s\<lparr>ws_deques := (ws_deques s)[i := rest]\<rparr>"
  shows "ws_queued s = ws_queued s1 + 1" "ws_total s1 = ws_total s" "same_sizes s s1"
    "ws_deques s ! v = [] \<Longrightarrow> ws_deques s1 ! v = []"
  using sum_length_update [OF assms(1), of rest] assms
  by (auto simp: ws_queued_def ws_total_def same_sizes_def nth_list_update)

lemma ws_count:
  assumes "w < length (ws_processed s)"
    and "s1 = s\<lparr>ws_processed := (ws_processed s)[w := ws_processed s ! w + 1]\<rparr>"
  shows "ws_queued s1 = ws_queued s" "ws_total s1 = ws_total s + 1" "same_sizes s s1"
    "ws_deques s1 = ws_deques s"
proof -
  have "sum_list ((ws_processed s)[w := ws_processed s ! w + 1]) + ws_processed s ! w =
      (sum_list (ws_processed s) + 1) + ws_processed s ! w"
    using sum_list_update_add [OF assms(1), of "ws_processed s ! w + 1"] by (simp add: ac_simps)
  then have "sum_list ((ws_processed s)[w := ws_processed s ! w + 1]) = sum_list (ws_processed s) + 1"
    by (simp only: add_right_cancel)
  then show "ws_total s1 = ws_total s + 1" by (simp add: ws_total_def assms(2))
qed (simp_all add: assms(2) ws_queued_def same_sizes_def)

lemma ws_turn_facts:
  assumes turn: "ws_turn w retry p s = (pc, s1)" and w: "w < length (ws_deques s)" "w < length (ws_processed s)"
  shows "ws_total s1 + of_nat (ws_queued s1 + holding pc) = ws_total s + of_nat (ws_queued s + holding p) \<and>
    same_sizes s s1 \<and> (\<forall>v. ws_deques s ! v = [] \<longrightarrow> ws_deques s1 ! v = []) \<and>
    (pc \<in> {Gone} \<union> range AtSteal \<longrightarrow> p = AtOwn \<longrightarrow> ws_deques s1 ! w = []) \<and>
    (pc \<in> {Gone} \<union> range AtSteal \<longrightarrow> p \<in> {AtOwn, Gone} \<union> range AtSteal)"
proof (cases p)
  case AtOwn
  show ?thesis
  proof (cases "ws_deques s ! w")
    case (Cons task rest)
    with AtOwn turn have "pc = Holding task" "s1 = s\<lparr>ws_deques := (ws_deques s)[w := rest]\<rparr>" by auto
    with ws_take [OF w(1) Cons this(2)] AtOwn show ?thesis by auto
  qed (use AtOwn turn in \<open>auto simp: same_sizes_def\<close>)
next
  case (AtSteal sid)
  show ?thesis
  proof (cases "sid < length (ws_deques s) \<and> sid \<noteq> w \<and> \<not> retry \<and> ws_deques s ! sid \<noteq> []")
    case True
    then obtain task rest where d: "ws_deques s ! sid = task # rest" by (cases "ws_deques s ! sid") auto
    with AtSteal turn True have "pc = Holding task" "s1 = s\<lparr>ws_deques := (ws_deques s)[sid := rest]\<rparr>" by auto
    with ws_take [OF _ d this(2)] True AtSteal show ?thesis by auto
  qed (use AtSteal turn in \<open>auto simp: same_sizes_def split: if_splits list.splits\<close>)
next
  case (Holding task)
  with turn have "pc = AtOwn" "s1 = s\<lparr>ws_processed := (ws_processed s)[w := ws_processed s ! w + 1]\<rparr>" by auto
  with ws_count [OF w(2) this(2)] Holding show ?thesis by auto
qed (use turn in \<open>auto simp: same_sizes_def\<close>)

lemma ws_step_inv:
  assumes step: "ws_step (w, retry) s = Some s'" and inv: "ws_inv n tot s"
  shows "ws_inv n tot s'"
proof -
  from step obtain pc s1 where t: "w < length (ws_threads s)" "ws_threads s ! w \<noteq> Gone"
    "ws_turn w retry (ws_threads s ! w) s = (pc, s1)" and s': "s' = s1\<lparr>ws_threads := (ws_threads s)[w := pc]\<rparr>"
    by (rule ws_step_cases)
  have sizes: "length (ws_deques s) = n" "length (ws_threads s) = n" "length (ws_processed s) = n"
    and count: "ws_total s + of_nat (ws_left s) = tot"
    and own: "\<forall>w < n. ws_threads s ! w \<in> {Gone} \<union> range AtSteal \<longrightarrow> ws_deques s ! w = []"
    using inv by (simp_all add: ws_inv_def)
  have f: "ws_total s1 + of_nat (ws_queued s1 + holding pc) = ws_total s + of_nat (ws_queued s + holding (ws_threads s ! w))"
    "same_sizes s s1" "\<forall>v. ws_deques s ! v = [] \<longrightarrow> ws_deques s1 ! v = []"
    "pc \<in> {Gone} \<union> range AtSteal \<Longrightarrow> ws_threads s ! w = AtOwn \<Longrightarrow> ws_deques s1 ! w = []"
    "pc \<in> {Gone} \<union> range AtSteal \<Longrightarrow> ws_threads s ! w \<in> {AtOwn, Gone} \<union> range AtSteal"
    using ws_turn_facts [OF t(3)] t(1) sizes by auto
  define hs where "hs = sum_list (map holding (ws_threads s))"
  let ?H = "holding (ws_threads s ! w)"
  have left: "ws_left s = ws_queued s + hs" by (simp add: ws_left_def ws_queued_def hs_def)
  have left': "ws_left s' + ?H = ws_queued s1 + holding pc + hs"
    using sum_holding_update [OF t(1), of pc] by (simp add: ws_left_def ws_queued_def hs_def s')
  have "ws_total s' + of_nat (ws_left s') + of_nat ?H = ws_total s1 + of_nat (ws_left s' + ?H)"
    by (simp add: ws_total_def s' add.assoc)
  also have "\<dots> = ws_total s1 + of_nat (ws_queued s1 + holding pc) + of_nat hs"
    by (simp only: left' of_nat_add add.assoc)
  also have "\<dots> = ws_total s + of_nat (ws_left s) + of_nat ?H"
    unfolding f(1) left by (simp add: ac_simps)
  finally have "ws_total s' + of_nat (ws_left s') = tot"
    unfolding count by (simp only: add_right_cancel)
  moreover have "ws_deques s' ! v = []"
    if "v < n" "ws_threads s' ! v \<in> {Gone} \<union> range AtSteal" for v
  proof (cases "v = w")
    case True
    then have "pc \<in> {Gone} \<union> range AtSteal" using that sizes s' by simp
    then have "ws_deques s1 ! w = []"
      using f(4) f(5) f(3) own [rule_format, of w] t(1) sizes by fastforce
    then show ?thesis using True s' by simp
  qed (use that own f(3) s' in auto)
  ultimately show ?thesis using sizes f(2) by (simp add: ws_inv_def same_sizes_def s')
qed

lemma ws_run_inv: "ws_run es s = Some s' \<Longrightarrow> ws_inv n tot s \<Longrightarrow> ws_inv n tot s'"
  by (induction es arbitrary: s) (auto split: option.splits intro: ws_step_inv)

section \<open>The workers leave\<close>

text \<open>How far each place is from the end of the loop, and how far the whole system is.\<close>

fun ws_distance :: "nat \<Rightarrow> stealing \<Rightarrow> nat" where
  "ws_distance n AtOwn = n + 2"
| "ws_distance n (AtSteal sid) = (n - sid) + 1"
| "ws_distance n (Holding _) = n + 3"
| "ws_distance n Gone = 0"

definition ws_measure :: "nat \<Rightarrow> ws_system \<Rightarrow> nat" where
  "ws_measure n s = (n + 3) * ws_queued s + sum_list (map (ws_distance n) (ws_threads s))"

lemma ws_turn_distance:
  assumes "ws_turn w retry p s = (pc, s1)" "p \<noteq> Gone" "length (ws_deques s) = n" "w < n"
  shows "(n + 3) * ws_queued s1 + ws_distance n pc + 1 \<le>
    (n + 3) * ws_queued s + ws_distance n p + (if retry then n + 2 else 0)"
proof (cases p)
  case AtOwn
  show ?thesis
  proof (cases "ws_deques s ! w")
    case (Cons task rest)
    with AtOwn assms have "pc = Holding task" "s1 = s\<lparr>ws_deques := (ws_deques s)[w := rest]\<rparr>" by auto
    with ws_take [OF _ Cons this(2)] assms(3,4) AtOwn show ?thesis by auto
  qed (use AtOwn assms in auto)
next
  case (AtSteal sid)
  show ?thesis
  proof (cases "sid < length (ws_deques s) \<and> sid \<noteq> w \<and> \<not> retry \<and> ws_deques s ! sid \<noteq> []")
    case True
    then obtain task rest where d: "ws_deques s ! sid = task # rest" by (cases "ws_deques s ! sid") auto
    with AtSteal assms True have "pc = Holding task" "s1 = s\<lparr>ws_deques := (ws_deques s)[sid := rest]\<rparr>" by auto
    with ws_take [OF _ d this(2)] True AtSteal assms(3) show ?thesis by auto
  next
    case False
    then show ?thesis using AtSteal assms by (auto split: if_splits list.splits)
  qed
next
  case (Holding task)
  with assms have "pc = AtOwn" "ws_queued s1 = ws_queued s" by (auto simp: ws_queued_def)
  then show ?thesis using Holding by simp
qed (use assms in simp)

lemma ws_step_measure:
  assumes step: "ws_step (w, retry) s = Some s'" and inv: "ws_inv n tot s"
  shows "ws_measure n s' + 1 \<le> ws_measure n s + (if retry then n + 2 else 0)"
proof -
  from step obtain pc s1 where t: "w < length (ws_threads s)" "ws_threads s ! w \<noteq> Gone"
    "ws_turn w retry (ws_threads s ! w) s = (pc, s1)" and s': "s' = s1\<lparr>ws_threads := (ws_threads s)[w := pc]\<rparr>"
    by (rule ws_step_cases)
  have "sum_list (map (ws_distance n) ((ws_threads s)[w := pc])) + ws_distance n (ws_threads s ! w) =
      sum_list (map (ws_distance n) (ws_threads s)) + ws_distance n pc"
    using sum_list_update_add [of w "map (ws_distance n) (ws_threads s)" "ws_distance n pc"] t(1)
    by (simp add: map_update)
  moreover have "ws_queued s' = ws_queued s1" by (simp add: ws_queued_def s')
  ultimately show ?thesis
    using ws_turn_distance [OF t(3,2), of n] t(1) inv by (simp add: ws_measure_def ws_inv_def s')
qed

lemma ws_run_measure:
  "ws_run es s = Some s' \<Longrightarrow> ws_inv n tot s \<Longrightarrow>
   ws_measure n s' + length es \<le> ws_measure n s + (n + 2) * length (filter snd es)"
proof (induction es arbitrary: s)
  case (Cons e es)
  then obtain t where t: "ws_step e s = Some t" "ws_run es t = Some s'" by (auto split: option.splits)
  obtain w retry where e: "e = (w, retry)" by fastforce
  have "ws_inv n tot t" using ws_step_inv t(1) Cons.prems(2) e by blast
  from Cons.IH [OF t(2) this] ws_step_measure [OF t(1)[unfolded e] Cons.prems(2)] show ?case
    by (cases retry) (auto simp: e)
qed simp

section \<open>The schedule of the demonstration\<close>

lemma ws_start_measure:
  assumes "0 < n"
  shows "ws_measure n (ws_start n tot) = (n + 3) * unat tot + n * (n + 2)"
proof -
  obtain m where "n = Suc m" using assms by (cases n) auto
  then show ?thesis by (simp add: ws_measure_def ws_queued_def ws_start_def sum_list_replicate)
qed

text \<open>C35. Work stealing: from the start with all the tasks on the first deque, every schedule of the
  workers, with any contention, runs out: it has at most as many steps as the bound says, which
  grows only with the steals told to retry; and as long as a worker has not left its loop, it has a
  next step. When all have left, no deque holds a task and the counters sum up to the number of
  tasks, the assertion of the demonstration.\<close>

theorem work_stealing_exact:
  assumes "ws_run es (ws_start n tot) = Some s" and "0 < n"
  shows "length es \<le> (n + 3) * unat tot + n * (n + 2) + (n + 2) * length (filter snd es) \<and>
    (ws_joined s \<or> (\<exists>w s'. ws_step (w, False) s = Some s')) \<and>
    (ws_joined s \<longrightarrow> ws_total s = tot \<and> (\<forall>d \<in> set (ws_deques s). d = []))"
proof -
  have inv: "ws_inv n tot s" by (rule ws_run_inv [OF assms(1) ws_start_inv [OF assms(2)]])
  have "ws_joined s \<or> (\<exists>w s'. ws_step (w, False) s = Some s')"
  proof (rule disjCI)
    assume "\<not> (\<exists>w s'. ws_step (w, False) s = Some s')"
    then have "ws_threads s ! w = Gone" if "w < length (ws_threads s)" for w
      using that by (auto simp: ws_step_def split: if_splits prod.splits)
    then show "ws_joined s" by (auto simp: ws_joined_def in_set_conv_nth)
  qed
  moreover have "ws_total s = tot \<and> (\<forall>d \<in> set (ws_deques s). d = [])" if joined: "ws_joined s"
  proof -
    have "ws_threads s ! w = Gone" if "w < n" for w
    proof -
      have "ws_threads s ! w \<in> set (ws_threads s)" using that inv by (simp add: ws_inv_def)
      with joined show ?thesis by (auto simp: ws_joined_def)
    qed
    then have empty: "\<forall>d \<in> set (ws_deques s). d = []"
      using inv by (auto simp: ws_inv_def in_set_conv_nth)
    moreover have "\<forall>p \<in> set (ws_threads s). holding p = 0" using joined by (auto simp: ws_joined_def)
    ultimately have "ws_left s = 0" by (auto simp: ws_left_def)
    then show ?thesis using inv empty by (simp add: ws_inv_def)
  qed
  ultimately show ?thesis
    using ws_run_measure [OF assms(1) ws_start_inv [OF assms(2)]] ws_start_measure [OF assms(2), of tot] by simp
qed

text \<open>Two workers and two tasks: the second steals one, after one retry.\<close>

definition ws_example :: "ws_event list" where
  "ws_example = [(1, False), (1, True), (0, False), (1, False), (1, False), (1, False), (0, False), (1, False),
     (0, False), (0, False), (0, False), (0, False), (1, False), (1, False), (1, False)]"

lemma work_stealing_exact_witness:
  "\<exists>s. ws_run ws_example (ws_start 2 2) = Some s \<and> ws_processed s = [1, 1] \<and> ws_total s = 2"
proof -
  let ?run = "ws_run ws_example (ws_start 2 2)"
  have run: "?run \<noteq> None \<and> ws_joined (the ?run) \<and> ws_processed (the ?run) = [1, 1]" by code_simp
  then obtain s where s: "?run = Some s" "ws_joined s" "ws_processed s = [1, 1]" by auto
  from work_stealing_exact [OF s(1)] s(2) have "ws_total s = 2" by simp
  with s show ?thesis by blast
qed

section \<open>The bounded queue\<close>

text \<open>\<open>ArrayQueue::push\<close> refuses when the queue is full, \<open>pop\<close> yields nothing when it is empty. A
  producer counts a refused job as dropped; the counter is read after the threads are joined, so the
  push and the count are one step. A consumer counts locally; it reads the flag after a pop that
  found nothing.\<close>

definition array_push :: "usize \<Rightarrow> 'a \<Rightarrow> 'a list \<Rightarrow> 'a list option" where
  "array_push capacity item q = (if length q < capacity then Some (q @ [item]) else None)"

datatype job_place = JobPop | JobCheck | JobEnd

record 'a aq_system =
  aq_queue :: "'a list"
  aq_dropped :: u64
  aq_todo :: "'a list list"
  aq_consumers :: "(job_place \<times> u32) list"
  aq_stop :: bool

datatype aq_event = PushJob nat | Consume nat | SetStop

fun consume_turn :: "job_place \<times> u32 \<Rightarrow> 'a aq_system \<Rightarrow> (job_place \<times> u32) \<times> 'a aq_system" where
  "consume_turn (JobPop, cnt) s =
     (case aq_queue s of
        item # q \<Rightarrow> ((JobPop, cnt + 1), s\<lparr>aq_queue := q\<rparr>)
      | [] \<Rightarrow> ((JobCheck, cnt), s))"
| "consume_turn (JobCheck, cnt) s = (if aq_stop s then ((JobEnd, cnt), s) else ((JobPop, cnt), s))"
| "consume_turn (JobEnd, cnt) s = ((JobEnd, cnt), s)"

text \<open>\<open>main\<close> sets the flag once it has joined the producers.\<close>

fun aq_step :: "usize \<Rightarrow> aq_event \<Rightarrow> 'a aq_system \<Rightarrow> 'a aq_system option" where
  "aq_step capacity (PushJob i) s =
     (if i < length (aq_todo s) then
        (case aq_todo s ! i of
           [] \<Rightarrow> None
         | item # items \<Rightarrow>
             (let s = s\<lparr>aq_todo := (aq_todo s)[i := items]\<rparr>
              in case array_push capacity item (aq_queue s) of
                   Some q \<Rightarrow> Some (s\<lparr>aq_queue := q\<rparr>)
                 | None \<Rightarrow> Some (s\<lparr>aq_dropped := aq_dropped s + 1\<rparr>)))
      else None)"
| "aq_step capacity (Consume i) s =
     (if i < length (aq_consumers s) then
        (let (c, s) = consume_turn (aq_consumers s ! i) s
         in Some (s\<lparr>aq_consumers := (aq_consumers s)[i := c]\<rparr>))
      else None)"
| "aq_step capacity SetStop s =
     (if \<forall>items \<in> set (aq_todo s). items = [] then Some (s\<lparr>aq_stop := True\<rparr>) else None)"

fun aq_run :: "usize \<Rightarrow> aq_event list \<Rightarrow> 'a aq_system \<Rightarrow> 'a aq_system option" where
  "aq_run capacity [] s = Some s"
| "aq_run capacity (e # es) s = (case aq_step capacity e s of None \<Rightarrow> None | Some s \<Rightarrow> aq_run capacity es s)"

definition aq_start :: "nat \<Rightarrow> 'a list list \<Rightarrow> 'a aq_system" where
  "aq_start n_cons todo =
     \<lparr>aq_queue = [], aq_dropped = 0, aq_todo = todo, aq_consumers = replicate n_cons (JobPop, 0), aq_stop = False\<rparr>"

definition job_names :: "nat \<Rightarrow> nat \<Rightarrow> string list list" where
  "job_names n_prod n_jobs =
     map (\<lambda>p_id. map (\<lambda>i. ''job-p'' @ show_nat p_id @ ''-#'' @ show_nat i) [0..<n_jobs]) [0..<n_prod]"

definition total_consumed :: "'a aq_system \<Rightarrow> u32" where
  "total_consumed s = sum_list (map snd (aq_consumers s))"

text \<open>Every job is consumed, dropped, queued or still to be pushed. The counters are compared at
  64 bits, as the assertion of the demonstration does.\<close>

definition aq_accounted :: "usize \<Rightarrow> nat \<Rightarrow> 'a aq_system \<Rightarrow> bool" where
  "aq_accounted capacity jobs s \<longleftrightarrow>
     length (aq_queue s) \<le> capacity \<and>
     (\<exists>done lost. total_consumed s = of_nat done \<and> aq_dropped s = of_nat lost \<and>
        done + lost + length (aq_queue s) + length (concat (aq_todo s)) = jobs)"

lemma aq_start_accounted: "aq_accounted capacity (length (concat todo)) (aq_start n_cons todo)"
  by (auto simp: aq_accounted_def aq_start_def total_consumed_def sum_list_replicate intro: exI [of _ 0])

lemma length_concat_update:
  "i < length xss \<Longrightarrow> length (concat (xss[i := xs])) + length (xss ! i) = length (concat xss) + length xs"
  using sum_length_update [of i xss xs] by (simp add: length_concat)

lemma total_consumed_update:
  "i < length (aq_consumers s) \<Longrightarrow>
   sum_list (map snd ((aq_consumers s)[i := c])) + snd (aq_consumers s ! i) = total_consumed s + snd c"
  using sum_list_update_add [of i "map snd (aq_consumers s)" "snd c"]
  by (simp add: map_update total_consumed_def)

lemma aq_step_accounted:
  assumes "aq_step capacity e s = Some s'" "aq_accounted capacity jobs s"
  shows "aq_accounted capacity jobs s'"
proof (cases e)
  case (PushJob i)
  with assms(1) obtain item items where i: "i < length (aq_todo s)" "aq_todo s ! i = item # items"
    by (auto split: if_splits list.splits)
  obtain n l where acc: "length (aq_queue s) \<le> capacity" "total_consumed s = of_nat n" "aq_dropped s = of_nat l"
      "n + l + length (aq_queue s) + length (concat (aq_todo s)) = jobs"
    using assms(2) by (auto simp: aq_accounted_def)
  have todo: "length (concat (aq_todo s)) = Suc (length (concat ((aq_todo s)[i := items])))"
    using length_concat_update [OF i(1), of items] i(2) by simp
  show ?thesis
  proof (cases "length (aq_queue s) < capacity")
    case True
    with assms(1) PushJob i have
      s': "s' = s\<lparr>aq_todo := (aq_todo s)[i := items], aq_queue := aq_queue s @ [item]\<rparr>"
      by (simp add: array_push_def)
    show ?thesis unfolding aq_accounted_def
      using acc todo True by (intro conjI exI [of _ n] exI [of _ l]) (simp_all add: s' total_consumed_def)
  next
    case False
    with assms(1) PushJob i have
      s': "s' = s\<lparr>aq_todo := (aq_todo s)[i := items], aq_dropped := aq_dropped s + 1\<rparr>"
      by (simp add: array_push_def)
    show ?thesis unfolding aq_accounted_def
      using acc todo by (intro conjI exI [of _ n] exI [of _ "Suc l"]) (simp_all add: s' total_consumed_def)
  qed
next
  case (Consume i)
  then have i: "i < length (aq_consumers s)" using assms(1) by (simp split: if_splits)
  obtain p cnt where c: "aq_consumers s ! i = (p, cnt)" by fastforce
  obtain n l where acc: "length (aq_queue s) \<le> capacity" "total_consumed s = of_nat n" "aq_dropped s = of_nat l"
      "n + l + length (aq_queue s) + length (concat (aq_todo s)) = jobs"
    using assms(2) by (auto simp: aq_accounted_def)
  have upd: "sum_list (map snd ((aq_consumers s)[i := (p', cnt')])) + cnt = of_nat n + cnt'" for p' cnt'
    using total_consumed_update [OF i, of "(p', cnt')"] c acc(2) by simp
  show ?thesis
  proof (cases "p = JobPop \<and> aq_queue s \<noteq> []")
    case True
    then obtain item q where q: "aq_queue s = item # q" by (cases "aq_queue s") auto
    with assms(1) Consume i c True have
      s': "s' = s\<lparr>aq_queue := q, aq_consumers := (aq_consumers s)[i := (JobPop, cnt + 1)]\<rparr>" by simp
    have "sum_list (map snd ((aq_consumers s)[i := (JobPop, cnt + 1)])) + cnt = of_nat (Suc n) + cnt"
      unfolding upd by simp
    then have "sum_list (map snd ((aq_consumers s)[i := (JobPop, cnt + 1)])) = of_nat (Suc n)"
      by (simp only: add_right_cancel)
    then have "total_consumed s' = of_nat (Suc n)" by (simp add: s' total_consumed_def)
    then show ?thesis unfolding aq_accounted_def
      using acc q by (intro conjI exI [of _ "Suc n"] exI [of _ l]) (simp_all add: s')
  next
    case False
    with assms(1) Consume i c obtain p' where
      s': "s' = s\<lparr>aq_consumers := (aq_consumers s)[i := (p', cnt)]\<rparr>"
      by (cases p) (auto split: list.splits if_splits)
    have "total_consumed s' = of_nat n" using upd [of p' cnt] by (simp add: s' total_consumed_def)
    then show ?thesis unfolding aq_accounted_def
      using acc by (intro conjI exI [of _ n] exI [of _ l]) (simp_all add: s')
  qed
qed (use assms in \<open>auto simp: aq_accounted_def total_consumed_def split: if_splits\<close>)

lemma aq_run_accounted:
  "aq_run capacity es s = Some s' \<Longrightarrow> aq_accounted capacity jobs s \<Longrightarrow> aq_accounted capacity jobs s'"
  by (induction es arbitrary: s) (auto split: option.splits intro: aq_step_accounted)

text \<open>The demonstration: three producers of twenty jobs, a queue of sixteen; when the producers are
  through and the queue is empty, consumed plus dropped is sixty, as its assertion says.\<close>

lemma length_job_names: "length (concat (job_names n_prod n_jobs)) = n_prod * n_jobs"
  by (simp add: job_names_def length_concat comp_def sum_list_triv)

lemma array_queue_demo:
  assumes "aq_run 16 es (aq_start 2 (job_names 3 20)) = Some s"
    and "concat (aq_todo s) = []" "aq_queue s = []"
  shows "ucast (total_consumed s) + aq_dropped s = (60 :: u64)"
proof -
  have "length (concat (job_names 3 20)) = 60" by (simp add: length_job_names)
  then have "aq_accounted 16 60 s"
    using aq_run_accounted [OF assms(1), of 60] aq_start_accounted [of 16 "job_names 3 20" 2] by simp
  then obtain n l where "total_consumed s = of_nat n" "aq_dropped s = of_nat l" "n + l = 60"
    using assms(2,3) by (auto simp: aq_accounted_def)
  moreover from this have "ucast (of_nat n :: u32) = (of_nat n :: u64)"
  proof -
    have "unat (of_nat n :: u32) = n" using \<open>n + l = 60\<close> by (simp add: unat_of_nat)
    moreover have "(ucast (of_nat n :: u32) :: u64) = of_nat (unat (of_nat n :: u32))"
      by (simp only: of_nat_unat)
    ultimately show ?thesis by simp
  qed
  moreover have "of_nat n + of_nat l = (60 :: u64)"
    using \<open>n + l = 60\<close> by (metis of_nat_add of_nat_numeral)
  ultimately show ?thesis by simp
qed

section \<open>The unbounded queue\<close>

text \<open>The pushes of the four producers reach the queue in some order; when they are joined, \<open>main\<close>
  drains it.\<close>

definition seg_pushes :: "nat \<Rightarrow> nat \<Rightarrow> u64 list list" where
  "seg_pushes n_prod n_events =
     map (\<lambda>p_id. map (\<lambda>i. of_nat p_id * 100000 + of_nat i) [0..<n_events]) [0..<n_prod]"

fun seg_drain :: "u64 list \<Rightarrow> u64 \<times> u64 \<Rightarrow> u64 \<times> u64" where
  "seg_drain [] (tot, cnt) = (tot, cnt)"
| "seg_drain (v # queue) (tot, cnt) = seg_drain queue (tot + v, cnt + 1)"

lemma seg_drain_eq: "seg_drain queue (tot, cnt) = (tot + sum_list queue, cnt + of_nat (length queue))"
  by (induction queue arbitrary: tot cnt) (simp_all add: ac_simps)

lemma seg_queue_demo:
  assumes "mset queue = mset (concat (seg_pushes 4 10000))"
  shows "seg_drain queue (0, 0) = (sum_list (concat (seg_pushes 4 10000)), 40000)"
proof -
  have "sum_list queue = sum_list (concat (seg_pushes 4 10000))"
    using assms by (metis sum_mset_sum_list)
  moreover have "length queue = 40000"
    using assms [THEN mset_eq_length] by (simp add: seg_pushes_def length_concat comp_def sum_list_triv)
  ultimately show ?thesis by (simp add: seg_drain_eq)
qed

section \<open>The sharded map\<close>

definition cache_host :: "nat \<Rightarrow> string" where
  "cache_host i = ''server-'' @ (if i mod 10 < 10 then ''0'' else []) @ show_nat (i mod 10)"

text \<open>\<open>entry(host).or_insert_with(Vec::new).push(timestamp)\<close>\<close>

definition cache_push :: "string \<Rightarrow> u64 \<Rightarrow> (string \<rightharpoonup> u64 list) \<Rightarrow> string \<rightharpoonup> u64 list" where
  "cache_push host timestamp cache =
     cache(host \<mapsto> (case cache host of Some ts \<Rightarrow> ts | None \<Rightarrow> []) @ [timestamp])"

text \<open>The pushes of all threads in the order they reach the map, each with its thread and index.\<close>

definition cache_run :: "(nat \<times> nat) list \<Rightarrow> string \<rightharpoonup> u64 list" where
  "cache_run sched =
     foldl (\<lambda>cache (t, i). cache_push (cache_host i) (of_nat t * 1000000 + of_nat i) cache) Map.empty sched"

definition cache_totals :: "(string \<times> u64 list) list \<Rightarrow> usize \<times> usize" where
  "cache_totals items = foldl (\<lambda>(entries, timestamps) (host, ts). (entries + 1, timestamps + length ts)) (0, 0) items"

lemma cache_host_inject: "cache_host i = cache_host j \<longleftrightarrow> i mod 10 = j mod 10"
  by (simp add: cache_host_def show_nat_inject)

lemma cache_run_Nil: "cache_run [] = Map.empty"
  by (simp add: cache_run_def)

lemma cache_run_snoc:
  "cache_run (sched @ [e]) =
     cache_push (cache_host (snd e)) (of_nat (fst e) * 1000000 + of_nat (snd e)) (cache_run sched)"
  by (simp add: cache_run_def case_prod_beta)

lemma dom_cache_run: "dom (cache_run sched) = (\<lambda>e. cache_host (snd e)) ` set sched"
proof (induction sched rule: rev_induct)
  case (snoc e sched)
  have "dom (cache_run (sched @ [e])) = insert (cache_host (snd e)) (dom (cache_run sched))"
    by (simp add: cache_run_snoc cache_push_def)
  then show ?case unfolding snoc.IH by simp
qed (simp add: cache_run_Nil)

lemma cache_run_entry:
  "(case cache_run sched host of Some ts \<Rightarrow> length ts | None \<Rightarrow> 0) =
     length (filter (\<lambda>e. cache_host (snd e) = host) sched)"
proof (induction sched rule: rev_induct)
  case (snoc e sched)
  then show ?case by (cases "cache_host (snd e) = host") (auto simp: cache_run_snoc cache_push_def split: option.splits)
qed (simp add: cache_run_Nil)

lemma cache_totals_eq: "cache_totals items = (length items, sum_list (map (length \<circ> snd) items))"
proof -
  have "foldl (\<lambda>(entries, timestamps) (host, ts). (entries + 1, timestamps + length ts)) (a, b) items =
      (a + length items, b + sum_list (map (length \<circ> snd) items))" for a b
    by (induction items arbitrary: a b) auto
  then show ?thesis by (simp add: cache_totals_def)
qed

text \<open>Whatever the order in which the 1600 pushes of the eight threads arrive, and in which the map is
  iterated, the demonstration counts ten hosts and 1600 timestamps.\<close>

lemma cache_demo:
  assumes "mset sched = mset (List.product [0..<8] [0..<200])" and "iterates (cache_run sched) items"
  shows "cache_totals items = (10, 1600)"
proof -
  note it = iteratesD [OF assms(2)]
  have dom: "dom (cache_run sched) = cache_host ` {0..<200}"
    using mset_eq_setD [OF assms(1)] by (force simp: dom_cache_run image_iff)
  also have "\<dots> = cache_host ` {0..<10}"
    by (auto simp: image_iff cache_host_inject)
  finally have "card (dom (cache_run sched)) = card {0..<10::nat}"
    by (simp add: card_image inj_on_def cache_host_inject)
  then have hosts: "length items = 10" using it(4) by simp
  have "sum_list (map (length \<circ> snd) items) = (\<Sum>host \<in> fst ` set items. length (the (cache_run sched host)))"
  proof -
    have eq: "map (length \<circ> snd) items = map (\<lambda>host. length (the (cache_run sched host))) (map fst items)"
      using it(1) by (auto simp: map_of_is_SomeI simp flip: it(2))
    show ?thesis
      unfolding eq by (subst sum_list_distinct_conv_sum_set [OF it(1)]) simp
  qed
  also have "fst ` set items = dom (cache_run sched)" using it(2) by (simp add: dom_map_of_conv_image_fst flip: it(2))
  also have "(\<Sum>host \<in> dom (cache_run sched). length (the (cache_run sched host))) =
      (\<Sum>host \<in> dom (cache_run sched). length (filter (\<lambda>e. cache_host (snd e) = host) sched))"
    by (intro sum.cong) (auto simp flip: cache_run_entry split: option.splits)
  also have "\<dots> = length sched"
  proof -
    have "(\<Sum>host \<in> D. length (filter (\<lambda>e. cache_host (snd e) = host) xs)) = length xs"
      if "finite D" "(\<lambda>e. cache_host (snd e)) ` set xs \<subseteq> D" for D and xs :: "(nat \<times> nat) list"
      using that(2)
    proof (induction xs)
      case (Cons x xs)
      have "(\<Sum>host \<in> D. length (filter (\<lambda>e. cache_host (snd e) = host) (x # xs))) =
          (\<Sum>host \<in> D. (if host = cache_host (snd x) then 1 else 0) +
             length (filter (\<lambda>e. cache_host (snd e) = host) xs))"
        by (intro sum.cong) auto
      with Cons that(1) show ?case by (simp add: sum.distrib)
    qed simp
    then show ?thesis using dom_cache_run [of sched] it(5) by auto
  qed
  also have "\<dots> = 1600" using mset_eq_length [OF assms(1)] by simp
  finally show ?thesis using hosts by (simp add: cache_totals_eq comp_def)
qed

end
