(* ===== verification/Crdt.thy ===== *)
theory Crdt
  imports Prelude
begin

text \<open>
  The conflict-free replicated data types of \<open>demos/src/bin/demo_3_3b_crdt.rs\<close>: the grow-only
  counter, the increment/decrement counter and the observed-remove set.

  Each \<open>merge\<close> of the source is a loop over the other replica's hash map; \<open>*_merge_loop\<close> is that
  loop over the entries in the order the map yields them, and \<open>*_merge\<close> is its effect, the same
  for every order. The locale \<open>replicated\<close> is what makes the types converge: the content is
  joined by a commutative, associative and idempotent operation. Its lemmas say that replicas
  that have merged the same states, in any order and any number of times, have the same content;
  the three types interpret it.
\<close>

section \<open>The grow-only counter\<close>

record gcounter =
  gc_node_id :: string
  gc_counters :: "string \<rightharpoonup> u64"

definition gcounter_new :: "string \<Rightarrow> gcounter" where
  "gcounter_new node_id = \<lparr>gc_node_id = node_id, gc_counters = Map.empty\<rparr>"

definition entry_or :: "'v \<Rightarrow> ('k \<rightharpoonup> 'v) \<Rightarrow> 'k \<Rightarrow> 'v" where
  "entry_or d m k = (case m k of Some v \<Rightarrow> v | None \<Rightarrow> d)"

definition gcounter_increment :: "gcounter \<Rightarrow> gcounter" where
  "gcounter_increment s =
     s\<lparr>gc_counters := (gc_counters s)(gc_node_id s \<mapsto> entry_or 0 (gc_counters s) (gc_node_id s) + 1)\<rparr>"

text \<open>\<open>values().sum()\<close>: addition wraps, so the order does not matter.\<close>

definition gcounter_value :: "gcounter \<Rightarrow> u64" where
  "gcounter_value s = (\<Sum>k \<in> dom (gc_counters s). entry_or 0 (gc_counters s) k)"

definition gcounter_merge_loop :: "(string \<times> u64) list \<Rightarrow> gcounter \<Rightarrow> gcounter" where
  "gcounter_merge_loop items s =
     foldl (\<lambda>s (node, cnt).
        (let e = entry_or 0 (gc_counters s) node
         in s\<lparr>gc_counters := (gc_counters s)(node \<mapsto> max e cnt)\<rparr>)) s items"

definition max_join :: "(string \<rightharpoonup> u64) \<Rightarrow> (string \<rightharpoonup> u64) \<Rightarrow> string \<rightharpoonup> u64" where
  "max_join m m' = (\<lambda>k. case m' k of
     None \<Rightarrow> m k
   | Some c \<Rightarrow> Some (max (entry_or 0 m k) c))"

definition gcounter_merge :: "gcounter \<Rightarrow> gcounter \<Rightarrow> gcounter" where
  "gcounter_merge s other = s\<lparr>gc_counters := max_join (gc_counters s) (gc_counters other)\<rparr>"

section \<open>The increment and decrement counter\<close>

record pncounter =
  pn_p :: gcounter
  pn_n :: gcounter

definition pncounter_new :: "string \<Rightarrow> pncounter" where
  "pncounter_new node_id = \<lparr>pn_p = gcounter_new node_id, pn_n = gcounter_new node_id\<rparr>"

definition pncounter_increment :: "pncounter \<Rightarrow> pncounter" where
  "pncounter_increment s = s\<lparr>pn_p := gcounter_increment (pn_p s)\<rparr>"

definition pncounter_decrement :: "pncounter \<Rightarrow> pncounter" where
  "pncounter_decrement s = s\<lparr>pn_n := gcounter_increment (pn_n s)\<rparr>"

definition pncounter_value :: "pncounter \<Rightarrow> i64" where
  "pncounter_value s = gcounter_value (pn_p s) - gcounter_value (pn_n s)"

definition pncounter_merge :: "pncounter \<Rightarrow> pncounter \<Rightarrow> pncounter" where
  "pncounter_merge s other =
     \<lparr>pn_p = gcounter_merge (pn_p s) (pn_p other), pn_n = gcounter_merge (pn_n s) (pn_n other)\<rparr>"

section \<open>The observed-remove set\<close>

record orset =
  or_node_id :: string
  or_counter :: u64
  or_elements :: "string \<rightharpoonup> string set"

definition orset_new :: "string \<Rightarrow> orset" where
  "orset_new node_id = \<lparr>or_node_id = node_id, or_counter = 0, or_elements = Map.empty\<rparr>"

definition orset_add :: "string \<Rightarrow> orset \<Rightarrow> orset" where
  "orset_add item s =
     (let s = s\<lparr>or_counter := or_counter s + 1\<rparr>;
          tag = or_node_id s @ '':'' @ show_word (or_counter s)
      in s\<lparr>or_elements := (or_elements s)(item \<mapsto> insert tag (entry_or {} (or_elements s) item))\<rparr>)"

definition orset_remove :: "string \<Rightarrow> orset \<Rightarrow> orset" where
  "orset_remove item s =
     (case or_elements s item of
        Some tags \<Rightarrow> s\<lparr>or_elements := (or_elements s)(item \<mapsto> {})\<rparr>
      | None \<Rightarrow> s)"

definition orset_contains :: "string \<Rightarrow> orset \<Rightarrow> bool" where
  "orset_contains item s =
     (case or_elements s item of Some tags \<Rightarrow> tags \<noteq> {} | None \<Rightarrow> False)"

definition orset_values :: "(string \<times> string set) list \<Rightarrow> string list" where
  "orset_values items = sort (map fst (filter (\<lambda>(_, tags). tags \<noteq> {}) items))"

definition orset_merge_loop :: "(string \<times> string set) list \<Rightarrow> orset \<Rightarrow> orset" where
  "orset_merge_loop items s =
     foldl (\<lambda>s (item, tags).
        s\<lparr>or_elements := (or_elements s)(item \<mapsto> entry_or {} (or_elements s) item \<union> tags)\<rparr>) s items"

definition union_join :: "(string \<rightharpoonup> string set) \<Rightarrow> (string \<rightharpoonup> string set) \<Rightarrow> string \<rightharpoonup> string set" where
  "union_join m m' = (\<lambda>k. case m' k of
     None \<Rightarrow> m k
   | Some tags \<Rightarrow> Some (entry_or {} m k \<union> tags))"

definition orset_merge :: "orset \<Rightarrow> orset \<Rightarrow> orset" where
  "orset_merge s other = s\<lparr>or_elements := union_join (or_elements s) (or_elements other)\<rparr>"

section \<open>The loops have the effect of the joins\<close>

lemma gcounter_merge_loop_eq:
  assumes "iterates (gc_counters other) items"
  shows "gcounter_merge_loop items s = gcounter_merge s other"
proof -
  have "gcounter_merge_loop items s = s\<lparr>gc_counters := max_join (gc_counters s) (map_of items)\<rparr>"
    if "distinct (map fst items)" for items :: "(string \<times> u64) list" and s
    using that
  proof (induction items arbitrary: s)
    case Nil
    then show ?case by (simp add: gcounter_merge_loop_def max_join_def)
  next
    case (Cons x items)
    obtain k c where x: "x = (k, c)" by fastforce
    let ?s = "s\<lparr>gc_counters := (gc_counters s)(k \<mapsto> max (entry_or 0 (gc_counters s) k) c)\<rparr>"
    have "gcounter_merge_loop (x # items) s = gcounter_merge_loop items ?s"
      by (simp add: gcounter_merge_loop_def x Let_def)
    also have "\<dots> = ?s\<lparr>gc_counters := max_join (gc_counters ?s) (map_of items)\<rparr>"
      using Cons by (simp add: x)
    also have "max_join (gc_counters ?s) (map_of items) = max_join (gc_counters s) (map_of (x # items))"
    proof -
      have "map_of items k = None" using Cons.prems by (simp add: x map_of_eq_None_iff)
      then show ?thesis
        by (auto simp: max_join_def x fun_eq_iff entry_or_def split: option.splits)
    qed
    finally show ?case by (simp del: map_of.simps)
  qed
  from this [OF iteratesD(1) [OF assms]] show ?thesis
    by (simp add: gcounter_merge_def iteratesD(2) [OF assms])
qed

lemma orset_merge_loop_eq:
  assumes "iterates (or_elements other) items"
  shows "orset_merge_loop items s = orset_merge s other"
proof -
  have "orset_merge_loop items s = s\<lparr>or_elements := union_join (or_elements s) (map_of items)\<rparr>"
    if "distinct (map fst items)" for items :: "(string \<times> string set) list" and s
    using that
  proof (induction items arbitrary: s)
    case Nil
    then show ?case by (simp add: orset_merge_loop_def union_join_def)
  next
    case (Cons x items)
    obtain k c where x: "x = (k, c)" by fastforce
    let ?s = "s\<lparr>or_elements := (or_elements s)(k \<mapsto> entry_or {} (or_elements s) k \<union> c)\<rparr>"
    have "orset_merge_loop (x # items) s = orset_merge_loop items ?s"
      by (simp add: orset_merge_loop_def x Let_def)
    also have "\<dots> = ?s\<lparr>or_elements := union_join (or_elements ?s) (map_of items)\<rparr>"
      using Cons by (simp add: x)
    also have "union_join (or_elements ?s) (map_of items) = union_join (or_elements s) (map_of (x # items))"
    proof -
      have "map_of items k = None" using Cons.prems by (simp add: x map_of_eq_None_iff)
      then show ?thesis
        by (auto simp: union_join_def x fun_eq_iff entry_or_def split: option.splits)
    qed
    finally show ?case by (simp del: map_of.simps)
  qed
  from this [OF iteratesD(1) [OF assms]] show ?thesis
    by (simp add: orset_merge_def iteratesD(2) [OF assms])
qed

section \<open>Convergence\<close>

locale replicated =
  fixes content :: "'s \<Rightarrow> 'c"
    and merge :: "'s \<Rightarrow> 's \<Rightarrow> 's"
    and join :: "'c \<Rightarrow> 'c \<Rightarrow> 'c"
  assumes content_merge: "content (merge s t) = join (content s) (content t)"
    and join_comm: "join a b = join b a"
    and join_assoc: "join (join a b) c = join a (join b c)"
    and join_idem: "join a a = a"
begin

sublocale joined: semilattice_set join
  by unfold_locales (rule join_assoc join_comm join_idem)+

lemma content_merges: "content (foldl merge s ts) = fold join (map content ts) (content s)"
proof (induction ts arbitrary: s)
  case (Cons t ts)
  have "content (foldl merge s (t # ts)) = fold join (map content ts) (join (content s) (content t))"
    using Cons by (simp add: content_merge)
  then show ?case by (simp add: join_comm)
qed simp

lemma content_merges_set: "content (foldl merge s ts) = joined.F (insert (content s) (content ` set ts))"
  using joined.set_eq_fold [of "content s" "map content ts"] by (simp add: content_merges)

lemma converge:
  "content ` set (s # ts) = content ` set (s' # ts') \<Longrightarrow>
   content (foldl merge s ts) = content (foldl merge s' ts')"
  by (simp add: content_merges_set)

lemma merge_again: "content t \<in> content ` set (s # ts) \<Longrightarrow>
   content (merge (foldl merge s ts) t) = content (foldl merge s ts)"
  using converge [of s "ts @ [t]" s ts] by (auto simp: insert_absorb)

end

lemma entry_or_simps [simp]:
  "entry_or d Map.empty k = d" "entry_or d (m(k \<mapsto> v)) k' = (if k' = k then v else entry_or d m k')"
  by (simp_all add: entry_or_def)

lemma entry_or_max_join: "entry_or 0 (max_join m m') k = max (entry_or 0 m k) (entry_or 0 m' k)"
  by (auto simp: entry_or_def max_join_def split: option.splits)

lemma max_join_laws:
  "max_join a b = max_join b a" "max_join (max_join a b) c = max_join a (max_join b c)"
  "max_join a a = a"
  by (auto simp: max_join_def entry_or_def fun_eq_iff ac_simps split: option.splits)

lemma union_join_laws:
  "union_join a b = union_join b a" "union_join (union_join a b) c = union_join a (union_join b c)"
  "union_join a a = a"
  by (auto simp: union_join_def entry_or_def fun_eq_iff split: option.splits)

interpretation gcounter: replicated gc_counters gcounter_merge max_join
  by unfold_locales (simp add: gcounter_merge_def, (rule max_join_laws)+)

interpretation pncounter: replicated
  "\<lambda>s. (gc_counters (pn_p s), gc_counters (pn_n s))" pncounter_merge
  "\<lambda>(p, n) (p', n'). (max_join p p', max_join n n')"
proof unfold_locales
  show "(\<lambda>(p, n) (p', n'). (max_join p p', max_join n n')) a b =
      (\<lambda>(p, n) (p', n'). (max_join p p', max_join n n')) b a" for a b
    by (cases a; cases b) (simp add: max_join_laws(1))
  show "(\<lambda>(p, n) (p', n'). (max_join p p', max_join n n'))
        ((\<lambda>(p, n) (p', n'). (max_join p p', max_join n n')) a b) c =
      (\<lambda>(p, n) (p', n'). (max_join p p', max_join n n')) a
        ((\<lambda>(p, n) (p', n'). (max_join p p', max_join n n')) b c)" for a b c
    by (cases a; cases b; cases c) (simp add: max_join_laws(2))
qed (auto simp: pncounter_merge_def gcounter_merge_def max_join_laws(3))

interpretation orset: replicated or_elements orset_merge union_join
  by unfold_locales (simp add: orset_merge_def, (rule union_join_laws)+)

section \<open>Counting with any gossip\<close>

text \<open>Replicas that increment their own counter and merge each other's state in any order.\<close>

datatype gossip = Inc nat | Sync nat nat

fun gossip_step :: "gcounter list \<Rightarrow> gossip \<Rightarrow> gcounter list" where
  "gossip_step rs (Inc i) = rs[i := gcounter_increment (rs ! i)]"
| "gossip_step rs (Sync i j) = rs[i := gcounter_merge (rs ! i) (rs ! j)]"

fun gossip_ok :: "nat \<Rightarrow> gossip \<Rightarrow> bool" where
  "gossip_ok n (Inc i) = (i < n)"
| "gossip_ok n (Sync i j) = (i < n \<and> j < n)"

fun incs_of :: "nat \<Rightarrow> gossip list \<Rightarrow> nat" where
  "incs_of i [] = 0"
| "incs_of i (Inc j # gs) = (if i = j then 1 else 0) + incs_of i gs"
| "incs_of i (Sync j k # gs) = incs_of i gs"

fun incs :: "gossip list \<Rightarrow> nat" where
  "incs [] = 0"
| "incs (Inc j # gs) = 1 + incs gs"
| "incs (Sync j k # gs) = incs gs"

text \<open>What a replica knows of the node \<open>k\<close>.\<close>

abbreviation known :: "gcounter \<Rightarrow> string \<Rightarrow> nat" where
  "known s k \<equiv> unat (entry_or 0 (gc_counters s) k)"

definition gossip_inv :: "string list \<Rightarrow> (nat \<Rightarrow> nat) \<Rightarrow> gcounter list \<Rightarrow> bool" where
  "gossip_inv ids n rs \<longleftrightarrow>
     length rs = length ids \<and>
     (\<forall>i < length ids. gc_node_id (rs ! i) = ids ! i \<and> dom (gc_counters (rs ! i)) \<subseteq> set ids \<and>
        known (rs ! i) (ids ! i) = n i \<and> (\<forall>j < length ids. known (rs ! i) (ids ! j) \<le> n j))"

lemma known_merge: "known (gcounter_merge s t) k = max (known s k) (known t k)"
  by (auto simp: gcounter_merge_def entry_or_max_join max_def word_le_nat_alt)

lemma dom_merge: "dom (gc_counters (gcounter_merge s t)) = dom (gc_counters s) \<union> dom (gc_counters t)"
  by (auto simp: gcounter_merge_def max_join_def split: option.splits)

lemma gossip_inv_step:
  assumes "gossip_inv ids n rs" and "distinct ids" and "gossip_ok (length ids) g"
    and "\<forall>i < length ids. n i + incs_of i [g] < 2 ^ 64"
  shows "gossip_inv ids (\<lambda>i. n i + incs_of i [g]) (gossip_step rs g)"
proof (cases g)
  case (Inc i)
  with assms(3) have i: "i < length ids" by simp
  let ?s = "rs ! i"
  have s: "gc_node_id ?s = ids ! i" "known ?s (ids ! i) = n i" "dom (gc_counters ?s) \<subseteq> set ids"
    using assms(1) i by (auto simp: gossip_inv_def)
  have "n i + 1 < 2 ^ 64" using assms(4) i by (auto simp: Inc)
  then have "entry_or 0 (gc_counters ?s) (ids ! i) \<noteq> u64_max" using s(2) by auto
  then have known: "known (gcounter_increment ?s) k = (if k = ids ! i then n i + 1 else known ?s k)" for k
    using s(1,2) by (simp add: gcounter_increment_def unat_Suc_u64)
  have ids: "ids ! j = ids ! i \<longleftrightarrow> j = i" if "j < length ids" for j
    using assms(2) i that by (simp add: nth_eq_iff_index_eq)
  have "gc_node_id (gcounter_increment ?s) = ids ! i"
    "dom (gc_counters (gcounter_increment ?s)) \<subseteq> set ids"
    using s i by (simp_all add: gcounter_increment_def)
  with assms(1) i show ?thesis
    by (auto simp: gossip_inv_def Inc nth_list_update known ids le_SucI)
next
  case (Sync i j)
  with assms(1,3) show ?thesis
    by (auto simp: gossip_inv_def nth_list_update known_merge dom_merge)
       (auto simp: gcounter_merge_def)
qed

lemma incs_of_Cons: "incs_of i (g # gs) = incs_of i [g] + incs_of i gs"
  by (cases g) auto

lemma gossip_inv_run:
  assumes "gossip_inv ids n rs" and "distinct ids" and "\<forall>g \<in> set gs. gossip_ok (length ids) g"
    and "\<forall>i < length ids. n i + incs_of i gs < 2 ^ 64"
  shows "gossip_inv ids (\<lambda>i. n i + incs_of i gs) (foldl gossip_step rs gs)"
  using assms(1,3,4)
proof (induction gs arbitrary: n rs)
  case (Cons g gs)
  have "\<forall>i < length ids. n i + incs_of i [g] < 2 ^ 64"
    using Cons.prems(3) incs_of_Cons [of _ g gs] by fastforce
  then have "gossip_inv ids (\<lambda>i. n i + incs_of i [g]) (gossip_step rs g)"
    using Cons.prems(1,2) assms(2) by (intro gossip_inv_step) auto
  from Cons.IH [OF this] Cons.prems(2,3) show ?case
    by (simp add: incs_of_Cons [of _ g gs] add.assoc)
qed simp

lemma sum_incs_of:
  "\<forall>g \<in> set gs. gossip_ok n g \<Longrightarrow> (\<Sum>i < n. incs_of i gs) = incs gs"
proof (induction gs)
  case (Cons g gs)
  then show ?case by (cases g) (auto simp: sum.distrib)
qed simp

lemma gossip_inv_new: "gossip_inv ids (\<lambda>_. 0) (map gcounter_new ids)"
  by (simp add: gossip_inv_def gcounter_new_def)

lemma value_exact:
  assumes "dom (gc_counters s) \<subseteq> set ids" and "distinct ids"
    and "\<forall>i < length ids. known s (ids ! i) = n i"
  shows "gcounter_value s = of_nat (\<Sum>i < length ids. n i)"
proof -
  have "gcounter_value s = (\<Sum>k \<in> set ids. entry_or 0 (gc_counters s) k)"
    unfolding gcounter_value_def using assms(1)
    by (intro sum.mono_neutral_left) (auto simp: entry_or_def split: option.splits)
  also have "\<dots> = (\<Sum>i < length ids. entry_or 0 (gc_counters s) (ids ! i))"
    by (rule sum.reindex_bij_betw [symmetric]) (simp add: bij_betw_nth [OF assms(2)])
  also have "\<dots> = (\<Sum>i < length ids. of_nat (n i))"
  proof (rule sum.cong [OF refl])
    fix i assume "i \<in> {..<length ids}"
    with assms(3) have "n i = known s (ids ! i)" by simp
    then show "entry_or 0 (gc_counters s) (ids ! i) = of_nat (n i)" by simp
  qed
  finally show ?thesis by simp
qed

lemma known_merges_le:
  "\<forall>t \<in> set (s # ts). known t k \<le> b \<Longrightarrow> known (foldl gcounter_merge s ts) k \<le> b"
  by (induction ts arbitrary: s) (auto simp: known_merge)

lemma known_merges_ge:
  "t \<in> set (s # ts) \<Longrightarrow> known t k \<le> known (foldl gcounter_merge s ts) k"
proof (induction ts arbitrary: s t)
  case (Cons u ts)
  from Cons.prems consider "t = s" | "t = u" | "t \<in> set ts" by auto
  then show ?case
  proof cases
    case 3
    then show ?thesis using Cons.IH [of t "gcounter_merge s u"] by simp
  qed (use Cons.IH [of "gcounter_merge s u" "gcounter_merge s u"] in \<open>simp_all add: known_merge\<close>)
qed simp

lemma dom_merges:
  "dom (gc_counters (foldl gcounter_merge s ts)) = (\<Union>t \<in> set (s # ts). dom (gc_counters t))"
  by (induction ts arbitrary: s) (auto simp: dom_merge)

lemma full_sync_exact:
  assumes "gossip_inv ids n rs" and "distinct ids" and "i < length ids"
  shows "gcounter_value (foldl gcounter_merge (rs ! i) rs) = of_nat (\<Sum>j < length ids. n j)"
proof (rule value_exact [OF _ assms(2)])
  have mem: "set (rs ! i # rs) = set rs" "\<And>t. t \<in> set rs \<Longrightarrow> \<exists>j < length ids. t = rs ! j"
    using assms(1,3) by (auto simp: gossip_inv_def in_set_conv_nth insert_absorb)
  show "dom (gc_counters (foldl gcounter_merge (rs ! i) rs)) \<subseteq> set ids"
    unfolding dom_merges mem(1) using assms(1) mem(2) by (fastforce simp: gossip_inv_def)
  show "\<forall>j < length ids. known (foldl gcounter_merge (rs ! i) rs) (ids ! j) = n j"
  proof (intro allI impI antisym)
    fix j assume j: "j < length ids"
    show "known (foldl gcounter_merge (rs ! i) rs) (ids ! j) \<le> n j"
    proof (rule known_merges_le, unfold mem(1), intro ballI)
      fix t assume "t \<in> set rs"
      with mem(2) j assms(1) show "known t (ids ! j) \<le> n j" by (auto simp: gossip_inv_def)
    qed
    have "rs ! j \<in> set rs" "known (rs ! j) (ids ! j) = n j"
      using j assms(1) by (simp_all add: gossip_inv_def)
    with known_merges_ge [of "rs ! j" "rs ! i" rs "ids ! j"]
    show "n j \<le> known (foldl gcounter_merge (rs ! i) rs) (ids ! j)" by simp
  qed
qed

section \<open>The program of the demo\<close>

definition times :: "nat \<Rightarrow> ('a \<Rightarrow> 'a) \<Rightarrow> 'a \<Rightarrow> 'a" where
  "times n f x = (f ^^ n) x"

text \<open>The states at the assertions of \<open>main\<close>, part by part.\<close>

definition crdt_part1 :: "gcounter \<times> gcounter \<times> gcounter" where
  "crdt_part1 =
     (let a = times 5 gcounter_increment (gcounter_new ''dc-paris'');
          b = times 3 gcounter_increment (gcounter_new ''dc-london'');
          c = times 7 gcounter_increment (gcounter_new ''dc-warsaw'');
          a = gcounter_merge a b;
          a = gcounter_merge a c;
          b = gcounter_merge b a;
          c = gcounter_merge c a;
          c = gcounter_merge c b
      in (a, b, c))"

definition crdt_part2 :: "(gcounter \<times> gcounter) \<times> gcounter \<times> gcounter" where
  "crdt_part2 =
     (let g = gcounter_increment (gcounter_increment (gcounter_new ''x''));
          snapshot = g;
          g = gcounter_merge (gcounter_merge g snapshot) snapshot;
          h = gcounter_increment (gcounter_new ''q'');
          k = gcounter_increment (gcounter_increment (gcounter_new ''r''));
          g1 = gcounter_merge (gcounter_merge (gcounter_new ''p'') h) k;
          g2 = gcounter_merge (gcounter_merge (gcounter_new ''p'') k) h
      in ((g, snapshot), g1, g2))"

definition crdt_part3 :: "pncounter \<times> pncounter" where
  "crdt_part3 =
     (let s1 = times 10 pncounter_increment (pncounter_increment (pncounter_new ''entrepot-1''));
          s2 = times 4 pncounter_decrement (pncounter_new ''entrepot-2'');
          s1 = pncounter_merge s1 s2;
          s2 = pncounter_merge s2 s1
      in (s1, s2))"

definition crdt_part4 :: "orset \<times> orset" where
  "crdt_part4 =
     (let cart1 = orset_add ''souris'' (orset_add ''clavier'' (orset_new ''mobile''));
          cart2 = orset_merge (orset_new ''desktop'') cart1;
          cart1 = orset_remove ''souris'' cart1;
          cart2 = orset_add ''souris'' cart2;
          cart1 = orset_merge cart1 cart2;
          cart2 = orset_merge cart2 cart1
      in (cart1, cart2))"

definition crdt_asserts :: bool where
  "crdt_asserts \<longleftrightarrow>
     (let (a, b, c) = crdt_part1; ((g, snapshot), g1, g2) = crdt_part2; (s1, s2) = crdt_part3;
          (cart1, cart2) = crdt_part4
      in (gcounter_value a, gcounter_value b, gcounter_value c) = (15, 15, 15) \<and>
         g = snapshot \<and> gcounter_value g1 = gcounter_value g2 \<and>
         (pncounter_value s1, pncounter_value s2) = (7, 7) \<and>
         (orset_contains ''souris'' cart1 \<and> orset_contains ''souris'' cart2) \<and>
         or_elements cart1 = or_elements cart2)"

lemma max_join_update [simp]:
  "max_join m Map.empty = m"
  "max_join m (m'(k \<mapsto> v)) = (max_join m m')(k \<mapsto> max (entry_or 0 m k) v)"
  by (auto simp: max_join_def fun_eq_iff)

lemma union_join_update [simp]:
  "union_join m Map.empty = m"
  "union_join m (m'(k \<mapsto> v)) = (union_join m m')(k \<mapsto> entry_or {} m k \<union> v)"
  by (auto simp: union_join_def fun_eq_iff)

lemmas crdt_evals =
  times_def eval_nat_numeral gcounter_increment_def gcounter_new_def gcounter_merge_def
  pncounter_increment_def pncounter_decrement_def pncounter_new_def pncounter_merge_def Let_def

lemma crdt_part1_values:
  "(\<lambda>(a, b, c). (gcounter_value a, gcounter_value b, gcounter_value c)) crdt_part1 = (15, 15, 15)"
  by (simp add: crdt_part1_def crdt_evals gcounter_value_def)

lemma crdt_part2_values:
  "(\<lambda>((g, snapshot), g1, g2). g = snapshot \<and> gcounter_value g1 = gcounter_value g2) crdt_part2"
  by (simp add: crdt_part2_def crdt_evals gcounter_value_def)

lemma crdt_part3_values: "(\<lambda>(a, b). (pncounter_value a, pncounter_value b)) crdt_part3 = (7, 7)"
  by (simp add: crdt_part3_def crdt_evals gcounter_value_def pncounter_value_def)

lemma crdt_part4_values:
  "(\<lambda>(a, b). orset_contains ''souris'' a \<and> orset_contains ''souris'' b \<and> or_elements a = or_elements b) crdt_part4"
  by (simp add: crdt_part4_def orset_new_def orset_add_def orset_remove_def orset_merge_def orset_contains_def
      show_nat.simps Let_def fun_eq_iff)

section \<open>Properties\<close>

text \<open>A grow-only counter counts exactly: after any number of increments and merges, in any order
  and between any replicas with distinct names, a replica that has merged the current state of
  all replicas holds the total number of increments. The bound says that no single counter
  wraps.\<close>

theorem gcounter_exact:
  assumes "distinct ids" and "\<forall>g \<in> set gs. gossip_ok (length ids) g" and "i < length ids"
    and "incs gs < 2 ^ 64"
  defines "rs \<equiv> foldl gossip_step (map gcounter_new ids) gs"
  shows "gcounter_value (foldl gcounter_merge (rs ! i) rs) = of_nat (incs gs)"
proof -
  note total = sum_incs_of [OF assms(2)]
  have "incs_of j gs \<le> incs gs" if "j < length ids" for j
    unfolding total [symmetric] using that by (intro member_le_sum) auto
  then have "gossip_inv ids (\<lambda>i. 0 + incs_of i gs) rs"
    unfolding rs_def using assms(4)
    by (intro gossip_inv_run [OF gossip_inv_new assms(1,2)]) (auto intro: le_less_trans)
  from full_sync_exact [OF this assms(1,3)] show ?thesis by (simp add: total)
qed

theorem gcounter_exact_witness:
  "gcounter_value (foldl gcounter_merge
     (foldl gossip_step (map gcounter_new [''p'', ''q'']) [Inc 0, Sync 1 0, Inc 1, Inc 0] ! 1)
     (foldl gossip_step (map gcounter_new [''p'', ''q'']) [Inc 0, Sync 1 0, Inc 1, Inc 0])) = 3"
  by (subst gcounter_exact) simp_all

text \<open>C31. Strong convergence of the three types: replicas that have merged the same states, in any
  order and any number of times, agree: the counters on their value, the sets on what they
  contain.\<close>

theorem crdt_converge:
  "(gc_counters ` set (a # as) = gc_counters ` set (b # bs) \<longrightarrow>
      gcounter_value (foldl gcounter_merge a as) = gcounter_value (foldl gcounter_merge b bs)) \<and>
   ((\<lambda>s. (gc_counters (pn_p s), gc_counters (pn_n s))) ` set (p # ps) =
      (\<lambda>s. (gc_counters (pn_p s), gc_counters (pn_n s))) ` set (q # qs) \<longrightarrow>
      pncounter_value (foldl pncounter_merge p ps) = pncounter_value (foldl pncounter_merge q qs)) \<and>
   (or_elements ` set (x # xs) = or_elements ` set (y # ys) \<longrightarrow>
      orset_contains item (foldl orset_merge x xs) = orset_contains item (foldl orset_merge y ys))"
  using gcounter.converge [of a as b bs] pncounter.converge [of p ps q qs] orset.converge [of x xs y ys]
  by (simp add: gcounter_value_def pncounter_value_def orset_contains_def del: set_simps)

theorem crdt_converge_witness:
  "gcounter_value (foldl gcounter_merge (gcounter_increment (gcounter_new ''q'')) [gcounter_increment (gcounter_new ''r'')]) =
   gcounter_value (foldl gcounter_merge (gcounter_increment (gcounter_new ''r''))
     [gcounter_increment (gcounter_new ''q''), gcounter_increment (gcounter_new ''r'')])"
  by (rule crdt_converge [THEN conjunct1, THEN mp]) auto

text \<open>C32. The observed-remove set: an addition is never lost by a merge, on either side, so an add
  concurrent with a remove wins; but a removal is: the set keeps no trace of removed tags, and
  merging any replica that still contains the element brings it back, whether or not it was added
  again.\<close>

theorem orset_add_wins_remove_forgotten:
  "orset_contains item (orset_merge s (orset_add item t)) \<and>
   orset_contains item (orset_merge (orset_add item t) s) \<and>
   orset_contains item (orset_merge (orset_remove item s) t) = orset_contains item t \<and>
   \<not> orset_contains item (orset_remove item s)"
  by (auto simp: orset_contains_def orset_merge_def orset_add_def orset_remove_def union_join_def
      entry_or_def Let_def split: option.splits)

text \<open>The assertions of the demo's \<open>main\<close> hold: the three counters end at 15, merging twice changes
  nothing, the merge order does not matter, the stock is 7 on both sides and the two carts agree
  and contain the mouse.\<close>

theorem crdt_main_asserts: "crdt_asserts"
  using crdt_part1_values crdt_part2_values crdt_part3_values crdt_part4_values
  by (simp add: crdt_asserts_def split_def Let_def)

end
