(* ===== verification/Raft.thy ===== *)
theory Raft
  imports Prelude
begin

text \<open>
  The simplified Raft of \<open>demos/src/bin/demo_3_3c_raft.rs\<close>: elections and log replication in one
  process. The cluster is the vector of nodes; an index out of range is the panic of the source,
  \<open>None\<close>. The loops over the other nodes are folds with the code's accumulators.

  \<open>raft_event\<close> adds what \<open>main\<close> does from outside: taking nodes down and bringing them back.
\<close>

section \<open>State\<close>

datatype role = Follower | Candidate | Leader

record log_entry =
  le_term :: u64
  le_command :: string

record raft_node =
  rn_id :: usize
  rn_role :: role
  rn_current_term :: u64
  rn_voted_for :: "usize option"
  rn_log :: "log_entry list"
  rn_commit_index :: usize
  rn_alive :: bool

type_synonym raft = "raft_node list"

definition raft_node_new :: "usize \<Rightarrow> raft_node" where
  "raft_node_new i =
     \<lparr>rn_id = i, rn_role = Follower, rn_current_term = 0, rn_voted_for = None, rn_log = [],
      rn_commit_index = 0, rn_alive = True\<rparr>"

definition raft_new :: "usize \<Rightarrow> raft" where
  "raft_new n = map raft_node_new [0..<n]"

definition quorum :: "raft \<Rightarrow> usize" where
  "quorum nodes = length nodes div 2 + 1"

definition alive_ids :: "raft \<Rightarrow> usize list" where
  "alive_ids nodes = map rn_id (filter rn_alive nodes)"

section \<open>Election\<close>

definition last_term :: "log_entry list \<Rightarrow> u64" where
  "last_term l = (if l = [] then 0 else le_term (last l))"

text \<open>The condition under which a voter that is alive grants its vote.\<close>

definition grants :: "u64 \<Rightarrow> u64 \<Rightarrow> usize \<Rightarrow> raft_node \<Rightarrow> bool" where
  "grants new_term last_log_term last_log_len voter =
     (let voter_last_term = last_term (rn_log voter);
          log_ok = (last_log_term > voter_last_term \<or>
                    last_log_term = voter_last_term \<and> last_log_len \<ge> length (rn_log voter))
      in new_term > rn_current_term voter \<and> log_ok)"

definition cast_vote :: "usize \<Rightarrow> u64 \<Rightarrow> raft_node \<Rightarrow> raft_node" where
  "cast_vote candidate_id new_term voter =
     voter\<lparr>rn_current_term := new_term, rn_voted_for := Some candidate_id, rn_role := Follower\<rparr>"

fun request_votes ::
  "usize \<Rightarrow> u64 \<Rightarrow> u64 \<Rightarrow> usize \<Rightarrow> usize list \<Rightarrow> raft \<Rightarrow> usize \<Rightarrow> raft \<times> usize" where
  "request_votes cand new_term lt ln [] nodes votes = (nodes, votes)"
| "request_votes cand new_term lt ln (voter_id # ids) nodes votes =
     (let voter = nodes ! voter_id in
      if \<not> rn_alive voter then request_votes cand new_term lt ln ids nodes votes
      else if grants new_term lt ln voter then
        request_votes cand new_term lt ln ids (nodes[voter_id := cast_vote cand new_term voter]) (votes + 1)
      else request_votes cand new_term lt ln ids nodes votes)"

definition run_election :: "usize \<Rightarrow> raft \<Rightarrow> (bool \<times> raft) option" where
  "run_election cand nodes =
     (if cand \<ge> length nodes then None
      else if \<not> rn_alive (nodes ! cand) then Some (False, nodes)
      else
        (let c = nodes ! cand;
             c = c\<lparr>rn_current_term := rn_current_term c + 1, rn_role := Candidate, rn_voted_for := Some cand\<rparr>;
             nodes = nodes[cand := c];
             new_term = rn_current_term c;
             votes = 1;
             last_log_term = last_term (rn_log (nodes ! cand));
             last_log_len = length (rn_log (nodes ! cand));
             other_ids = filter (\<lambda>i. i \<noteq> cand) [0..<length nodes];
             (nodes, votes) = request_votes cand new_term last_log_term last_log_len other_ids nodes votes;
             q = quorum nodes
         in if votes \<ge> q then
              (let nodes = nodes[cand := (nodes ! cand)\<lparr>rn_role := Leader\<rparr>];
                   nodes = map (\<lambda>n. if rn_id n \<noteq> cand \<and> rn_alive n then n\<lparr>rn_role := Follower\<rparr> else n) nodes
               in Some (True, nodes))
            else Some (False, nodes[cand := (nodes ! cand)\<lparr>rn_role := Follower\<rparr>])))"

definition leader :: "raft \<Rightarrow> usize option" where
  "leader nodes = map_option rn_id (List.find (\<lambda>n. rn_role n = Leader \<and> rn_alive n) nodes)"

section \<open>Log replication\<close>

fun append_entries :: "log_entry \<Rightarrow> usize list \<Rightarrow> raft \<Rightarrow> usize \<Rightarrow> raft \<times> usize" where
  "append_entries entry [] nodes replicated = (nodes, replicated)"
| "append_entries entry (fid # ids) nodes replicated =
     (let f = nodes ! fid in
      if \<not> rn_alive f then append_entries entry ids nodes replicated
      else append_entries entry ids (nodes[fid := f\<lparr>rn_log := rn_log f @ [entry]\<rparr>]) (replicated + 1))"

definition client_request :: "string \<Rightarrow> raft \<Rightarrow> bool \<times> raft" where
  "client_request command nodes =
     (case leader nodes of
        None \<Rightarrow> (False, nodes)
      | Some leader_id \<Rightarrow>
          (let term = rn_current_term (nodes ! leader_id);
               entry = \<lparr>le_term = term, le_command = command\<rparr>;
               nodes = nodes[leader_id := (nodes ! leader_id)
                              \<lparr>rn_log := rn_log (nodes ! leader_id) @ [entry]\<rparr>];
               target_index = length (rn_log (nodes ! leader_id));
               replicated = 1;
               other_ids = filter (\<lambda>i. i \<noteq> leader_id) [0..<length nodes];
               (nodes, replicated) = append_entries entry other_ids nodes replicated;
               q = quorum nodes
           in if replicated \<ge> q then
                (True, map (\<lambda>n. if rn_alive n \<and> length (rn_log n) \<ge> target_index
                                then n\<lparr>rn_commit_index := max (rn_commit_index n) target_index\<rparr>
                                else n) nodes)
              else (False, nodes)))"

section \<open>Events\<close>

datatype raft_event = Election usize | Request string | Crash usize | Revive usize

definition set_alive :: "usize \<Rightarrow> bool \<Rightarrow> raft \<Rightarrow> raft option" where
  "set_alive i b nodes =
     (if i < length nodes then Some (nodes[i := (nodes ! i)\<lparr>rn_alive := b\<rparr>]) else None)"

fun raft_step :: "raft_event \<Rightarrow> raft \<Rightarrow> (bool \<times> raft) option" where
  "raft_step (Election i) nodes = run_election i nodes"
| "raft_step (Request cmd) nodes = Some (client_request cmd nodes)"
| "raft_step (Crash i) nodes = map_option (Pair True) (set_alive i False nodes)"
| "raft_step (Revive i) nodes = map_option (Pair True) (set_alive i True nodes)"

text \<open>The results of a run, or \<open>None\<close> if it panics.\<close>

fun raft_run :: "raft_event list \<Rightarrow> raft \<Rightarrow> (bool list \<times> raft) option" where
  "raft_run [] nodes = Some ([], nodes)"
| "raft_run (e # es) nodes =
     (case raft_step e nodes of
        None \<Rightarrow> None
      | Some (b, nodes) \<Rightarrow>
          (case raft_run es nodes of None \<Rightarrow> None | Some (bs, nodes) \<Rightarrow> Some (b # bs, nodes)))"

text \<open>The terms in which elections succeed, in order.\<close>

fun won_terms :: "raft_event list \<Rightarrow> raft \<Rightarrow> u64 list" where
  "won_terms [] nodes = []"
| "won_terms (e # es) nodes =
     (case raft_step e nodes of
        None \<Rightarrow> []
      | Some (b, nodes') \<Rightarrow>
          (case e of
             Election i \<Rightarrow> (if b then [rn_current_term (nodes' ! i)] else []) @ won_terms es nodes'
           | _ \<Rightarrow> won_terms es nodes'))"

section \<open>The loops\<close>

lemma request_votes_eq:
  assumes "distinct ids" and "\<forall>i \<in> set ids. i < length nodes"
  shows "request_votes cand t lt ln ids nodes votes =
    (map (\<lambda>i. if i \<in> set ids \<and> rn_alive (nodes ! i) \<and> grants t lt ln (nodes ! i)
              then cast_vote cand t (nodes ! i) else nodes ! i) [0..<length nodes],
     votes + length (filter (\<lambda>i. rn_alive (nodes ! i) \<and> grants t lt ln (nodes ! i)) ids))"
  using assms
proof (induction ids arbitrary: nodes votes)
  case Nil
  then show ?case by (simp add: map_nth)
next
  case (Cons j ids)
  show ?case
  proof (cases "rn_alive (nodes ! j) \<and> grants t lt ln (nodes ! j)")
    case True
    let ?nodes = "nodes[j := cast_vote cand t (nodes ! j)]"
    have same: "?nodes ! i = nodes ! i" if "i \<in> set ids" for i
      using that Cons.prems(1) by (intro nth_list_update_neq) auto
    have "filter (\<lambda>i. rn_alive (?nodes ! i) \<and> grants t lt ln (?nodes ! i)) ids =
        filter (\<lambda>i. rn_alive (nodes ! i) \<and> grants t lt ln (nodes ! i)) ids"
      by (rule filter_cong [OF refl]) (simp add: same)
    moreover have "map (\<lambda>i. if i \<in> set ids \<and> rn_alive (?nodes ! i) \<and> grants t lt ln (?nodes ! i)
          then cast_vote cand t (?nodes ! i) else ?nodes ! i) [0..<length nodes] =
        map (\<lambda>i. if i \<in> set (j # ids) \<and> rn_alive (nodes ! i) \<and> grants t lt ln (nodes ! i)
          then cast_vote cand t (nodes ! i) else nodes ! i) [0..<length nodes]"
      using True Cons.prems by (intro map_cong refl) (auto simp: same nth_list_update)
    ultimately show ?thesis
      using Cons.IH [of ?nodes "votes + 1"] Cons.prems True by (simp add: Let_def)
  next
    case False
    have "map (\<lambda>i. if i \<in> set ids \<and> rn_alive (nodes ! i) \<and> grants t lt ln (nodes ! i)
          then cast_vote cand t (nodes ! i) else nodes ! i) [0..<length nodes] =
        map (\<lambda>i. if i \<in> set (j # ids) \<and> rn_alive (nodes ! i) \<and> grants t lt ln (nodes ! i)
          then cast_vote cand t (nodes ! i) else nodes ! i) [0..<length nodes]"
      using False by (intro map_cong refl) auto
    then show ?thesis
      using Cons.IH [of nodes votes] Cons.prems False by (auto simp: Let_def)
  qed
qed

lemma append_entries_eq:
  assumes "distinct ids" and "\<forall>i \<in> set ids. i < length nodes"
  shows "append_entries entry ids nodes replicated =
    (map (\<lambda>i. if i \<in> set ids \<and> rn_alive (nodes ! i)
              then (nodes ! i)\<lparr>rn_log := rn_log (nodes ! i) @ [entry]\<rparr> else nodes ! i) [0..<length nodes],
     replicated + length (filter (\<lambda>i. rn_alive (nodes ! i)) ids))"
  using assms
proof (induction ids arbitrary: nodes replicated)
  case Nil
  then show ?case by (simp add: map_nth)
next
  case (Cons j ids)
  show ?case
  proof (cases "rn_alive (nodes ! j)")
    case True
    let ?nodes = "nodes[j := (nodes ! j)\<lparr>rn_log := rn_log (nodes ! j) @ [entry]\<rparr>]"
    have same: "?nodes ! i = nodes ! i" if "i \<in> set ids" for i
      using that Cons.prems(1) by (intro nth_list_update_neq) auto
    have "filter (\<lambda>i. rn_alive (?nodes ! i)) ids = filter (\<lambda>i. rn_alive (nodes ! i)) ids"
      by (rule filter_cong [OF refl]) (simp add: same)
    moreover have "map (\<lambda>i. if i \<in> set ids \<and> rn_alive (?nodes ! i)
          then (?nodes ! i)\<lparr>rn_log := rn_log (?nodes ! i) @ [entry]\<rparr> else ?nodes ! i) [0..<length nodes] =
        map (\<lambda>i. if i \<in> set (j # ids) \<and> rn_alive (nodes ! i)
          then (nodes ! i)\<lparr>rn_log := rn_log (nodes ! i) @ [entry]\<rparr> else nodes ! i) [0..<length nodes]"
      using True Cons.prems by (intro map_cong refl) (auto simp: same nth_list_update)
    ultimately show ?thesis
      using Cons.IH [of ?nodes "replicated + 1"] Cons.prems True by (simp add: Let_def)
  next
    case False
    have "map (\<lambda>i. if i \<in> set ids \<and> rn_alive (nodes ! i)
          then (nodes ! i)\<lparr>rn_log := rn_log (nodes ! i) @ [entry]\<rparr> else nodes ! i) [0..<length nodes] =
        map (\<lambda>i. if i \<in> set (j # ids) \<and> rn_alive (nodes ! i)
          then (nodes ! i)\<lparr>rn_log := rn_log (nodes ! i) @ [entry]\<rparr> else nodes ! i) [0..<length nodes]"
      using False by (intro map_cong refl) auto
    then show ?thesis
      using Cons.IH [of nodes replicated] Cons.prems False by (auto simp: Let_def)
  qed
qed

section \<open>Effects of the events\<close>

definition raft_ids :: "raft \<Rightarrow> bool" where
  "raft_ids nodes \<longleftrightarrow> (\<forall>i < length nodes. rn_id (nodes ! i) = i)"

text \<open>What every event leaves alone, and the terms that never decrease.\<close>

definition raft_frame :: "raft \<Rightarrow> raft \<Rightarrow> bool" where
  "raft_frame nodes nodes' \<longleftrightarrow>
     length nodes' = length nodes \<and>
     (\<forall>i < length nodes. rn_id (nodes' ! i) = rn_id (nodes ! i) \<and>
        rn_current_term (nodes ! i) \<le> rn_current_term (nodes' ! i))"

lemma raft_frame_refl: "raft_frame nodes nodes"
  by (simp add: raft_frame_def)

definition others :: "usize \<Rightarrow> raft \<Rightarrow> usize list" where
  "others i nodes = filter (\<lambda>j. j \<noteq> i) [0..<length nodes]"

text \<open>The nodes and the votes after the loop of an election.\<close>

definition candidacy :: "usize \<Rightarrow> raft \<Rightarrow> raft_node" where
  "candidacy cand nodes =
     (nodes ! cand)\<lparr>rn_current_term := rn_current_term (nodes ! cand) + 1, rn_role := Candidate,
                   rn_voted_for := Some cand\<rparr>"

definition voters :: "usize \<Rightarrow> raft \<Rightarrow> usize list" where
  "voters cand nodes =
     filter (\<lambda>i. rn_alive (nodes ! i) \<and>
        grants (rn_current_term (nodes ! cand) + 1) (last_term (rn_log (nodes ! cand)))
          (length (rn_log (nodes ! cand))) (nodes ! i)) (others cand nodes)"

definition after_votes :: "usize \<Rightarrow> raft \<Rightarrow> raft" where
  "after_votes cand nodes =
     map (\<lambda>i. if i = cand then candidacy cand nodes
              else if i \<in> set (voters cand nodes)
                then cast_vote cand (rn_current_term (nodes ! cand) + 1) (nodes ! i)
              else nodes ! i) [0..<length nodes]"

lemma run_election_eq:
  assumes "cand < length nodes" and "rn_alive (nodes ! cand)"
  shows "run_election cand nodes =
    (let nodes2 = after_votes cand nodes in
     if 1 + length (voters cand nodes) \<ge> quorum nodes then
       Some (True, map (\<lambda>n. if rn_id n \<noteq> cand \<and> rn_alive n then n\<lparr>rn_role := Follower\<rparr> else n)
         (nodes2[cand := (nodes2 ! cand)\<lparr>rn_role := Leader\<rparr>]))
     else Some (False, nodes2[cand := (nodes2 ! cand)\<lparr>rn_role := Follower\<rparr>]))"
proof -
  let ?c = "candidacy cand nodes" and ?t = "rn_current_term (nodes ! cand) + 1"
    and ?lt = "last_term (rn_log (nodes ! cand))" and ?ln = "length (rn_log (nodes ! cand))"
  let ?nodes = "nodes[cand := ?c]"
  have ids: "distinct (others cand nodes)" "\<forall>i \<in> set (others cand nodes). i < length ?nodes"
    by (auto simp: others_def)
  have same: "?nodes ! i = nodes ! i" if "i \<in> set (others cand nodes)" for i
    using that by (auto simp: others_def)
  have f: "filter (\<lambda>i. rn_alive (?nodes ! i) \<and> grants ?t ?lt ?ln (?nodes ! i)) (others cand nodes) =
      voters cand nodes"
    unfolding voters_def by (rule filter_cong [OF refl]) (simp add: same)
  have m: "map (\<lambda>i. if i \<in> set (others cand nodes) \<and> rn_alive (?nodes ! i) \<and> grants ?t ?lt ?ln (?nodes ! i)
      then cast_vote cand ?t (?nodes ! i) else ?nodes ! i) [0..<length ?nodes] = after_votes cand nodes"
    unfolding after_votes_def using assms(1)
    by (intro map_cong) (auto simp: voters_def others_def)
  have "request_votes cand ?t ?lt ?ln (others cand nodes) ?nodes 1 =
      (after_votes cand nodes, 1 + length (voters cand nodes))"
    using request_votes_eq [OF ids, of cand ?t ?lt ?ln 1] by (simp only: f m)
  moreover have "quorum (after_votes cand nodes) = quorum nodes"
    by (simp add: quorum_def after_votes_def)
  ultimately show ?thesis
    using assms
    by (simp add: run_election_def Let_def others_def candidacy_def)
qed

lemma election_frame:
  assumes "run_election cand nodes = Some (b, nodes')" and "raft_ids nodes"
    and "rn_current_term (nodes ! cand) \<noteq> u64_max"
  shows "raft_frame nodes nodes'"
    and "\<forall>i < length nodes. rn_log (nodes' ! i) = rn_log (nodes ! i) \<and>
      rn_commit_index (nodes' ! i) = rn_commit_index (nodes ! i) \<and> rn_alive (nodes' ! i) = rn_alive (nodes ! i)"
    and "b \<Longrightarrow> \<exists>T. finite T \<and> T \<subseteq> {0..<length nodes} \<and> quorum nodes \<le> card T \<and>
      (\<forall>i \<in> T. rn_current_term (nodes ! i) < rn_current_term (nodes' ! cand) \<and>
               rn_current_term (nodes' ! i) = rn_current_term (nodes' ! cand))"
proof -
  have lt: "cand < length nodes" using assms(1) by (auto simp: run_election_def split: if_splits)
  have inc: "rn_current_term (nodes ! cand) < rn_current_term (nodes ! cand) + 1"
    using assms(3) by (simp add: word_less_nat_alt unat_Suc_u64)
  have frame: "raft_frame nodes nodes' \<and>
    (\<forall>i < length nodes. rn_log (nodes' ! i) = rn_log (nodes ! i) \<and>
      rn_commit_index (nodes' ! i) = rn_commit_index (nodes ! i) \<and> rn_alive (nodes' ! i) = rn_alive (nodes ! i)) \<and>
    (b \<longrightarrow> (\<exists>T. finite T \<and> T \<subseteq> {0..<length nodes} \<and> quorum nodes \<le> card T \<and>
      (\<forall>i \<in> T. rn_current_term (nodes ! i) < rn_current_term (nodes' ! cand) \<and>
               rn_current_term (nodes' ! i) = rn_current_term (nodes' ! cand))))"
  proof (cases "rn_alive (nodes ! cand)")
    case False
    with assms(1) lt show ?thesis by (auto simp: run_election_def raft_frame_def)
  next
    case True
    have votes: "\<forall>i \<in> set (voters cand nodes). i < length nodes \<and> i \<noteq> cand \<and>
        rn_current_term (nodes ! i) < rn_current_term (nodes ! cand) + 1"
      by (auto simp: voters_def others_def grants_def Let_def)
    have d: "distinct (voters cand nodes)" by (simp add: voters_def others_def)
    have after: "length (after_votes cand nodes) = length nodes"
      "\<And>i. i < length nodes \<Longrightarrow> after_votes cand nodes ! i =
        (if i = cand then candidacy cand nodes
         else if i \<in> set (voters cand nodes)
           then cast_vote cand (rn_current_term (nodes ! cand) + 1) (nodes ! i) else nodes ! i)"
      by (simp_all add: after_votes_def)
    note eq = assms(1) [unfolded run_election_eq [OF lt True] Let_def]
    have "raft_frame nodes nodes'"
      using eq votes inc lt
      by (auto simp: raft_frame_def after candidacy_def cast_vote_def nth_list_update less_imp_le split: if_splits)
    moreover have "\<forall>i < length nodes. rn_log (nodes' ! i) = rn_log (nodes ! i) \<and>
        rn_commit_index (nodes' ! i) = rn_commit_index (nodes ! i) \<and> rn_alive (nodes' ! i) = rn_alive (nodes ! i)"
      using eq lt
      by (auto simp: after candidacy_def cast_vote_def nth_list_update split: if_splits)
    moreover have "\<exists>T. finite T \<and> T \<subseteq> {0..<length nodes} \<and> quorum nodes \<le> card T \<and>
      (\<forall>i \<in> T. rn_current_term (nodes ! i) < rn_current_term (nodes' ! cand) \<and>
               rn_current_term (nodes' ! i) = rn_current_term (nodes' ! cand))" if b
    proof (intro exI conjI)
      let ?T = "set (cand # voters cand nodes)"
      show "finite ?T" "?T \<subseteq> {0..<length nodes}" using votes lt by auto
      have "card ?T = 1 + length (voters cand nodes)"
        using votes d by (subst distinct_card) auto
      then show "quorum nodes \<le> card ?T" using eq that by (simp split: if_splits)
      show "\<forall>i \<in> ?T. rn_current_term (nodes ! i) < rn_current_term (nodes' ! cand) \<and>
          rn_current_term (nodes' ! i) = rn_current_term (nodes' ! cand)"
        using eq that votes inc lt
        by (auto simp: after candidacy_def cast_vote_def nth_list_update split: if_splits)
    qed
    ultimately show ?thesis by blast
  qed
  then show "raft_frame nodes nodes'" "\<forall>i < length nodes. rn_log (nodes' ! i) = rn_log (nodes ! i) \<and>
      rn_commit_index (nodes' ! i) = rn_commit_index (nodes ! i) \<and> rn_alive (nodes' ! i) = rn_alive (nodes ! i)"
    "b \<Longrightarrow> \<exists>T. finite T \<and> T \<subseteq> {0..<length nodes} \<and> quorum nodes \<le> card T \<and>
      (\<forall>i \<in> T. rn_current_term (nodes ! i) < rn_current_term (nodes' ! cand) \<and>
               rn_current_term (nodes' ! i) = rn_current_term (nodes' ! cand))" by blast+
qed

lemma election_term:
  assumes "run_election cand nodes = Some (b, nodes')" and "i < length nodes"
  shows "rn_current_term (nodes' ! i) \<in>
    {rn_current_term (nodes ! i), rn_current_term (nodes ! cand) + 1}"
proof -
  have lt: "cand < length nodes" using assms(1) by (auto simp: run_election_def split: if_splits)
  show ?thesis
  proof (cases "rn_alive (nodes ! cand)")
    case False
    with assms(1) lt show ?thesis by (auto simp: run_election_def)
  next
    case True
    from assms(1) [unfolded run_election_eq [OF lt True] Let_def] assms(2) lt show ?thesis
      by (auto simp: after_votes_def candidacy_def cast_vote_def nth_list_update split: if_splits)
  qed
qed

lemma leader_Some:
  assumes "leader nodes = Some l" and "raft_ids nodes"
  shows "l < length nodes \<and> rn_alive (nodes ! l) \<and> rn_role (nodes ! l) = Leader"
  using assms by (auto simp: leader_def raft_ids_def find_Some_iff)

definition append_log :: "log_entry \<Rightarrow> raft_node \<Rightarrow> raft_node" where
  "append_log entry n = n\<lparr>rn_log := rn_log n @ [entry]\<rparr>"

definition advance_commit :: "usize \<Rightarrow> raft_node \<Rightarrow> raft_node" where
  "advance_commit target n =
     (if rn_alive n \<and> length (rn_log n) \<ge> target
      then n\<lparr>rn_commit_index := max (rn_commit_index n) target\<rparr> else n)"

definition entry_of :: "usize \<Rightarrow> string \<Rightarrow> raft \<Rightarrow> log_entry" where
  "entry_of l cmd nodes = \<lparr>le_term = rn_current_term (nodes ! l), le_command = cmd\<rparr>"

definition append_alive :: "log_entry \<Rightarrow> raft \<Rightarrow> raft" where
  "append_alive entry nodes = map (\<lambda>n. if rn_alive n then append_log entry n else n) nodes"

lemma client_request_eq:
  assumes "leader nodes = Some l" and "raft_ids nodes"
  shows "client_request cmd nodes =
    (if quorum nodes \<le> length (filter rn_alive nodes)
     then (True, map (advance_commit (length (rn_log (nodes ! l)) + 1)) (append_alive (entry_of l cmd nodes) nodes))
     else (False, append_alive (entry_of l cmd nodes) nodes))"
proof -
  let ?entry = "entry_of l cmd nodes"
  note l = leader_Some [OF assms(1,2)]
  let ?nodes = "nodes[l := append_log ?entry (nodes ! l)]"
  have ids: "distinct (others l nodes)" "\<forall>i \<in> set (others l nodes). i < length ?nodes"
    by (auto simp: others_def)
  have same: "?nodes ! i = nodes ! i" if "i \<in> set (others l nodes)" for i
    using that by (auto simp: others_def)
  have m: "map (\<lambda>i. if i \<in> set (others l nodes) \<and> rn_alive (?nodes ! i)
      then (?nodes ! i)\<lparr>rn_log := rn_log (?nodes ! i) @ [?entry]\<rparr> else ?nodes ! i) [0..<length ?nodes] = append_alive ?entry nodes"
    unfolding append_alive_def using l
    by (intro nth_equalityI) (auto simp: others_def append_log_def nth_list_update)
  have "length (filter rn_alive nodes) = card {i. i < length nodes \<and> rn_alive (nodes ! i)}"
    by (rule length_filter_conv_card)
  also have "{i. i < length nodes \<and> rn_alive (nodes ! i)} =
      insert l (set (filter (\<lambda>i. rn_alive (?nodes ! i)) (others l nodes)))"
    using l by (auto simp: others_def)
  also have "card \<dots> = 1 + length (filter (\<lambda>i. rn_alive (?nodes ! i)) (others l nodes))"
  proof -
    have "distinct (filter (\<lambda>i. rn_alive (?nodes ! i)) (others l nodes))" using ids(1) by simp
    moreover have "l \<notin> set (filter (\<lambda>i. rn_alive (?nodes ! i)) (others l nodes))"
      by (simp add: others_def)
    ultimately show ?thesis
      by (metis List.finite_set card_insert_disjoint distinct_card plus_1_eq_Suc)
  qed
  finally have k: "1 + length (filter (\<lambda>i. rn_alive (?nodes ! i)) (others l nodes)) =
      length (filter rn_alive nodes)" ..
  have "append_entries ?entry (others l nodes) ?nodes 1 = (append_alive ?entry nodes, length (filter rn_alive nodes))"
    using append_entries_eq [OF ids, of ?entry 1] by (simp only: m k)
  moreover have "quorum (append_alive ?entry nodes) = quorum nodes" by (simp add: quorum_def append_alive_def)
  ultimately show ?thesis
    using assms(1) l
    by (simp add: client_request_def Let_def others_def append_log_def advance_commit_def [abs_def] entry_of_def)
qed

lemma request_frame:
  assumes "raft_ids nodes"
  shows "raft_frame nodes (snd (client_request cmd nodes))"
proof (cases "leader nodes")
  case None
  then show ?thesis by (simp add: client_request_def raft_frame_refl)
next
  case (Some l)
  show ?thesis
    unfolding client_request_eq [OF Some assms]
    by (auto simp: raft_frame_def append_alive_def append_log_def advance_commit_def)
qed

lemma step_frame:
  assumes "raft_step e nodes = Some (b, nodes')" and "raft_ids nodes"
    and "\<forall>i < length nodes. rn_current_term (nodes ! i) \<noteq> u64_max"
  shows "raft_frame nodes nodes'" and "raft_ids nodes'"
proof -
  show frame: "raft_frame nodes nodes'"
  proof (cases e)
    case (Election i)
    then have "i < length nodes" using assms(1) by (auto simp: run_election_def split: if_splits)
    with Election assms show ?thesis by (auto intro: election_frame(1))
  next
    case (Request cmd)
    with assms(1) request_frame [OF assms(2), of cmd] show ?thesis by auto
  qed (use assms(1) in \<open>auto simp: set_alive_def raft_frame_def nth_list_update split: if_splits\<close>)
  then show "raft_ids nodes'" using assms(2) by (simp add: raft_frame_def raft_ids_def)
qed

lemma step_term_bound:
  assumes "raft_step e nodes = Some (b, nodes')" and "raft_ids nodes"
    and "\<forall>i < length nodes. unat (rn_current_term (nodes ! i)) \<le> B" and "B + 1 < 2 ^ 64"
  shows "\<forall>i < length nodes'. unat (rn_current_term (nodes' ! i)) \<le> B + 1"
proof (cases e)
  case (Election j)
  then have lt: "j < length nodes" using assms(1) by (auto simp: run_election_def split: if_splits)
  then have "rn_current_term (nodes ! j) \<noteq> u64_max" using assms(3,4) by auto
  then have "unat (rn_current_term (nodes ! j) + 1) \<le> B + 1" using assms(3) lt by (simp add: unat_Suc_u64)
  moreover have "length nodes' = length nodes"
    using election_frame(1) [of j nodes b nodes'] assms(1,2) Election \<open>rn_current_term (nodes ! j) \<noteq> u64_max\<close>
    by (simp add: raft_frame_def)
  ultimately show ?thesis
    using election_term [of j nodes b nodes'] assms(1,3) Election by (fastforce intro: le_SucI)
next
  case (Request cmd)
  show ?thesis
  proof (cases "leader nodes")
    case None
    with Request assms(1,3) show ?thesis by (auto simp: client_request_def intro: le_SucI)
  next
    case (Some l)
    from Request assms(1,3) show ?thesis
      by (auto simp: client_request_eq [OF Some assms(2)] append_alive_def append_log_def advance_commit_def intro: le_SucI
          split: if_splits)
  qed
qed (use assms(1,3) in \<open>auto simp: set_alive_def nth_list_update intro: le_SucI split: if_splits\<close>)

section \<open>Election safety\<close>

definition claimed :: "raft \<Rightarrow> u64 \<Rightarrow> bool" where
  "claimed nodes t \<longleftrightarrow> quorum nodes \<le> card {i. i < length nodes \<and> t \<le> rn_current_term (nodes ! i)}"

lemma claimed_mono:
  assumes "raft_frame nodes nodes'" and "claimed nodes t"
  shows "claimed nodes' t"
proof -
  have "{i. i < length nodes \<and> t \<le> rn_current_term (nodes ! i)} \<subseteq>
      {i. i < length nodes' \<and> t \<le> rn_current_term (nodes' ! i)}"
    using assms(1) by (auto simp: raft_frame_def intro: order_trans)
  then have "card {i. i < length nodes \<and> t \<le> rn_current_term (nodes ! i)} \<le>
      card {i. i < length nodes' \<and> t \<le> rn_current_term (nodes' ! i)}"
    by (intro card_mono) simp_all
  with assms show ?thesis by (simp add: claimed_def quorum_def raft_frame_def)
qed

text \<open>Two majorities meet.\<close>

lemma win_above_claims:
  assumes "claimed nodes t" and "T \<subseteq> {0..<length nodes}" and "quorum nodes \<le> card T"
    and "\<forall>i \<in> T. rn_current_term (nodes ! i) < t'"
  shows "t < t'"
proof (rule ccontr)
  assume "\<not> t < t'"
  let ?C = "{i. i < length nodes \<and> t \<le> rn_current_term (nodes ! i)}"
  have "T \<inter> ?C = {}" using assms(4) \<open>\<not> t < t'\<close> by force
  moreover have "finite T" using assms(2) finite_subset by blast
  ultimately have "card T + card ?C = card (T \<union> ?C)"
    by (simp add: card_Un_disjoint)
  also have "\<dots> \<le> card {0..<length nodes}" using assms(2) by (intro card_mono) auto
  finally show False using assms(1,3) by (simp add: claimed_def quorum_def)
qed

lemma won_terms_increase:
  assumes "raft_ids nodes" and "\<forall>i < length nodes. unat (rn_current_term (nodes ! i)) \<le> B"
    and "B + length es < 2 ^ 64" and "\<forall>t \<in> W. claimed nodes t"
  shows "sorted_wrt (<) (won_terms es nodes) \<and> (\<forall>t \<in> W. \<forall>t' \<in> set (won_terms es nodes). t < t')"
  using assms
proof (induction es arbitrary: nodes B W)
  case (Cons e es)
  show ?case
  proof (cases "raft_step e nodes")
    case (Some r)
    obtain b nodes' where r: "raft_step e nodes = Some (b, nodes')" using Some by (cases r) auto
    have nz: "\<forall>i < length nodes. rn_current_term (nodes ! i) \<noteq> u64_max"
      using Cons.prems(2,3) by fastforce
    note frame = step_frame [OF r Cons.prems(1) nz]
    have bound: "\<forall>i < length nodes'. unat (rn_current_term (nodes' ! i)) \<le> B + 1"
      using step_term_bound [OF r Cons.prems(1,2)] Cons.prems(3) by simp
    have B: "B + 1 + length es < 2 ^ 64" using Cons.prems(3) by simp
    have W: "\<forall>t \<in> W. claimed nodes' t" using Cons.prems(4) claimed_mono [OF frame(1)] by blast
    note IH = Cons.IH [OF frame(2) bound B]
    show ?thesis
    proof (cases "\<exists>i. e = Election i \<and> b")
      case True
      then obtain i where e: "e = Election i" and b: b by blast
      let ?t = "rn_current_term (nodes' ! i)"
      have run: "run_election i nodes = Some (b, nodes')" using r e by simp
      have "i < length nodes" using run by (auto simp: run_election_def split: if_splits)
      with nz have "rn_current_term (nodes ! i) \<noteq> u64_max" by blast
      from election_frame(3) [OF run Cons.prems(1) this b] obtain T where
        T: "T \<subseteq> {0..<length nodes}" "quorum nodes \<le> card T"
        "\<forall>i \<in> T. rn_current_term (nodes ! i) < ?t" "\<forall>i \<in> T. rn_current_term (nodes' ! i) = ?t"
        by blast
      have "claimed nodes' ?t"
      proof -
        have "T \<subseteq> {i. i < length nodes' \<and> ?t \<le> rn_current_term (nodes' ! i)}"
          using T(1,4) frame(1) by (auto simp: raft_frame_def)
        then have "card T \<le> card {i. i < length nodes' \<and> ?t \<le> rn_current_term (nodes' ! i)}"
          by (intro card_mono) simp_all
        with T(2) frame(1) show ?thesis by (simp add: claimed_def quorum_def raft_frame_def)
      qed
      with W have "\<forall>t \<in> insert ?t W. claimed nodes' t" by blast
      note IH' = IH [OF this]
      have "t < ?t" if "t \<in> W" for t
        using win_above_claims [OF _ T(1,2,3)] Cons.prems(4) that by blast
      then show ?thesis using IH' b e r by auto
    next
      case False
      then have "won_terms (e # es) nodes = won_terms es nodes'"
        using r by (auto split: raft_event.splits)
      then show ?thesis using IH [OF W] by simp
    qed
  qed simp
qed simp

section \<open>Logs without failures\<close>

text \<open>As long as no node goes down, all logs are the same and entirely committed.\<close>

definition in_step :: "log_entry list \<Rightarrow> raft \<Rightarrow> bool" where
  "in_step l nodes \<longleftrightarrow>
     (\<forall>i < length nodes. rn_alive (nodes ! i) \<and> rn_log (nodes ! i) = l \<and>
        rn_commit_index (nodes ! i) = length l)"

lemma in_step_election:
  assumes "run_election cand nodes = Some (b, nodes')" and "raft_ids nodes" and "in_step l nodes"
    and "rn_current_term (nodes ! cand) \<noteq> u64_max"
  shows "in_step l nodes'"
proof -
  have "length nodes' = length nodes" using election_frame(1) [OF assms(1,2,4)] by (simp add: raft_frame_def)
  then show ?thesis
    using election_frame(2) [OF assms(1,2,4)] assms(3) by (simp add: in_step_def)
qed

lemma in_step_request:
  assumes "raft_ids nodes" and "in_step l nodes"
  shows "\<exists>l'. in_step l' (snd (client_request cmd nodes))"
proof (cases "leader nodes")
  case None
  then show ?thesis using assms(2) by (auto simp: client_request_def)
next
  case (Some k)
  then have k: "k < length nodes" using leader_Some assms(1) by blast
  have "rn_alive n" if "n \<in> set nodes" for n
    using that assms(2) by (metis in_set_conv_nth in_step_def)
  then have alive: "filter rn_alive nodes = nodes" by (simp add: filter_id_conv)
  have len: "length (rn_log (nodes ! k)) = length l" using assms(2) k by (simp add: in_step_def)
  have "quorum nodes \<le> length nodes" using k by (cases nodes) (auto simp: quorum_def)
  then have "snd (client_request cmd nodes) =
      map (advance_commit (length l + 1)) (append_alive (entry_of k cmd nodes) nodes)"
    using client_request_eq [OF Some assms(1), of cmd] by (simp add: alive len)
  then have "in_step (l @ [entry_of k cmd nodes]) (snd (client_request cmd nodes))"
    using assms(2) by (simp add: in_step_def append_alive_def append_log_def advance_commit_def)
  then show ?thesis ..
qed

fun no_failure :: "raft_event \<Rightarrow> bool" where
  "no_failure (Election i) = True"
| "no_failure (Request cmd) = True"
| "no_failure (Crash i) = False"
| "no_failure (Revive i) = False"

lemma in_step_run:
  assumes "raft_run es nodes = Some (bs, nodes')" and "raft_ids nodes" and "in_step l nodes"
    and "list_all no_failure es"
    and "\<forall>i < length nodes. unat (rn_current_term (nodes ! i)) \<le> B" and "B + length es < 2 ^ 64"
  shows "\<exists>l'. in_step l' nodes' \<and> length nodes' = length nodes"
  using assms
proof (induction es arbitrary: nodes B bs l)
  case (Cons e es)
  obtain b nodes1 bs' where r: "raft_step e nodes = Some (b, nodes1)"
    and run: "raft_run es nodes1 = Some (bs', nodes')"
    using Cons.prems(1) by (auto split: option.splits)
  have nz: "\<forall>i < length nodes. rn_current_term (nodes ! i) \<noteq> u64_max"
    using Cons.prems(5,6) by fastforce
  note frame = step_frame [OF r Cons.prems(2) nz]
  have "\<exists>l1. in_step l1 nodes1"
  proof (cases e)
    case (Election i)
    then have "i < length nodes" using r by (auto simp: run_election_def split: if_splits)
    with Election r nz show ?thesis using in_step_election [of i nodes b nodes1 l] Cons.prems(2,3) by auto
  next
    case (Request cmd)
    then show ?thesis using r in_step_request [OF Cons.prems(2,3), of cmd] by simp
  qed (use Cons.prems(4) in auto)
  then obtain l1 where "in_step l1 nodes1" ..
  from Cons.IH [OF run frame(2) this _ step_term_bound [OF r Cons.prems(2,5)]] Cons.prems(4,6) frame(1)
  show ?case by (simp add: raft_frame_def)
qed auto

section \<open>Properties\<close>

lemma raft_new_facts: "raft_ids (raft_new n)" "in_step [] (raft_new n)" "length (raft_new n) = n"
  "\<forall>i < length (raft_new n). unat (rn_current_term (raft_new n ! i)) \<le> 0"
  by (auto simp: raft_ids_def raft_new_def raft_node_new_def in_step_def)

text \<open>C22. Election safety: in any run of elections, requests, crashes and recoveries, the terms in
  which elections succeed are strictly increasing, so no term ever has two leaders elected.\<close>

theorem election_safety:
  assumes "length es < 2 ^ 64"
  shows "sorted_wrt (<) (won_terms es (raft_new n))"
  using won_terms_increase [OF raft_new_facts(1,4), of es "{}"] assms by simp

theorem election_safety_witness:
  "won_terms [Election 0, Crash 0, Election 1] (raft_new 3) = [1, 2] \<and>
   sorted_wrt (<) (won_terms [Election 0, Crash 0, Election 1] (raft_new 3))"
proof
  show "sorted_wrt (<) (won_terms [Election 0, Crash 0, Election 1] (raft_new 3))"
    by (rule election_safety) simp
  show "won_terms [Election 0, Crash 0, Election 1] (raft_new 3) = [1, 2]"
    by code_simp
qed

text \<open>C23. Log agreement without failures: after any run of elections and requests that does not panic,
  all nodes hold the same log and have committed all of it.\<close>

theorem logs_agree_without_failures:
  assumes "raft_run es (raft_new n) = Some (bs, nodes)" and "list_all no_failure es"
    and "length es < 2 ^ 64" and "i < n" and "j < n"
  shows "rn_log (nodes ! i) = rn_log (nodes ! j) \<and> rn_commit_index (nodes ! i) = length (rn_log (nodes ! i))"
  using in_step_run [OF assms(1) raft_new_facts(1,2) assms(2) raft_new_facts(4)] assms(3-5)
  by (auto simp: in_step_def raft_new_facts(3))

theorem logs_agree_without_failures_witness:
  "rn_commit_index (snd (the (raft_run [Election 1, Request ''SET x=1''] (raft_new 3))) ! 2) = 1"
proof -
  have "case raft_run [Election 1, Request ''SET x=1''] (raft_new 3) of
      None \<Rightarrow> False | Some (bs, nodes) \<Rightarrow> length (rn_log (nodes ! 2)) = 1"
    by code_simp
  then obtain bs nodes where run: "raft_run [Election 1, Request ''SET x=1''] (raft_new 3) = Some (bs, nodes)"
    and len: "length (rn_log (nodes ! 2)) = 1"
    by (auto split: option.splits)
  have "rn_commit_index (nodes ! 2) = length (rn_log (nodes ! 2))"
    by (rule logs_agree_without_failures [OF run, of 2 2, THEN conjunct2]) simp_all
  then show ?thesis by (simp only: run len option.sel snd_conv)
qed

definition raft_main :: "raft_event list" where
  "raft_main =
     [Election 0, Request ''SET x=1'', Request ''SET y=2'', Crash 2, Request ''SET z=3'',
      Crash 0, Revive 2, Election 1, Crash 0, Crash 2, Request ''SET w=4'']"

text \<open>The scenario of \<open>main\<close> goes as its assertions say: the first election succeeds, three requests
  commit, the third with one node down, the re-election after the leader's crash succeeds in a
  higher term, and without a majority a request is not committed.\<close>

theorem raft_main_asserts:
  "map_option fst (raft_run raft_main (raft_new 3)) =
     Some [True, True, True, True, True, True, True, True, True, True, False] \<and>
   won_terms raft_main (raft_new 3) = [1, 2]"
  by code_simp

definition raft_split :: "raft_event list" where
  "raft_split =
     [Election 0, Request ''a'', Crash 1, Crash 2, Request ''x'', Crash 0, Revive 1, Revive 2,
      Election 1, Request ''y'', Revive 0, Request ''z'']"


end
