(* ===== verification/Breaker.thy ===== *)
theory Breaker
  imports Prelude
begin

text \<open>
  The circuit breaker of \<open>demos/src/bin/demo_3_4a_circuit_breaker.rs\<close>.

  Each of \<open>before_call\<close>, \<open>on_success\<close> and \<open>on_failure\<close> holds the state's mutex from start to end,
  so concurrent calls are interleavings of these three operations: \<open>breaker_event\<close>. The abstract
  view of a breaker is a three-state automaton whose states carry what they count; the operations
  refine it, on every interleaving.
\<close>

section \<open>The breaker\<close>

datatype circuit_state = Closed | Open | HalfOpen

datatype call_error = OpenCircuit | ServiceFailed string

record circuit_breaker =
  cb_failure_threshold :: u32
  cb_reset_timeout :: duration
  cb_success_threshold :: u32
  cb_failure_count :: u32
  cb_success_count :: u32
  cb_state :: circuit_state
  cb_opened_at :: "instant option"

definition breaker_new :: "u32 \<Rightarrow> duration \<Rightarrow> u32 \<Rightarrow> circuit_breaker" where
  "breaker_new failure_threshold reset_timeout success_threshold =
     \<lparr>cb_failure_threshold = failure_threshold, cb_reset_timeout = reset_timeout,
      cb_success_threshold = success_threshold, cb_failure_count = 0, cb_success_count = 0,
      cb_state = Closed, cb_opened_at = None\<rparr>"

definition before_call :: "instant \<Rightarrow> circuit_breaker \<Rightarrow> (call_error + unit) \<times> circuit_breaker" where
  "before_call now cb =
     (case cb_state cb of
        Closed \<Rightarrow> (Inr (), cb)
      | HalfOpen \<Rightarrow> (Inr (), cb)
      | Open \<Rightarrow>
          (case cb_opened_at cb of
             Some t \<Rightarrow>
               if elapsed now t \<ge> cb_reset_timeout cb
               then (Inr (), cb\<lparr>cb_state := HalfOpen, cb_success_count := 0\<rparr>)
               else (Inl OpenCircuit, cb)
           | None \<Rightarrow> (Inl OpenCircuit, cb)))"

definition on_success :: "circuit_breaker \<Rightarrow> circuit_breaker" where
  "on_success cb =
     (case cb_state cb of
        HalfOpen \<Rightarrow>
          (let s = cb_success_count cb + 1;
               cb = cb\<lparr>cb_success_count := cb_success_count cb + 1\<rparr>
           in if s \<ge> cb_success_threshold cb then cb\<lparr>cb_state := Closed, cb_failure_count := 0\<rparr> else cb)
      | Closed \<Rightarrow> cb\<lparr>cb_failure_count := 0\<rparr>
      | Open \<Rightarrow> cb)"

definition on_failure :: "instant \<Rightarrow> circuit_breaker \<Rightarrow> circuit_breaker" where
  "on_failure now cb =
     (case cb_state cb of
        Closed \<Rightarrow>
          (let f = cb_failure_count cb + 1;
               cb = cb\<lparr>cb_failure_count := cb_failure_count cb + 1\<rparr>
           in if f \<ge> cb_failure_threshold cb then cb\<lparr>cb_state := Open, cb_opened_at := Some now\<rparr> else cb)
      | HalfOpen \<Rightarrow> cb\<lparr>cb_state := Open, cb_opened_at := Some now\<rparr>
      | Open \<Rightarrow> cb)"

text \<open>\<open>call\<close>: the service \<open>f\<close> is run only when the breaker admits the call; \<open>now\<close> is the clock
  before the call and \<open>after\<close> the clock when the service has failed.\<close>

definition breaker_call ::
  "instant \<Rightarrow> instant \<Rightarrow> ('w \<Rightarrow> (string + 't) \<times> 'w) \<Rightarrow> circuit_breaker \<Rightarrow> 'w \<Rightarrow>
   (call_error + 't) \<times> circuit_breaker \<times> 'w" where
  "breaker_call now after f cb w =
     (case before_call now cb of
        (Inl e, cb) \<Rightarrow> (Inl e, cb, w)
      | (Inr _, cb) \<Rightarrow>
          (case f w of
             (Inr v, w) \<Rightarrow> (Inr v, on_success cb, w)
           | (Inl e, w) \<Rightarrow> (Inl (ServiceFailed e), on_failure after cb, w)))"

text \<open>The service of the demo.\<close>

definition flaky_service :: "u32 \<Rightarrow> u32 \<Rightarrow> u32 \<Rightarrow> string + string" where
  "flaky_service call_id down_until current =
     (if current < down_until then Inl (''timeout/500 sur l'appel #'' @ show_word call_id)
      else Inr (''r'' @ [CHR 0xC3, CHR 0xA9] @ ''ponse OK '' @ [CHR 0xC3, CHR 0xA0] @ '' l'appel #'' @ show_word call_id))"

section \<open>The automaton it implements\<close>

datatype breaker_view = VClosed nat | VOpen instant | VHalf nat

definition breaker_view :: "circuit_breaker \<Rightarrow> breaker_view" where
  "breaker_view cb =
     (case cb_state cb of
        Closed \<Rightarrow> VClosed (unat (cb_failure_count cb))
      | Open \<Rightarrow> VOpen (the (cb_opened_at cb))
      | HalfOpen \<Rightarrow> VHalf (unat (cb_success_count cb)))"

datatype breaker_event = Before instant | Success | Failure instant

fun breaker_step :: "breaker_event \<Rightarrow> circuit_breaker \<Rightarrow> bool \<times> circuit_breaker" where
  "breaker_step (Before now) cb = (let (r, cb) = before_call now cb in (\<not> isl r, cb))"
| "breaker_step Success cb = (True, on_success cb)"
| "breaker_step (Failure now) cb = (True, on_failure now cb)"

fun view_step :: "nat \<Rightarrow> duration \<Rightarrow> nat \<Rightarrow> breaker_event \<Rightarrow> breaker_view \<Rightarrow> bool \<times> breaker_view" where
  "view_step ft reset st (Before now) (VOpen t) =
     (if now \<ge> t + reset \<or> reset = 0 then (True, VHalf 0) else (False, VOpen t))"
| "view_step ft reset st (Before now) v = (True, v)"
| "view_step ft reset st Success (VHalf n) = (True, if n + 1 \<ge> st then VClosed 0 else VHalf (n + 1))"
| "view_step ft reset st Success (VClosed n) = (True, VClosed 0)"
| "view_step ft reset st Success (VOpen t) = (True, VOpen t)"
| "view_step ft reset st (Failure now) (VClosed n) =
     (True, if n + 1 \<ge> ft then VOpen now else VClosed (n + 1))"
| "view_step ft reset st (Failure now) (VHalf n) = (True, VOpen now)"
| "view_step ft reset st (Failure now) (VOpen t) = (True, VOpen t)"

fun run_events :: "('e \<Rightarrow> 's \<Rightarrow> bool \<times> 's) \<Rightarrow> 'e list \<Rightarrow> 's \<Rightarrow> bool list \<times> 's" where
  "run_events step [] s = ([], s)"
| "run_events step (e # es) s =
     (let (b, s) = step e s; (bs, s) = run_events step es s in (b # bs, s))"

definition breaker_inv :: "circuit_breaker \<Rightarrow> bool" where
  "breaker_inv cb \<longleftrightarrow>
     (case cb_state cb of
        Closed \<Rightarrow> unat (cb_failure_count cb) < max 1 (unat (cb_failure_threshold cb))
      | HalfOpen \<Rightarrow> unat (cb_success_count cb) < max 1 (unat (cb_success_threshold cb))
      | Open \<Rightarrow> cb_opened_at cb \<noteq> None)"

lemma breaker_inv_new: "breaker_inv (breaker_new ft reset st)"
  by (simp add: breaker_inv_def breaker_new_def)

lemma unat_Suc_below:
  assumes "unat (x :: u32) < max 1 (unat (t :: u32))"
  shows "unat (x + 1) = unat x + 1"
proof -
  have "unat t < 2 ^ LENGTH(32)" by (rule unsigned_less)
  with assms have "unat x + 1 < 2 ^ 32" by (auto simp: max_def split: if_splits)
  then show ?thesis by (simp add: unat_word_ariths)
qed

lemma breaker_step_refines:
  assumes "breaker_inv cb" and "breaker_step e cb = (b, cb')"
  shows "view_step (unat (cb_failure_threshold cb)) (cb_reset_timeout cb) (unat (cb_success_threshold cb))
      e (breaker_view cb) = (b, breaker_view cb')"
    and "breaker_inv cb'"
    and "cb_failure_threshold cb' = cb_failure_threshold cb" "cb_reset_timeout cb' = cb_reset_timeout cb"
      "cb_success_threshold cb' = cb_success_threshold cb"
proof -
  have le: "x + 1 \<ge> t \<longleftrightarrow> unat x + 1 \<ge> unat t" if "unat (x :: u32) < max 1 (unat (t :: u32))" for x t
    using unat_Suc_below [OF that] by (simp add: word_le_nat_alt)
  have all: "view_step (unat (cb_failure_threshold cb)) (cb_reset_timeout cb) (unat (cb_success_threshold cb))
      e (breaker_view cb) = (b, breaker_view cb') \<and> breaker_inv cb' \<and>
    cb_failure_threshold cb' = cb_failure_threshold cb \<and> cb_reset_timeout cb' = cb_reset_timeout cb \<and>
    cb_success_threshold cb' = cb_success_threshold cb"
  proof (cases e)
    case (Before now)
    with assms show ?thesis
      by (cases "cb_state cb")
         (auto simp: before_call_def breaker_view_def breaker_inv_def elapsed_def split: if_splits)
  next
    case Success
    show ?thesis
    proof (cases "cb_state cb")
      case HalfOpen
      with assms(1) have b: "unat (cb_success_count cb) < max 1 (unat (cb_success_threshold cb))"
        by (simp add: breaker_inv_def)
      show ?thesis
        using assms(2) HalfOpen Success unat_Suc_below [OF b] le [OF b]
        by (cases "cb_success_threshold cb \<le> cb_success_count cb + 1")
           (auto simp: on_success_def breaker_view_def breaker_inv_def)
    qed (use assms Success in \<open>auto simp: on_success_def breaker_view_def breaker_inv_def\<close>)
  next
    case (Failure now)
    show ?thesis
    proof (cases "cb_state cb")
      case Closed
      with assms(1) have b: "unat (cb_failure_count cb) < max 1 (unat (cb_failure_threshold cb))"
        by (simp add: breaker_inv_def)
      show ?thesis
        using assms(2) Closed Failure unat_Suc_below [OF b] le [OF b]
        by (cases "cb_failure_threshold cb \<le> cb_failure_count cb + 1")
           (auto simp: on_failure_def breaker_view_def breaker_inv_def)
    qed (use assms Failure in \<open>auto simp: on_failure_def breaker_view_def breaker_inv_def\<close>)
  qed
  then show "view_step (unat (cb_failure_threshold cb)) (cb_reset_timeout cb) (unat (cb_success_threshold cb))
      e (breaker_view cb) = (b, breaker_view cb')" "breaker_inv cb'"
    "cb_failure_threshold cb' = cb_failure_threshold cb" "cb_reset_timeout cb' = cb_reset_timeout cb"
    "cb_success_threshold cb' = cb_success_threshold cb" by blast+
qed

lemma breaker_run_refines:
  assumes "breaker_inv cb" and "run_events breaker_step es cb = (bs, cb')"
  shows "run_events (view_step (unat (cb_failure_threshold cb)) (cb_reset_timeout cb)
      (unat (cb_success_threshold cb))) es (breaker_view cb) = (bs, breaker_view cb') \<and> breaker_inv cb' \<and>
    cb_failure_threshold cb' = cb_failure_threshold cb \<and> cb_reset_timeout cb' = cb_reset_timeout cb \<and>
    cb_success_threshold cb' = cb_success_threshold cb"
  using assms
proof (induction es arbitrary: cb bs)
  case (Cons e es)
  obtain b cb1 where e: "breaker_step e cb = (b, cb1)" by fastforce
  obtain bs1 where es: "run_events breaker_step es cb1 = (bs1, cb')" "bs = b # bs1"
    using Cons.prems(2) by (auto simp: e split: prod.splits)
  note step = breaker_step_refines [OF Cons.prems(1) e]
  from Cons.IH [OF step(2) es(1)] show ?case by (simp add: step es(2))
qed simp

lemma open_until:
  assumes "\<forall>now. Before now \<in> set es \<longrightarrow> now < t + reset" and "0 < reset"
  shows "snd (run_events (view_step ft reset st) es (VOpen t)) = VOpen t \<and>
    (\<forall>i < length es. (\<exists>now. es ! i = Before now) \<longrightarrow>
       \<not> fst (run_events (view_step ft reset st) es (VOpen t)) ! i)"
  using assms
proof (induction es)
  case (Cons e es)
  have "snd (view_step ft reset st e (VOpen t)) = VOpen t"
    using Cons.prems by (cases e) auto
  moreover have "(\<exists>now. e = Before now) \<Longrightarrow> \<not> fst (view_step ft reset st e (VOpen t))"
    using Cons.prems by auto
  ultimately show ?case
    using Cons by (auto simp: nth_Cons split_def Let_def split: nat.splits)
qed simp

section \<open>Properties\<close>

text \<open>C28. The breaker implements the three-state automaton: on every interleaving of admissions,
  successes and failures, with the counters at 32 bits, it admits and rejects the same calls and
  ends in the same state as \<open>view_step\<close>: closed with the number of consecutive failures, open
  since an instant, or half open with the number of successes since it was.\<close>

theorem breaker_refines_automaton:
  assumes "run_events breaker_step es (breaker_new ft reset st) = (bs, cb)"
  shows "run_events (view_step (unat ft) reset (unat st)) es (VClosed 0) = (bs, breaker_view cb)"
  using breaker_run_refines [OF breaker_inv_new assms]
  by (simp add: breaker_new_def breaker_view_def)

theorem breaker_refines_automaton_witness:
  "run_events (view_step 2 300 1) [Before 0, Failure 5, Before 6, Failure 9, Before 20, Before 400, Success] (VClosed 0) =
     ([True, True, True, True, False, True, True], VClosed 0)"
proof -
  have "run_events breaker_step [Before 0, Failure 5, Before 6, Failure 9, Before 20, Before 400, Success]
      (breaker_new 2 300 1) = ([True, True, True, True, False, True, True],
        \<lparr>cb_failure_threshold = 2, cb_reset_timeout = 300, cb_success_threshold = 1, cb_failure_count = 0,
         cb_success_count = 1, cb_state = Closed, cb_opened_at = Some 9\<rparr>)"
    by code_simp
  from breaker_refines_automaton [OF this] show ?thesis by (simp add: breaker_view_def)
qed

text \<open>Fail fast: once the breaker is open since \<open>t\<close>, and as long as the clock is before
  \<open>t + reset_timeout\<close>, every call is rejected without running the service, whatever late successes
  and failures of earlier calls arrive in between, and the breaker stays open.\<close>

theorem breaker_fails_fast:
  assumes "breaker_inv cb" and "breaker_view cb = VOpen t" and "0 < cb_reset_timeout cb"
    and "\<forall>now. Before now \<in> set es \<longrightarrow> now < t + cb_reset_timeout cb"
    and "run_events breaker_step es cb = (bs, cb')"
    and "now < t + cb_reset_timeout cb"
  shows "breaker_view cb' = VOpen t \<and>
    (\<forall>i < length es. (\<exists>now. es ! i = Before now) \<longrightarrow> \<not> bs ! i) \<and>
    breaker_call now after f cb' w = (Inl OpenCircuit, cb', w)"
proof -
  note run = breaker_run_refines [OF assms(1,5)]
  have "breaker_view cb' = VOpen t \<and> (\<forall>i < length es. (\<exists>now. es ! i = Before now) \<longrightarrow> \<not> bs ! i)"
    using open_until [OF assms(4,3), of "unat (cb_failure_threshold cb)" "unat (cb_success_threshold cb)"]
      run assms(2) by simp
  moreover have "before_call now cb' = (Inl OpenCircuit, cb')"
  proof -
    from calculation run have "cb_state cb' = Open" and "cb_opened_at cb' = Some t"
      by (auto simp: breaker_view_def breaker_inv_def split: circuit_state.splits)
    moreover have "elapsed now t < cb_reset_timeout cb'"
      using assms(3,6) run by (auto simp: elapsed_def)
    ultimately show ?thesis by (simp add: before_call_def)
  qed
  ultimately show ?thesis by (simp add: breaker_call_def)
qed

definition tripped :: circuit_breaker where
  "tripped = (breaker_new 3 300 2)\<lparr>cb_state := Open, cb_failure_count := 3, cb_opened_at := Some 100\<rparr>"

theorem breaker_fails_fast_witness:
  "breaker_call 350 360 (\<lambda>w. (Inr ''ok'', w + 1)) (snd (run_events breaker_step [Before 200, Success] tripped)) (0 :: nat) =
     (Inl OpenCircuit, snd (run_events breaker_step [Before 200, Success] tripped), 0)"
  by (rule breaker_fails_fast [where cb = tripped and t = 100, OF _ _ _ _ surjective_pairing,
        THEN conjunct2, THEN conjunct2])
     (auto simp: tripped_def breaker_new_def breaker_inv_def breaker_view_def)

text \<open>Recovery, and the final assertion of the demo: with the demo's thresholds, whatever happened
  before, if the breaker was last opened at least 300 ms before the three last calls and the
  service answers them, the breaker is closed at the end.\<close>

theorem breaker_recovers:
  assumes "run_events breaker_step es (breaker_new 3 (duration_from_millis 300) 2) = (bs, cb)"
    and "\<forall>now. Failure now \<in> set es \<longrightarrow> now + duration_from_millis 300 \<le> t1"
    and "t1 \<le> t2" and "t2 \<le> t3"
  shows "cb_state (snd (run_events breaker_step [Before t1, Success, Before t2, Success, Before t3, Success] cb)) = Closed"
proof -
  let ?ms = "duration_from_millis 300"
  note run = breaker_run_refines [OF breaker_inv_new assms(1)]
  have opened: "v = VOpen t \<Longrightarrow> Failure t \<in> set es \<or> v0 = VOpen t"
    if "snd (run_events (view_step ft reset st) es v0) = v" for ft reset st v v0 t es
    using that
  proof (induction es arbitrary: v0)
    case (Cons e es)
    have "snd (view_step ft reset st e v0) = VOpen t \<Longrightarrow> e = Failure t \<or> v0 = VOpen t"
      by (cases "(ft, reset, st, e, v0)" rule: view_step.cases) (auto split: if_splits)
    with Cons show ?case by (fastforce simp: split_def Let_def)
  qed simp
  obtain bs' cb' where last: "run_events breaker_step [Before t1, Success, Before t2, Success, Before t3, Success] cb = (bs', cb')"
    by fastforce
  have view: "snd (run_events (view_step 3 ?ms 2) es (VClosed 0)) = breaker_view cb"
    using run by (simp add: breaker_new_def breaker_view_def)
  have "breaker_view cb' = VClosed 0"
  proof -
    have thr: "cb_failure_threshold cb = 3" "cb_reset_timeout cb = ?ms" "cb_success_threshold cb = 2"
      and inv: "breaker_inv cb" using run by (simp_all add: breaker_new_def)
    have r: "run_events (view_step 3 ?ms 2) [Before t1, Success, Before t2, Success, Before t3, Success]
        (breaker_view cb) = (bs', breaker_view cb')"
      using breaker_run_refines [OF inv last] by (simp add: thr)
    show ?thesis
    proof (cases "breaker_view cb")
      case (VOpen t)
      with opened [OF view] have "t + ?ms \<le> t1" using assms(2) by auto
      with r VOpen show ?thesis by simp
    next
      case (VHalf n)
      with r show ?thesis by (auto simp: Let_def split: if_splits)
    qed (use r in auto)
  qed
  then show ?thesis
    unfolding last by (auto simp: breaker_view_def split: circuit_state.splits)
qed

theorem breaker_recovers_witness:
  "cb_state (snd (run_events breaker_step
     [Before 900000000, Success, Before 900000001, Success, Before 900000002, Success]
     (snd (run_events breaker_step [Before 0, Failure 5, Failure 6, Failure 7]
        (breaker_new 3 (duration_from_millis 300) 2))))) = Closed"
  by (rule breaker_recovers [OF surjective_pairing]) (auto simp: duration_from_millis_def)

end
