(* ===== verification/IeeeRounding.thy ===== *)
theory IeeeRounding
  imports Prelude Complex_Main
begin

text \<open>
  Rounding of non-negative rationals to a binary floating-point format, ties to even: \<open>prec\<close> is the
  number of significant bits, \<open>emin\<close> the exponent of the smallest normal number. \<open>Float64\<close> and
  \<open>Simd\<close> use it at 53 and at 24 bits.
\<close>

section \<open>Rounding\<close>

definition round_even :: "rat \<Rightarrow> int" where
  "round_even x =
     (let f = \<lfloor>x\<rfloor>; r = x - of_int f
      in if r < 1 / 2 \<or> (r = 1 / 2 \<and> even f) then f else f + 1)"

fun bit_len :: "nat \<Rightarrow> nat" where
  "bit_len n = (if n = 0 then 0 else Suc (bit_len (n div 2)))"

declare bit_len.simps [simp del]

definition exponent_of :: "rat \<Rightarrow> int" where
  "exponent_of x =
     (let (p, q) = quotient_of x;
          k = int (bit_len (nat p)) - int (bit_len (nat q))
      in if (2 :: rat) powi k \<le> x then k else k - 1)"

definition rnd_bits :: "int \<Rightarrow> int \<Rightarrow> rat \<Rightarrow> rat" where
  "rnd_bits prec emin x =
     (if x \<le> 0 then 0
      else let u = (2 :: rat) powi (max (exponent_of x) emin - (prec - 1))
           in of_int (round_even (x / u)) * u)"

lemma round_even_int [simp]: "round_even (of_int i) = i"
  by (simp add: round_even_def)

lemma round_even_mono: "x \<le> y \<Longrightarrow> round_even x \<le> round_even y"
proof -
  assume le: "x \<le> y"
  show ?thesis
  proof (cases "\<lfloor>x\<rfloor> = \<lfloor>y\<rfloor>")
    case True
    with le show ?thesis by (auto simp: round_even_def Let_def)
  next
    case False
    with floor_mono [OF le] have "\<lfloor>x\<rfloor> + 1 \<le> \<lfloor>y\<rfloor>" by simp
    moreover have "round_even x \<le> \<lfloor>x\<rfloor> + 1" and "\<lfloor>y\<rfloor> \<le> round_even y"
      by (simp_all add: round_even_def Let_def)
    ultimately show ?thesis by linarith
  qed
qed

lemma round_even_error: "\<bar>of_int (round_even x) - x\<bar> \<le> 1 / 2"
proof -
  have "of_int \<lfloor>x\<rfloor> \<le> x" "x < of_int \<lfloor>x\<rfloor> + 1" by linarith+
  then show ?thesis by (auto simp: round_even_def Let_def abs_le_iff; linarith)
qed

lemma round_even_unique: "\<bar>x - of_int i\<bar> < 1 / 2 \<Longrightarrow> round_even x = i"
proof -
  assume "\<bar>x - of_int i\<bar> < 1 / 2"
  with round_even_error [of x] have "\<bar>of_int (round_even x) - of_int i :: rat\<bar> < 1" by linarith
  then have "\<bar>round_even x - i\<bar> < 1" by linarith
  then show ?thesis by simp
qed

lemma bit_len_upper: "n < 2 ^ bit_len n"
proof (induction n rule: bit_len.induct)
  case (1 n)
  show ?case
  proof (cases "n = 0")
    case True
    then show ?thesis by simp
  next
    case False
    with "1.IH" have "n < 2 * 2 ^ bit_len (n div 2)" by linarith
    with False show ?thesis by (subst bit_len.simps) simp
  qed
qed

lemma bit_len_1: "bit_len 1 = 1"
  by (subst bit_len.simps, subst bit_len.simps) simp

lemma bit_len_lower: "0 < n \<Longrightarrow> 2 ^ bit_len n \<le> 2 * n"
proof (induction n rule: bit_len.induct)
  case (1 n)
  show ?case
  proof (cases "n div 2 = 0")
    case True
    with "1.prems" have "n = 1" by linarith
    then show ?thesis by (simp add: bit_len_1 [unfolded One_nat_def])
  next
    case False
    with "1.IH" "1.prems" have "2 * 2 ^ bit_len (n div 2) \<le> 2 * n" by linarith
    with "1.prems" show ?thesis by (subst bit_len.simps) simp
  qed
qed

lemma exponent_bounds:
  assumes "0 < x"
  shows "2 powi exponent_of x \<le> x" "x < 2 powi (exponent_of x + 1)"
proof -
  obtain p q where pq: "quotient_of x = (p, q)" by fastforce
  have x: "x = of_int p / of_int q" and q: "0 < q"
    using pq quotient_of_div quotient_of_denom_pos by auto
  with assms have p: "0 < p" by (simp add: zero_less_divide_iff)
  define a b where "a = bit_len (nat p)" and "b = bit_len (nat q)"
  have pb: "2 ^ a \<le> 2 * p" "p < 2 ^ a"
    unfolding a_def using bit_len_upper [of "nat p"] bit_len_lower [of "nat p"] p
    by (auto simp: nat_less_iff simp flip: zle_int)
  have qb: "2 ^ b \<le> 2 * q" "q < 2 ^ b"
    unfolding b_def using bit_len_upper [of "nat q"] bit_len_lower [of "nat q"] q
    by (auto simp: nat_less_iff simp flip: zle_int)
  have pa: "(2 :: rat) ^ a \<le> 2 * of_int p" "of_int p < (2 :: rat) ^ a"
    using pb by (metis of_int_le_iff of_int_mult of_int_numeral of_int_power)
      (metis pb(2) of_int_less_iff of_int_numeral of_int_power)
  have qa: "(2 :: rat) ^ b \<le> 2 * of_int q" "of_int q < (2 :: rat) ^ b"
    using qb by (metis of_int_le_iff of_int_mult of_int_numeral of_int_power)
      (metis qb(2) of_int_less_iff of_int_numeral of_int_power)
  have powi: "(2 :: rat) powi (int a - int b) = 2 ^ a / 2 ^ b"
    by (simp add: power_int_diff)
  have "2 powi (int a - int b - 1) \<le> x"
  proof -
    have "2 ^ a * of_int q \<le> (2 * of_int p) * (2 ^ b :: rat)"
      using pa qa p q by (intro mult_mono) auto
    then have "2 ^ a / 2 ^ b / 2 \<le> x"
      using q by (simp add: x field_simps)
    then show ?thesis by (simp add: power_int_diff)
  qed
  moreover have "x < 2 powi (int a - int b + 1)"
  proof -
    have "of_int p * 2 ^ b < (2 ^ a :: rat) * (2 * of_int q)"
      using pa qa p by (intro mult_less_le_imp_less) (auto simp: order.strict_implies_order)
    then have "x < 2 ^ a / 2 ^ b * 2"
      using q by (simp add: x field_simps)
    then show ?thesis by (simp add: power_int_add powi)
  qed
  ultimately show "2 powi exponent_of x \<le> x" "x < 2 powi (exponent_of x + 1)"
    by (auto simp: exponent_of_def pq Let_def simp flip: a_def b_def)
qed


text \<open>The unit of the last place at the exponent \<open>e\<close>.\<close>

definition ulp_at :: "int \<Rightarrow> int \<Rightarrow> int \<Rightarrow> rat" where
  "ulp_at prec emin e = 2 powi (max e emin - (prec - 1))"

lemma ulp_at_pos [simp]: "0 < ulp_at prec emin e"
  by (simp add: ulp_at_def)

lemma ulp_at_nonzero [simp]: "ulp_at prec emin e \<noteq> 0"
  by (rule less_imp_neq [OF ulp_at_pos, symmetric])

lemma rnd_bits_alt: "0 < x \<Longrightarrow> rnd_bits prec emin x = of_int (round_even (x / ulp_at prec emin (exponent_of x))) * ulp_at prec emin (exponent_of x)"
  by (simp add: rnd_bits_def ulp_at_def Let_def)

lemma powi_less_exponent: "(2 :: rat) powi i < 2 powi j \<Longrightarrow> i < j"
  using power_int_increasing [of j i "2 :: rat"] by (meson leD linorder_not_less one_le_numeral)

lemma exponent_mono:
  assumes "0 < x" "x \<le> y"
  shows "exponent_of x \<le> exponent_of y"
proof -
  have "(2 :: rat) powi exponent_of x < 2 powi (exponent_of y + 1)"
    using exponent_bounds [of x] exponent_bounds [of y] assms by linarith
  then have "exponent_of x < exponent_of y + 1"
    by (rule powi_less_exponent)
  then show ?thesis by simp
qed

lemma power_over_ulp:
  assumes "max e emin - (prec - 1) \<le> k"
  shows "\<exists>i. (2 :: rat) powi k = of_int i * ulp_at prec emin e"
proof
  have "(2 :: rat) powi k = 2 powi (k - (max e emin - (prec - 1))) * ulp_at prec emin e"
    unfolding ulp_at_def by (simp flip: power_int_add)
  also have "\<dots> = of_int (2 ^ nat (k - (max e emin - (prec - 1)))) * ulp_at prec emin e"
    using assms by (simp add: power_int_def)
  finally show "(2 :: rat) powi k = of_int (2 ^ nat (k - (max e emin - (prec - 1)))) * ulp_at prec emin e" .
qed

lemma rnd_bits_nonneg [simp]: "0 \<le> rnd_bits prec emin x"
proof (cases "0 < x")
  case True
  have "0 \<le> round_even (x / ulp_at prec emin (exponent_of x))"
    using round_even_mono [of 0 "x / ulp_at prec emin (exponent_of x)"] round_even_int [of 0] True
    by (simp add: less_imp_le)
  with True show ?thesis by (simp add: rnd_bits_alt less_imp_le)
qed (simp add: rnd_bits_def)

lemma rnd_bits_le_power:
  assumes "0 < x" "x \<le> 2 powi k" "max (exponent_of x) emin - (prec - 1) \<le> k"
  shows "rnd_bits prec emin x \<le> 2 powi k"
proof -
  obtain i where i: "(2 :: rat) powi k = of_int i * ulp_at prec emin (exponent_of x)"
    using power_over_ulp [OF assms(3)] by blast
  with assms(2) have "x / ulp_at prec emin (exponent_of x) \<le> of_int i" by (simp add: divide_le_eq)
  from round_even_mono [OF this] show ?thesis
    using assms(1) by (simp add: rnd_bits_alt i mult_right_mono)
qed

lemma rnd_bits_ge_power:
  assumes "0 < x" "2 powi k \<le> x" "max (exponent_of x) emin - (prec - 1) \<le> k"
  shows "2 powi k \<le> rnd_bits prec emin x"
proof -
  obtain i where i: "(2 :: rat) powi k = of_int i * ulp_at prec emin (exponent_of x)"
    using power_over_ulp [OF assms(3)] by blast
  with assms(2) have "of_int i \<le> x / ulp_at prec emin (exponent_of x)" by (simp add: le_divide_eq)
  from round_even_mono [OF this] show ?thesis
    using assms(1) by (simp add: rnd_bits_alt i mult_right_mono)
qed

lemma rnd_bits_mono:
  assumes le: "x \<le> y" and prec: "1 \<le> prec"
  shows "rnd_bits prec emin x \<le> rnd_bits prec emin y"
proof -
  consider "x \<le> 0" | "0 < x" "max (exponent_of x) emin = max (exponent_of y) emin"
    | "0 < x" "max (exponent_of x) emin < max (exponent_of y) emin"
    using exponent_mono [OF _ le] by linarith
  then show ?thesis
  proof cases
    case 1
    then have "rnd_bits prec emin x = 0" by (simp add: rnd_bits_def)
    then show ?thesis by simp
  next
    case 2
    then have "ulp_at prec emin (exponent_of x) = ulp_at prec emin (exponent_of y)" by (simp add: ulp_at_def)
    with 2 le show ?thesis
      using round_even_mono [OF divide_right_mono [OF le less_imp_le [OF ulp_at_pos [of prec emin "exponent_of y"]]]]
      by (auto simp: rnd_bits_alt intro!: mult_right_mono)
  next
    case 3
    have "rnd_bits prec emin x \<le> 2 powi exponent_of y"
    proof (rule rnd_bits_le_power)
      have "(2 :: rat) powi (exponent_of x + 1) \<le> 2 powi exponent_of y"
        using 3 by (intro power_int_increasing) auto
      then show "x \<le> 2 powi exponent_of y" using exponent_bounds [OF 3(1)] by linarith
    qed (use 3 prec in auto)
    also have "\<dots> \<le> rnd_bits prec emin y"
      using 3 le prec by (intro rnd_bits_ge_power exponent_bounds) auto
    finally show ?thesis .
  qed
qed

lemma rnd_bits_error:
  assumes "0 \<le> x" "x < 2 powi (e + 1)" "emin \<le> e"
  shows "\<bar>rnd_bits prec emin x - x\<bar> \<le> 2 powi (e - prec)"
proof (cases "x = 0")
  case False
  with assms(1) have pos: "0 < x" by simp
  let ?u = "ulp_at prec emin (exponent_of x)"
  have "(2 :: rat) powi exponent_of x < 2 powi (e + 1)"
    using exponent_bounds [OF pos] assms by linarith
  then have "exponent_of x < e + 1" by (rule powi_less_exponent)
  then have "?u \<le> 2 powi (e - (prec - 1))"
    unfolding ulp_at_def using assms(3) by (intro power_int_increasing) auto
  moreover have "\<bar>rnd_bits prec emin x - x\<bar> = \<bar>of_int (round_even (x / ?u)) - x / ?u\<bar> * ?u"
  proof -
    have "rnd_bits prec emin x - x = (of_int (round_even (x / ?u)) - x / ?u) * ?u"
      using pos by (simp add: rnd_bits_alt left_diff_distrib less_imp_neq [OF ulp_at_pos, symmetric])
    then show ?thesis by (simp add: abs_mult less_imp_le)
  qed
  moreover have "\<bar>of_int (round_even (x / ?u)) - x / ?u\<bar> * ?u \<le> 1 / 2 * ?u"
    by (intro mult_right_mono round_even_error less_imp_le ulp_at_pos)
  moreover have "(2 :: rat) powi (e - prec) = 2 powi (e - (prec - 1)) / 2"
    by (simp add: power_int_diff)
  ultimately show ?thesis by linarith
qed (simp add: rnd_bits_def)

lemma rnd_bits_exact:
  assumes "0 < x" and x: "x = of_int i * ulp_at prec emin (exponent_of x)"
  shows "rnd_bits prec emin x = x"
proof -
  have "x / ulp_at prec emin (exponent_of x) = of_int i"
    by (subst (1) x) simp
  with assms show ?thesis by (simp add: rnd_bits_alt)
qed

lemma rnd_bits_idem:
  assumes "1 \<le> prec"
  shows "rnd_bits prec emin (rnd_bits prec emin x) = rnd_bits prec emin x"
proof (cases "0 < rnd_bits prec emin x")
  case True
  then have pos: "0 < x" by (auto simp: rnd_bits_def split: if_splits)
  let ?e = "max (exponent_of x) emin" and ?e' = "exponent_of (rnd_bits prec emin x)"
  obtain n where n: "rnd_bits prec emin x = of_int n * ulp_at prec emin (exponent_of x)"
    by (rule that) (rule rnd_bits_alt [OF pos])
  have "rnd_bits prec emin x \<le> 2 powi (?e + 1)"
  proof (rule rnd_bits_le_power [OF pos])
    have "(2 :: rat) powi (exponent_of x + 1) \<le> 2 powi (?e + 1)" by (intro power_int_increasing) auto
    with exponent_bounds [OF pos] show "x \<le> 2 powi (?e + 1)" by linarith
  qed (use assms in simp)
  with exponent_bounds [OF True] have le: "(2 :: rat) powi ?e' \<le> 2 powi (?e + 1)" by linarith
  have "\<exists>i. rnd_bits prec emin x = of_int i * ulp_at prec emin ?e'"
  proof (cases "?e' \<le> ?e")
    case True
    then have "\<exists>i. ulp_at prec emin (exponent_of x) = of_int i * ulp_at prec emin ?e'"
      unfolding ulp_at_def [of prec emin "exponent_of x"] by (intro power_over_ulp) simp
    then obtain i where "ulp_at prec emin (exponent_of x) = of_int i * ulp_at prec emin ?e'" by blast
    then show ?thesis using n by (metis mult.assoc of_int_mult)
  next
    case False
    then have "(2 :: rat) powi (?e + 1) \<le> 2 powi ?e'" by (intro power_int_increasing) auto
    with le \<open>rnd_bits prec emin x \<le> 2 powi (?e + 1)\<close> exponent_bounds [OF \<open>0 < rnd_bits prec emin x\<close>]
    have "rnd_bits prec emin x = 2 powi ?e'" by linarith
    moreover have "\<exists>i. (2 :: rat) powi ?e' = of_int i * ulp_at prec emin ?e'"
      by (rule power_over_ulp) (use False assms in simp)
    ultimately show ?thesis by metis
  qed
  then show ?thesis using rnd_bits_exact [OF True] by blast
next
  case False
  then have "rnd_bits prec emin x = 0" using rnd_bits_nonneg [of prec emin x] by linarith
  then show ?thesis by (simp add: rnd_bits_def)
qed

text \<open>The relative error of a normal result, and the values that are not rounded at all.\<close>

lemma rnd_bits_relative:
  assumes "2 powi emin \<le> x"
  shows "\<bar>rnd_bits prec emin x - x\<bar> \<le> x * 2 powi (- prec)"
proof -
  have "0 < (2 :: rat) powi emin" by simp
  with assms have pos: "0 < x" by linarith
  note e = exponent_bounds [OF pos]
  have "(2 :: rat) powi emin < 2 powi (exponent_of x + 1)" using assms e(2) by linarith
  then have "emin \<le> exponent_of x" using powi_less_exponent by fastforce
  then have "\<bar>rnd_bits prec emin x - x\<bar> \<le> 2 powi (exponent_of x - prec)"
    using pos e by (intro rnd_bits_error) auto
  also have "\<dots> = 2 powi exponent_of x * 2 powi (- prec)"
    by (simp flip: power_int_add)
  also have "\<dots> \<le> x * 2 powi (- prec)"
    using e(1) by (intro mult_right_mono) auto
  finally show ?thesis .
qed

lemma rnd_bits_representable:
  assumes "0 < i" "i \<le> 2 ^ nat prec" "emin - (prec - 1) \<le> k" "1 \<le> prec"
  shows "rnd_bits prec emin (of_int i * 2 powi k) = of_int i * 2 powi k"
proof -
  let ?x = "rat_of_int i * 2 powi k"
  have pos: "0 < ?x" using assms(1) by simp
  note e = exponent_bounds [OF pos]
  have "\<exists>j. ?x = of_int j * ulp_at prec emin (exponent_of ?x)"
  proof (cases "max (exponent_of ?x) emin - (prec - 1) \<le> k")
    case True
    then obtain j where "(2 :: rat) powi k = of_int j * ulp_at prec emin (exponent_of ?x)"
      using power_over_ulp by blast
    then show ?thesis by (metis mult.assoc of_int_mult)
  next
    case False
    then have k: "k + prec \<le> exponent_of ?x" using assms(3) by linarith
    have "rat_of_int i \<le> of_int (2 ^ nat prec)" using assms(2) by (rule iffD2 [OF of_int_le_iff])
    then have "rat_of_int i \<le> 2 powi prec" using assms(4) by (simp add: power_int_def)
    then have "?x \<le> 2 powi prec * 2 powi k" by (intro mult_right_mono) auto
    also have "\<dots> = 2 powi (k + prec)" by (simp add: power_int_add)
    also have "\<dots> \<le> 2 powi exponent_of ?x" using k by (intro power_int_increasing) auto
    finally have "?x = 2 powi exponent_of ?x" using e(1) by linarith
    moreover have "emin \<le> exponent_of ?x" using k assms(3) False by linarith
    then obtain j where "(2 :: rat) powi exponent_of ?x = of_int j * ulp_at prec emin (exponent_of ?x)"
      using power_over_ulp [of "exponent_of ?x" emin prec "exponent_of ?x"] assms(4) False by auto
    ultimately show ?thesis by metis
  qed
  with rnd_bits_exact [OF pos] show ?thesis by blast
qed

lemma rnd_bits_form:
  assumes "0 < x" "0 < prec"
  shows "\<exists>i k. rnd_bits prec emin x = of_int i * 2 powi k \<and> 0 \<le> i \<and> i \<le> 2 ^ nat prec \<and> emin - (prec - 1) \<le> k"
proof -
  let ?u = "ulp_at prec emin (exponent_of x)"
  let ?k = "max (exponent_of x) emin - (prec - 1)"
  have u: "?u = 2 powi ?k" by (simp add: ulp_at_def)
  have "x \<le> 2 powi (exponent_of x + 1)" using exponent_bounds [OF assms(1)] by simp
  also have "\<dots> \<le> 2 powi (prec + ?k)" by (intro power_int_increasing) auto
  also have "\<dots> = 2 powi prec * ?u" unfolding u by (rule power_int_add) simp
  also have "(2 :: rat) powi prec = of_int (2 ^ nat prec)"
    using assms(2) by (simp add: power_int_def)
  finally have "x / ?u \<le> of_int (2 ^ nat prec)" by (simp add: divide_le_eq)
  from round_even_mono [OF this] have le: "round_even (x / ?u) \<le> 2 ^ nat prec" by (simp only: round_even_int)
  have "0 \<le> round_even (x / ?u)"
    using round_even_mono [of 0 "x / ?u"] round_even_int [of 0] assms(1) by (simp add: less_imp_le)
  with le show ?thesis
    using rnd_bits_alt [OF assms(1), of prec emin] unfolding u
    by (intro exI [of _ "round_even (x / 2 powi ?k)"] exI [of _ ?k]) (simp add: u)
qed

end
