(* ===== verification/Float64.thy ===== *)
theory Float64
  imports IeeeRounding
begin

text \<open>
  The \<open>f64\<close> arithmetic that the retry policy uses, on its non-negative finite values: a value is
  the rational it denotes, and an operation is the exact one followed by \<open>rnd64\<close>, IEEE rounding
  to 53 significant bits, ties to even. Infinities, NaN and overflow are not modelled: the
  theorems bound the operands. \<open>as_secs_f64\<close> and \<open>from_secs_f64\<close> are the conversions of
  \<open>std::time::Duration\<close>, the second rounding to the nearest nanosecond and panicking (\<open>None\<close>)
  when the value does not fit.
\<close>

type_synonym f64 = rat

definition rnd64 :: "rat \<Rightarrow> f64" where
  "rnd64 x = rnd_bits 53 (- 1022) x"

lemma rnd64_nonneg [simp]: "0 \<le> rnd64 x"
  by (simp add: rnd64_def)

lemma rnd64_mono: "x \<le> y \<Longrightarrow> rnd64 x \<le> rnd64 y"
  by (simp add: rnd64_def rnd_bits_mono)

lemma rnd64_error:
  "0 \<le> x \<Longrightarrow> x < 2 powi (e + 1) \<Longrightarrow> - 1022 \<le> e \<Longrightarrow> \<bar>rnd64 x - x\<bar> \<le> 2 powi (e - 53)"
  by (simp add: rnd64_def rnd_bits_error)

lemma rnd64_idem [simp]: "rnd64 (rnd64 x) = rnd64 x"
  by (simp add: rnd64_def rnd_bits_idem)

lemma rnd64_1 [simp]: "rnd64 1 = 1"
  by code_simp

section \<open>Durations\<close>

definition as_secs_f64 :: "duration \<Rightarrow> f64" where
  "as_secs_f64 d =
     rnd64 (rnd64 (of_nat (d div 1000000000)) + rnd64 (of_nat (d mod 1000000000) / 1000000000))"

definition from_secs_f64 :: "f64 \<Rightarrow> duration option" where
  "from_secs_f64 x =
     (let n = round_even (x * 1000000000)
      in if n < 0 \<or> n \<ge> 2 ^ 64 * 1000000000 then None else Some (nat n))"

lemma rnd64_as_secs [simp]: "rnd64 (as_secs_f64 d) = as_secs_f64 d"
  by (simp add: as_secs_f64_def)

lemma as_secs_f64_nonneg [simp]: "0 \<le> as_secs_f64 d"
  by (simp add: as_secs_f64_def)

lemma from_secs_f64_mono:
  assumes "0 \<le> x" "x \<le> y" "from_secs_f64 y = Some d"
  shows "\<exists>d' \<le> d. from_secs_f64 x = Some d'"
proof -
  have "0 \<le> round_even (x * 1000000000)"
    using round_even_mono [of 0 "x * 1000000000"] round_even_int [of 0] assms(1) by simp
  moreover have "round_even (x * 1000000000) \<le> round_even (y * 1000000000)"
    using assms(2) by (intro round_even_mono) simp
  ultimately show ?thesis
    using assms(3) by (auto simp: from_secs_f64_def Let_def split: if_splits)
qed

text \<open>Below \<open>2^20\<close> seconds (12 days) a duration survives the conversion to \<open>f64\<close> and back.\<close>

definition short_duration :: "duration \<Rightarrow> bool" where
  "short_duration d \<longleftrightarrow> d < 2 ^ 20 * 1000000000"

lemma from_as_secs_f64:
  assumes "short_duration d"
  shows "from_secs_f64 (as_secs_f64 d) = Some d"
proof -
  let ?s = "rat_of_nat (d div 1000000000)" and ?n = "rat_of_nat (d mod 1000000000) / 1000000000"
  have d: "of_nat d = ?s * 1000000000 + ?n * 1000000000"
  proof -
    have "rat_of_nat d = of_nat (d div 1000000000 * 1000000000 + d mod 1000000000)" by simp
    then show ?thesis by (simp only: of_nat_add of_nat_mult of_nat_numeral)
  qed
  have "d div 1000000000 < 2 ^ 20" using assms by (simp add: short_duration_def less_mult_imp_div_less)
  then have s: "?s < 2 ^ 20" by (metis of_nat_less_iff of_nat_numeral of_nat_power)
  have "rat_of_nat (d mod 1000000000) < of_nat 1000000000"
    by (intro iffD2 [OF of_nat_less_iff]) simp
  then have n: "?n < 1" by simp
  have pows: "(2 :: rat) powi (20 - 53) = 1 / 8589934592" "(2 :: rat) powi (19 - 53) = 1 / 17179869184"
    "(2 :: rat) powi (- 1 - 53) = 1 / 18014398509481984" "(2 :: rat) ^ 20 = 1048576" "(2 :: rat) ^ 21 = 2097152"
    by (simp_all add: power_int_def power_divide)
  have es: "\<bar>rnd64 ?s - ?s\<bar> \<le> 2 powi (19 - 53)" using s by (intro rnd64_error) auto
  have en: "\<bar>rnd64 ?n - ?n\<bar> \<le> 2 powi (- 1 - 53)" using n by (intro rnd64_error) auto
  have "rnd64 ?s + rnd64 ?n < 2 ^ 21"
    using es en s n unfolding pows by linarith
  then have "\<bar>as_secs_f64 d - (rnd64 ?s + rnd64 ?n)\<bar> \<le> 2 powi (20 - 53)"
    unfolding as_secs_f64_def by (intro rnd64_error) auto
  then have "\<bar>as_secs_f64 d - (?s + ?n)\<bar> < 1 / 4000000000"
    using es en unfolding pows by linarith
  then have "\<bar>as_secs_f64 d * 1000000000 - of_nat d\<bar> < 1 / 2"
    unfolding d by linarith
  then have "\<bar>as_secs_f64 d * 1000000000 - of_int (int d)\<bar> < 1 / 2" by simp
  from round_even_unique [OF this] assms show ?thesis
    by (simp add: from_secs_f64_def short_duration_def)
qed

end
