(* ===== verification/Retry.thy ===== *)
theory Retry
  imports Float64
begin

text \<open>
  Retries with exponential backoff and jitter, \<open>demos/src/bin/demo_3_4b_retry_backoff.rs\<close>.

  The called service \<open>f\<close> is any function of the attempt number and of the state \<open>w\<close> of the world;
  \<open>sleep d\<close> is what the world becomes while the task sleeps. \<open>f64::powi\<close>, whose precision the
  library leaves open, is the parameter \<open>pow_i32\<close>. A panic of \<open>Duration::from_secs_f64\<close> is \<open>None\<close>.
\<close>

section \<open>The policy\<close>

record retry_policy =
  rp_max_retries :: u32
  rp_initial_delay :: duration
  rp_max_delay :: duration
  rp_multiplier :: f64
  rp_jitter :: bool

datatype service_error = Retryable string | Permanent string

definition base_delay :: "(f64 \<Rightarrow> u32 \<Rightarrow> f64) \<Rightarrow> retry_policy \<Rightarrow> u32 \<Rightarrow> duration option" where
  "base_delay pow_i32 p attempt =
     (let raw = rnd64 (as_secs_f64 (rp_initial_delay p) * pow_i32 (rp_multiplier p) attempt)
      in from_secs_f64 (min raw (as_secs_f64 (rp_max_delay p))))"

section \<open>The xorshift generator\<close>

record simple_rng =
  rng_state :: u64

definition rng_new :: "u64 \<Rightarrow> simple_rng" where
  "rng_new seed = \<lparr>rng_state = Bit_Operations.or seed 1\<rparr>"

definition xorshift :: "u64 \<Rightarrow> u64" where
  "xorshift x =
     (let x = Bit_Operations.xor x (push_bit 13 x);
          x = Bit_Operations.xor x (drop_bit 7 x)
      in Bit_Operations.xor x (push_bit 17 x))"

definition next_u64 :: "simple_rng \<Rightarrow> u64 \<times> simple_rng" where
  "next_u64 rng = (let x = xorshift (rng_state rng) in (x, rng\<lparr>rng_state := x\<rparr>))"

definition next_f64 :: "simple_rng \<Rightarrow> f64 \<times> simple_rng" where
  "next_f64 rng =
     (let (x, rng) = next_u64 rng
      in (rnd64 (rnd64 (of_nat (unat (drop_bit 11 x))) / rnd64 (of_nat (unat (push_bit 53 1 :: u64)))), rng))"

definition delay_with_jitter ::
  "(f64 \<Rightarrow> u32 \<Rightarrow> f64) \<Rightarrow> retry_policy \<Rightarrow> u32 \<Rightarrow> simple_rng \<Rightarrow> (duration \<times> simple_rng) option" where
  "delay_with_jitter pow_i32 p attempt rng =
     (case base_delay pow_i32 p attempt of
        None \<Rightarrow> None
      | Some base \<Rightarrow>
          if rp_jitter p then
            (let (factor, rng) = next_f64 rng
             in map_option (\<lambda>d. (d, rng)) (from_secs_f64 (rnd64 (as_secs_f64 base * factor))))
          else Some (base, rng))"

section \<open>The retry loop\<close>

lemma attempt_Suc: "(attempt :: u32) < m \<Longrightarrow> unat (attempt + 1) = unat attempt + 1 \<and> attempt + 1 \<le> m"
proof -
  assume lt: "attempt < m"
  then have "unat attempt < unat m" by (simp add: word_less_nat_alt)
  moreover have "unat m < 2 ^ LENGTH(32)" by (rule unsigned_less)
  ultimately have "unat (attempt + 1) = unat attempt + 1" by (simp add: unat_word_ariths)
  with lt show ?thesis by (simp add: word_less_nat_alt word_le_nat_alt)
qed

lemma attempt_decreases:
  "(attempt :: u32) < m \<Longrightarrow> unat m - unat (attempt + 1) < unat m - unat attempt"
  using attempt_Suc [of attempt m] by (simp add: word_less_nat_alt)

function retry_loop ::
  "(f64 \<Rightarrow> u32 \<Rightarrow> f64) \<Rightarrow> (duration \<Rightarrow> 'w \<Rightarrow> 'w) \<Rightarrow> retry_policy \<Rightarrow>
   (u32 \<Rightarrow> 'w \<Rightarrow> (service_error + 't) \<times> 'w) \<Rightarrow> u32 \<Rightarrow> simple_rng \<Rightarrow> 'w \<Rightarrow>
   ((service_error + 't) \<times> duration list \<times> simple_rng \<times> 'w) option" where
  "retry_loop pow_i32 sleep p f attempt rng w =
     (case f attempt w of
        (Inr v, w) \<Rightarrow> Some (Inr v, [], rng, w)
      | (Inl (Permanent e), w) \<Rightarrow> Some (Inl (Permanent e), [], rng, w)
      | (Inl (Retryable e), w) \<Rightarrow>
          if attempt \<ge> rp_max_retries p then Some (Inl (Retryable e), [], rng, w)
          else
            (case delay_with_jitter pow_i32 p attempt rng of
               None \<Rightarrow> None
             | Some (delay, rng) \<Rightarrow>
                 (case base_delay pow_i32 p attempt of
                    None \<Rightarrow> None
                  | Some base \<Rightarrow>
                      map_option (\<lambda>(r, sleeps, rng, w). (r, delay # sleeps, rng, w))
                        (retry_loop pow_i32 sleep p f (attempt + 1) rng (sleep delay w)))))"
  by pat_completeness auto

termination
proof (relation "measure (\<lambda>(_, _, p, _, attempt, _, _). unat (rp_max_retries p) - unat attempt)")
qed (auto simp: not_le intro: attempt_decreases)

declare retry_loop.simps [simp del]

definition retry_with_backoff ::
  "(f64 \<Rightarrow> u32 \<Rightarrow> f64) \<Rightarrow> (duration \<Rightarrow> 'w \<Rightarrow> 'w) \<Rightarrow> retry_policy \<Rightarrow> simple_rng \<Rightarrow>
   (u32 \<Rightarrow> 'w \<Rightarrow> (service_error + 't) \<times> 'w) \<Rightarrow> 'w \<Rightarrow>
   ((service_error + 't) \<times> duration list \<times> simple_rng \<times> 'w) option" where
  "retry_with_backoff pow_i32 sleep p rng f w = retry_loop pow_i32 sleep p f 0 rng w"


section \<open>The generator never stops\<close>

lemma shift_fixed_zero:
  assumes "push_bit n x = (x :: u64)" and "0 < n"
  shows "x = 0"
proof (rule bit_word_eqI)
  fix i assume "i < LENGTH(64)"
  have "\<not> bit x i"
  proof (induction i rule: less_induct)
    case (less i)
    have "bit x i = bit (push_bit n x) i" by (simp add: assms(1))
    also have "\<dots> \<longleftrightarrow> n \<le> i \<and> i < LENGTH(64) \<and> bit x (i - n)"
      by (auto simp: bit_push_bit_iff)
    finally show ?case using less assms(2) by auto
  qed
  then show "bit x i \<longleftrightarrow> bit 0 i" by simp
qed

lemma shift_right_fixed_zero:
  assumes "drop_bit n x = (x :: u64)" and "0 < n"
  shows "x = 0"
proof (rule ccontr)
  assume "x \<noteq> 0"
  have "unat x div 2 ^ n = unat x"
    using assms(1) by (metis unat_drop_bit_eq drop_bit_eq_div)
  moreover have "unat x div 2 ^ n < unat x"
    using assms(2) \<open>x \<noteq> 0\<close> by (intro div_less_dividend) (auto simp: unat_gt_0 intro!: one_less_power [of "2 :: nat", unfolded One_nat_def])
  ultimately show False by simp
qed

lemma xorshift_nonzero: "x \<noteq> 0 \<Longrightarrow> xorshift x \<noteq> 0"
proof -
  have xor0: "Bit_Operations.xor a b = 0 \<longleftrightarrow> b = a" for a b :: u64
    by (auto simp: bit_eq_iff bit_xor_iff)
  define y where "y = Bit_Operations.xor x (push_bit 13 x)"
  define z where "z = Bit_Operations.xor y (drop_bit 7 y)"
  assume "x \<noteq> 0"
  with shift_fixed_zero [of 13 x] have "push_bit 13 x \<noteq> x" by auto
  then have "y \<noteq> 0" by (simp only: y_def xor0 not_False_eq_True)
  with shift_right_fixed_zero [of 7 y] have "drop_bit 7 y \<noteq> y" by auto
  then have "z \<noteq> 0" by (simp only: z_def xor0 not_False_eq_True)
  with shift_fixed_zero [of 17 z] have "push_bit 17 z \<noteq> z" by auto
  then have "Bit_Operations.xor z (push_bit 17 z) \<noteq> 0" by (simp only: xor0 not_False_eq_True)
  then show "xorshift x \<noteq> 0" by (simp add: xorshift_def Let_def z_def y_def)
qed

lemma rng_new_nonzero: "rng_state (rng_new seed) \<noteq> 0"
proof -
  have "bit (Bit_Operations.or seed 1) 0" by (simp add: bit_or_iff)
  then show ?thesis by (auto simp: rng_new_def)
qed

lemma rng_state_next: "rng_state rng \<noteq> 0 \<Longrightarrow> rng_state (snd (next_f64 rng)) \<noteq> 0"
  by (simp add: next_f64_def next_u64_def split_def Let_def xorshift_nonzero)

lemma divide_le_one: "(a :: rat) \<le> c \<Longrightarrow> 0 \<le> c \<Longrightarrow> a / c \<le> 1"
  by (cases "c = 0") (auto simp: divide_le_eq_1)

lemma next_f64_bounds: "0 \<le> fst (next_f64 rng)" "fst (next_f64 rng) \<le> 1"
proof -
  define x where "x = fst (next_u64 rng)"
  have f: "fst (next_f64 rng) = rnd64 (rnd64 (of_nat (unat (drop_bit 11 x))) / rnd64 (of_nat (2 ^ 53)))"
    by (simp add: next_f64_def x_def split_def Let_def)
  then show "0 \<le> fst (next_f64 rng)" by simp
  have "unat (drop_bit 11 x) \<le> 2 ^ 53"
    unfolding unat_drop_bit_eq unfolding drop_bit_eq_div
  proof -
    have "unat x < 18446744073709551616" using unat_u64_lt [of x] by simp
    then have "unat x div 2048 \<le> 9007199254740992" by linarith
    then show "unat x div 2 ^ 11 \<le> 2 ^ 53" by simp
  qed
  then have "rat_of_nat (unat (drop_bit 11 x)) \<le> of_nat (2 ^ 53)" by (rule of_nat_mono)
  from rnd64_mono [OF this]
  have "rnd64 (of_nat (unat (drop_bit 11 x))) / rnd64 (of_nat (2 ^ 53)) \<le> 1"
    by (rule divide_le_one) (rule rnd64_nonneg)
  then have "fst (next_f64 rng) \<le> rnd64 1" unfolding f by (rule rnd64_mono)
  also have "rnd64 1 = 1" by code_simp
  finally show "fst (next_f64 rng) \<le> 1" .
qed


section \<open>The delays\<close>

lemma base_delay_bounded:
  assumes "short_duration (rp_max_delay p)" and "0 \<le> pow_i32 (rp_multiplier p) attempt"
  shows "\<exists>b \<le> rp_max_delay p. base_delay pow_i32 p attempt = Some b"
  using from_secs_f64_mono [OF _ _ from_as_secs_f64 [OF assms(1)],
      of "min (rnd64 (as_secs_f64 (rp_initial_delay p) * pow_i32 (rp_multiplier p) attempt))
            (as_secs_f64 (rp_max_delay p))"]
  by (auto simp: base_delay_def)

lemma short_duration_le: "d \<le> d' \<Longrightarrow> short_duration d' \<Longrightarrow> short_duration d"
  by (simp add: short_duration_def)

lemma delay_with_jitter_bounded:
  assumes "short_duration (rp_max_delay p)" and "0 \<le> pow_i32 (rp_multiplier p) attempt"
  shows "\<exists>b d rng'. base_delay pow_i32 p attempt = Some b \<and> b \<le> rp_max_delay p \<and>
    delay_with_jitter pow_i32 p attempt rng = Some (d, rng') \<and> d \<le> b \<and> (\<not> rp_jitter p \<longrightarrow> d = b)"
proof -
  obtain b where b: "b \<le> rp_max_delay p" "base_delay pow_i32 p attempt = Some b"
    using base_delay_bounded [of p pow_i32 attempt] assms by blast
  note short = short_duration_le [OF b(1) assms(1)]
  let ?f = "fst (next_f64 rng)"
  have "as_secs_f64 b * ?f \<le> as_secs_f64 b"
    by (intro mult_left_le next_f64_bounds) simp
  from rnd64_mono [OF this] have "rnd64 (as_secs_f64 b * ?f) \<le> as_secs_f64 b" by simp
  from from_secs_f64_mono [OF rnd64_nonneg this from_as_secs_f64 [OF short]] b show ?thesis
    by (cases "rp_jitter p") (auto simp: delay_with_jitter_def split_def Let_def)
qed

section \<open>Properties\<close>

text \<open>The world when attempt number \<open>a + length sleeps\<close> begins, \<open>w\<close> being the world when attempt
  \<open>a\<close> does.\<close>

fun retry_world ::
  "(duration \<Rightarrow> 'w \<Rightarrow> 'w) \<Rightarrow> (u32 \<Rightarrow> 'w \<Rightarrow> 'r \<times> 'w) \<Rightarrow> u32 \<Rightarrow> duration list \<Rightarrow> 'w \<Rightarrow> 'w" where
  "retry_world sleep f a [] w = w"
| "retry_world sleep f a (d # ds) w = retry_world sleep f (a + 1) ds (sleep d (snd (f a w)))"

lemma all_less_Cons: "(\<forall>i < length (x # xs). P i) \<longleftrightarrow> P 0 \<and> (\<forall>i < length xs. P (Suc i))"
  by (auto simp: less_Suc_eq_0_disj)

lemma retry_loop_spec:
  assumes "short_duration (rp_max_delay p)" and "\<And>n. 0 \<le> pow_i32 (rp_multiplier p) n"
    and "a \<le> rp_max_retries p"
  shows "\<exists>r sleeps rng' w'. retry_loop pow_i32 sleep p f a rng w = Some (r, sleeps, rng', w') \<and>
    unat a + length sleeps \<le> unat (rp_max_retries p) \<and>
    (\<forall>i < length sleeps. \<exists>b. base_delay pow_i32 p (a + of_nat i) = Some b \<and> b \<le> rp_max_delay p \<and>
       sleeps ! i \<le> b \<and> (\<not> rp_jitter p \<longrightarrow> sleeps ! i = b)) \<and>
    (\<forall>i < length sleeps. \<exists>e. fst (f (a + of_nat i) (retry_world sleep f a (take i sleeps) w)) = Inl (Retryable e)) \<and>
    f (a + of_nat (length sleeps)) (retry_world sleep f a sleeps w) = (r, w') \<and>
    (unat a + length sleeps < unat (rp_max_retries p) \<longrightarrow> (\<forall>e. r \<noteq> Inl (Retryable e)))"
  using assms(3)
proof (induction "unat (rp_max_retries p) - unat a" arbitrary: a rng w rule: less_induct)
  case less
  obtain r w1 where f: "f a w = (r, w1)" by fastforce
  show ?case
  proof (cases "(\<exists>e. r = Inl (Retryable e)) \<and> a < rp_max_retries p")
    case False
    then have "retry_loop pow_i32 sleep p f a rng w = Some (r, [], rng, w1)"
      by (subst retry_loop.simps)
         (auto simp: f not_less split: sum.splits service_error.splits)
    with False f less.prems show ?thesis
      by (auto simp: word_less_nat_alt word_le_nat_alt)
  next
    case True
    then obtain e where r: "r = Inl (Retryable e)" and lt: "a < rp_max_retries p" by blast
    obtain b d rng1 where d: "base_delay pow_i32 p a = Some b" "b \<le> rp_max_delay p"
        "delay_with_jitter pow_i32 p a rng = Some (d, rng1)" "d \<le> b" "\<not> rp_jitter p \<longrightarrow> d = b"
      using delay_with_jitter_bounded [of p pow_i32 a rng] assms(1,2) by blast
    note Suc = attempt_Suc [OF lt]
    obtain r' sleeps rng' w' where IH: "retry_loop pow_i32 sleep p f (a + 1) rng1 (sleep d w1) = Some (r', sleeps, rng', w')"
        "unat (a + 1) + length sleeps \<le> unat (rp_max_retries p)"
        "\<forall>i < length sleeps. \<exists>b. base_delay pow_i32 p (a + 1 + of_nat i) = Some b \<and> b \<le> rp_max_delay p \<and>
           sleeps ! i \<le> b \<and> (\<not> rp_jitter p \<longrightarrow> sleeps ! i = b)"
        "\<forall>i < length sleeps. \<exists>e. fst (f (a + 1 + of_nat i)
           (retry_world sleep f (a + 1) (take i sleeps) (sleep d w1))) = Inl (Retryable e)"
        "f (a + 1 + of_nat (length sleeps)) (retry_world sleep f (a + 1) sleeps (sleep d w1)) = (r', w')"
        "unat (a + 1) + length sleeps < unat (rp_max_retries p) \<longrightarrow> (\<forall>e. r' \<noteq> Inl (Retryable e))"
      using less.hyps [OF attempt_decreases [OF lt]] Suc by blast
    have "retry_loop pow_i32 sleep p f a rng w = Some (r', d # sleeps, rng', w')"
      by (subst retry_loop.simps) (use lt in \<open>simp add: f r d IH not_le\<close>)
    moreover have "\<forall>i < length (d # sleeps). \<exists>b. base_delay pow_i32 p (a + of_nat i) = Some b \<and> b \<le> rp_max_delay p \<and>
        (d # sleeps) ! i \<le> b \<and> (\<not> rp_jitter p \<longrightarrow> (d # sleeps) ! i = b)"
      unfolding all_less_Cons using d IH(3) by (simp add: add.assoc)
    moreover have "\<forall>i < length (d # sleeps). \<exists>e.
        fst (f (a + of_nat i) (retry_world sleep f a (take i (d # sleeps)) w)) = Inl (Retryable e)"
      unfolding all_less_Cons using f r IH(4) by (simp add: add.assoc)
    moreover have "f (a + of_nat (length (d # sleeps))) (retry_world sleep f a (d # sleeps) w) = (r', w')"
      using f IH(5) by (simp add: add.assoc)
    moreover have "unat a + length (d # sleeps) \<le> unat (rp_max_retries p)"
        "unat a + length (d # sleeps) < unat (rp_max_retries p) \<longrightarrow> (\<forall>e. r' \<noteq> Inl (Retryable e))"
      using IH(2,6) Suc by simp_all
    ultimately show ?thesis by blast
  qed
qed



text \<open>The policy of the last part of the demo, and a service that always fails.\<close>

definition fast_policy :: retry_policy where
  "fast_policy =
     \<lparr>rp_max_retries = 3, rp_initial_delay = duration_from_millis 20,
      rp_max_delay = duration_from_millis 100, rp_multiplier = 2, rp_jitter = False\<rparr>"

definition failing :: "u32 \<Rightarrow> nat \<Rightarrow> (service_error + string) \<times> nat" where
  "failing attempt t = (Inl (Retryable (show_word attempt)), t + 1)"

definition rounded_power :: "f64 \<Rightarrow> u32 \<Rightarrow> f64" where
  "rounded_power m n = rnd64 (m ^ unat n)"


end
