(* ===== verification/Simd.thy ===== *)
theory Simd
  imports IeeeRounding
begin

text \<open>
  The dot products of \<open>demos/src/bin/demo04_simd_vectorization.rs\<close>: the plain loop, the loop with
  eight accumulators, and the loops on four-lane registers, SSE2 and NEON.

  A finite \<open>f32\<close> is the rational it denotes; an operation is the exact one rounded to 24 bits, and
  \<open>None\<close> when the result is not finite. The intrinsics are what the processor manuals say: lane by
  lane, and \<open>vfmaq_f32\<close> rounds once. The locale \<open>rounded_sums\<close> follows the four loops once for any
  relation between the computed and the exact sum; its interpretations are the error bound and
  the exactness of integer data.
\<close>

section \<open>Single precision\<close>

type_synonym f32 = rat

definition rnd32 :: "rat \<Rightarrow> f32 option" where
  "rnd32 x = (let r = sgn x * rnd_bits 24 (- 126) \<bar>x\<bar> in if \<bar>r\<bar> < 2 ^ 128 then Some r else None)"

definition f32_add :: "f32 \<Rightarrow> f32 \<Rightarrow> f32 option" where
  "f32_add x y = rnd32 (x + y)"

definition f32_sub :: "f32 \<Rightarrow> f32 \<Rightarrow> f32 option" where
  "f32_sub x y = rnd32 (x - y)"

definition f32_mul :: "f32 \<Rightarrow> f32 \<Rightarrow> f32 option" where
  "f32_mul x y = rnd32 (x * y)"

definition f32_fma :: "f32 \<Rightarrow> f32 \<Rightarrow> f32 \<Rightarrow> f32 option" where
  "f32_fma acc x y = rnd32 (acc + x * y)"

definition is_f32 :: "rat \<Rightarrow> bool" where
  "is_f32 x \<longleftrightarrow> rnd32 x = Some x"

section \<open>The dot products\<close>

text \<open>The length assertion fails before anything is computed.\<close>

datatype dot_failure = SizesDiffer | NotFinite

definition checked :: "f32 list \<Rightarrow> f32 list \<Rightarrow> f32 option \<Rightarrow> dot_failure + f32" where
  "checked a b r =
     (if length a = length b then (case r of Some x \<Rightarrow> Inr x | None \<Rightarrow> Inl NotFinite)
      else Inl SizesDiffer)"

text \<open>\<open>Iterator::sum\<close> on floats: from zero, left to right.\<close>

fun sum_f32 :: "f32 \<Rightarrow> f32 list \<Rightarrow> f32 option" where
  "sum_f32 acc [] = Some acc"
| "sum_f32 acc (x # xs) = Option.bind (f32_add acc x) (\<lambda>acc. sum_f32 acc xs)"

fun sum_products :: "f32 \<Rightarrow> (f32 \<times> f32) list \<Rightarrow> f32 option" where
  "sum_products acc [] = Some acc"
| "sum_products acc ((x, y) # xys) =
     Option.bind (f32_mul x y) (\<lambda>p. Option.bind (f32_add acc p) (\<lambda>acc. sum_products acc xys))"

definition dot_product_naif :: "f32 list \<Rightarrow> f32 list \<Rightarrow> dot_failure + f32" where
  "dot_product_naif a b = checked a b (sum_products 0 (zip a b))"

text \<open>The scalar tail, \<open>for j in n_aligne..n\<close>.\<close>

fun tail_loop :: "f32 list \<Rightarrow> f32 list \<Rightarrow> nat list \<Rightarrow> f32 \<Rightarrow> f32 option" where
  "tail_loop a b [] acc = Some acc"
| "tail_loop a b (j # js) acc =
     Option.bind (f32_mul (a ! j) (b ! j)) (\<lambda>p. Option.bind (f32_add acc p) (tail_loop a b js))"

text \<open>Eight accumulators: \<open>for k in 0..lanes\<close> inside \<open>while i < n_aligne\<close>.\<close>

fun lane_loop :: "f32 list \<Rightarrow> f32 list \<Rightarrow> nat \<Rightarrow> nat list \<Rightarrow> f32 list \<Rightarrow> f32 list option" where
  "lane_loop a b i [] acc = Some acc"
| "lane_loop a b i (k # ks) acc =
     Option.bind (f32_mul (a ! (i + k)) (b ! (i + k))) (\<lambda>p.
       Option.bind (f32_add (acc ! k) p) (\<lambda>s. lane_loop a b i ks (acc[k := s])))"

function hint_loop :: "f32 list \<Rightarrow> f32 list \<Rightarrow> nat \<Rightarrow> nat \<Rightarrow> f32 list \<Rightarrow> f32 list option" where
  "hint_loop a b n_aligne i acc =
     (if i < n_aligne then
        Option.bind (lane_loop a b i [0..<8] acc) (hint_loop a b n_aligne (i + 8))
      else Some acc)"
  by pat_completeness auto
termination
  by (relation "measure (\<lambda>(_, _, n_aligne, i, _). n_aligne - i)") auto

definition dot_product_hint :: "f32 list \<Rightarrow> f32 list \<Rightarrow> dot_failure + f32" where
  "dot_product_hint a b =
     (let n = length a; n_aligne = n - n mod 8
      in checked a b
           (Option.bind (hint_loop a b n_aligne 0 (replicate 8 0)) (\<lambda>acc.
              Option.bind (sum_f32 0 acc) (tail_loop a b [n_aligne..<n]))))"

text \<open>Registers of four lanes: \<open>_mm_loadu_ps\<close> and \<open>vld1q_f32\<close>, \<open>_mm_mul_ps\<close>, \<open>_mm_add_ps\<close>,
  \<open>vfmaq_f32\<close>, \<open>vaddvq_f32\<close>.\<close>

definition load4 :: "f32 list \<Rightarrow> nat \<Rightarrow> f32 list" where
  "load4 xs i = map (\<lambda>k. xs ! (i + k)) [0..<4]"

fun lanewise :: "(f32 \<Rightarrow> f32 \<Rightarrow> f32 option) \<Rightarrow> f32 list \<Rightarrow> f32 list \<Rightarrow> f32 list option" where
  "lanewise f (x # xs) (y # ys) =
     Option.bind (f x y) (\<lambda>r. Option.bind (lanewise f xs ys) (\<lambda>rs. Some (r # rs)))"
| "lanewise f _ _ = Some []"

fun lanewise_fma :: "f32 list \<Rightarrow> f32 list \<Rightarrow> f32 list \<Rightarrow> f32 list option" where
  "lanewise_fma (c # cs) (x # xs) (y # ys) =
     Option.bind (f32_fma c x y) (\<lambda>r. Option.bind (lanewise_fma cs xs ys) (\<lambda>rs. Some (r # rs)))"
| "lanewise_fma _ _ _ = Some []"

definition vaddvq_f32 :: "f32 list \<Rightarrow> f32 option" where
  "vaddvq_f32 v =
     Option.bind (f32_add (v ! 0) (v ! 1)) (\<lambda>s.
       Option.bind (f32_add (v ! 2) (v ! 3)) (\<lambda>t. f32_add s t))"

function sse2_loop :: "f32 list \<Rightarrow> f32 list \<Rightarrow> nat \<Rightarrow> nat \<Rightarrow> f32 list \<Rightarrow> f32 list option" where
  "sse2_loop a b n_aligne i acc_v =
     (if i < n_aligne then
        Option.bind (lanewise f32_mul (load4 a i) (load4 b i)) (\<lambda>prod.
          Option.bind (lanewise f32_add acc_v prod) (sse2_loop a b n_aligne (i + 4)))
      else Some acc_v)"
  by pat_completeness auto
termination
  by (relation "measure (\<lambda>(_, _, n_aligne, i, _). n_aligne - i)") auto

function neon_loop :: "f32 list \<Rightarrow> f32 list \<Rightarrow> nat \<Rightarrow> nat \<Rightarrow> f32 list \<Rightarrow> f32 list option" where
  "neon_loop a b n_aligne i acc_v =
     (if i < n_aligne then
        Option.bind (lanewise_fma acc_v (load4 a i) (load4 b i)) (neon_loop a b n_aligne (i + 4))
      else Some acc_v)"
  by pat_completeness auto
termination
  by (relation "measure (\<lambda>(_, _, n_aligne, i, _). n_aligne - i)") auto

declare hint_loop.simps [simp del] sse2_loop.simps [simp del] neon_loop.simps [simp del]

text \<open>\<open>dot_product_simd\<close> for \<open>x86_64\<close>, for \<open>aarch64\<close> and for other targets.\<close>

definition dot_product_simd_x86_64 :: "f32 list \<Rightarrow> f32 list \<Rightarrow> dot_failure + f32" where
  "dot_product_simd_x86_64 a b =
     (let n = length a; n_aligne = n - n mod 4
      in checked a b
           (Option.bind (sse2_loop a b n_aligne 0 (replicate 4 0)) (\<lambda>tmp.
              Option.bind (sum_f32 (tmp ! 0) [tmp ! 1, tmp ! 2, tmp ! 3]) (tail_loop a b [n_aligne..<n]))))"

definition dot_product_simd_aarch64 :: "f32 list \<Rightarrow> f32 list \<Rightarrow> dot_failure + f32" where
  "dot_product_simd_aarch64 a b =
     (let n = length a; n_aligne = n - n mod 4
      in checked a b
           (Option.bind (neon_loop a b n_aligne 0 (replicate 4 0)) (\<lambda>acc_v.
              Option.bind (vaddvq_f32 acc_v) (tail_loop a b [n_aligne..<n]))))"

definition dot_product_simd_fallback :: "f32 list \<Rightarrow> f32 list \<Rightarrow> dot_failure + f32" where
  "dot_product_simd_fallback a b = dot_product_hint a b"

section \<open>Sums by lanes\<close>

text \<open>What the lane \<open>k\<close> of \<open>L\<close> has summed after \<open>t\<close> blocks.\<close>

definition lane_sum :: "nat \<Rightarrow> (nat \<Rightarrow> rat) \<Rightarrow> nat \<Rightarrow> nat \<Rightarrow> rat" where
  "lane_sum L g t k = (\<Sum>s<t. g (L * s + k))"

lemma lane_sum_0 [simp]: "lane_sum L g 0 k = 0"
  by (simp add: lane_sum_def)

lemma lane_sum_Suc: "lane_sum L g (Suc t) k = lane_sum L g t k + g (L * t + k)"
  by (simp add: lane_sum_def)

lemma sum_lessThan_add: "(\<Sum>i<m + (n :: nat). f i) = (\<Sum>i<m. f i) + (\<Sum>i<n. f (m + i) :: rat)"
  by (induction n) (simp_all add: add.assoc)

lemma lanes_total: "(\<Sum>k<L. lane_sum L g q k) = (\<Sum>i<L * q. g i)"
proof (induction q)
  case (Suc q)
  have "(\<Sum>i<L * Suc q. g i) = (\<Sum>i<L * q. g i) + (\<Sum>k<L. g (L * q + k))"
    using sum_lessThan_add [of g "L * q" L] by (simp add: add.commute)
  then show ?case by (simp add: lane_sum_Suc sum.distrib Suc)
qed simp

lemma lane_mass:
  assumes "\<And>i. 0 \<le> g i" "L * t \<le> n" "k < L"
  shows "lane_sum L g t k \<le> (\<Sum>i<n. g i)"
proof -
  have "lane_sum L g t k \<le> (\<Sum>k<L. lane_sum L g t k)"
    using assms(1,3) by (intro member_le_sum) (auto simp: lane_sum_def intro!: sum_nonneg)
  also have "\<dots> \<le> (\<Sum>i<n. g i)"
    unfolding lanes_total using assms(1,2) by (intro sum_mono2) auto
  finally show ?thesis .
qed

lemma tail_total: "c \<le> n \<Longrightarrow> (\<Sum>i<c. g i) + (\<Sum>j\<leftarrow>[c..<n]. g j) = (\<Sum>i<n. g i :: rat)"
  by (simp add: interv_sum_list_conv_sum_set_nat lessThan_atLeast0 sum.atLeastLessThan_concat)

lemma lanewise_all:
  assumes "\<forall>k < length xs. \<exists>r. f (xs ! k) (ys ! k) = Some r \<and> Q k r" "length ys = length xs"
  shows "\<exists>rs. lanewise f xs ys = Some rs \<and> length rs = length xs \<and> (\<forall>k < length xs. Q k (rs ! k))"
  using assms
proof (induction xs arbitrary: ys Q)
  case (Cons x xs)
  then obtain y ys' where ys: "ys = y # ys'" "length ys' = length xs" by (cases ys) auto
  obtain r where r: "f x y = Some r" "Q 0 r" using Cons.prems(1) ys by fastforce
  have "\<forall>k < length xs. \<exists>r. f (xs ! k) (ys' ! k) = Some r \<and> Q (Suc k) r"
    using Cons.prems(1) ys by fastforce
  from Cons.IH [OF this ys(2)] obtain rs where
    "lanewise f xs ys' = Some rs" "length rs = length xs" "\<forall>k < length xs. Q (Suc k) (rs ! k)" by blast
  with r ys show ?case by (auto simp: nth_Cons split: nat.split)
qed simp

lemma lanewise_fma_all:
  assumes "\<forall>k < length cs. \<exists>r. f32_fma (cs ! k) (xs ! k) (ys ! k) = Some r \<and> Q k r"
    "length xs = length cs" "length ys = length cs"
  shows "\<exists>rs. lanewise_fma cs xs ys = Some rs \<and> length rs = length cs \<and> (\<forall>k < length cs. Q k (rs ! k))"
  using assms
proof (induction cs arbitrary: xs ys Q)
  case (Cons c cs)
  then obtain x xs' y ys' where xy: "xs = x # xs'" "length xs' = length cs" "ys = y # ys'" "length ys' = length cs"
    by (cases xs; cases ys) auto
  obtain r where r: "f32_fma c x y = Some r" "Q 0 r" using Cons.prems(1) xy by fastforce
  have "\<forall>k < length cs. \<exists>r. f32_fma (cs ! k) (xs' ! k) (ys' ! k) = Some r \<and> Q (Suc k) r"
    using Cons.prems(1) xy by fastforce
  from Cons.IH [OF this xy(2,4)] obtain rs where
    "lanewise_fma cs xs' ys' = Some rs" "length rs = length cs" "\<forall>k < length cs. Q (Suc k) (rs ! k)" by blast
  with r xy show ?case by (auto simp: nth_Cons split: nat.split)
qed simp

lemma load4_simps [simp]: "length (load4 xs i) = 4" "k < 4 \<Longrightarrow> load4 xs i ! k = xs ! (i + k)"
  by (simp_all add: load4_def)

lemma sum_products_tail:
  "sum_products z (map (\<lambda>j. (a ! j, b ! j)) js) = tail_loop a b js z"
  by (induction js arbitrary: z) simp_all

lemma zip_indices: "length b = length a \<Longrightarrow> zip a b = map (\<lambda>j. (a ! j, b ! j)) [0..<length a]"
  by (rule nth_equalityI) simp_all

text \<open>The exact dot product, and the sum of the absolute values of the products.\<close>

definition exact_dot :: "f32 list \<Rightarrow> f32 list \<Rightarrow> rat" where
  "exact_dot a b = (\<Sum>i<length a. a ! i * b ! i)"

definition dot_mass :: "f32 list \<Rightarrow> f32 list \<Rightarrow> rat" where
  "dot_mass a b = (\<Sum>i<length a. \<bar>a ! i * b ! i\<bar>)"

section \<open>The loops over any relation of computed and exact sums\<close>

text \<open>\<open>acc m e mass x\<close>: \<open>x\<close> was computed in at most \<open>m\<close> roundings on the way from any product, the
  exact sum is \<open>e\<close>, and \<open>mass\<close> is the sum of the absolute values of the products in it.\<close>

locale rounded_sums =
  fixes acc :: "nat \<Rightarrow> rat \<Rightarrow> rat \<Rightarrow> f32 \<Rightarrow> bool"
    and ok :: "f32 \<Rightarrow> f32 \<Rightarrow> bool"
    and max_depth :: nat and max_mass :: rat
  assumes acc_zero: "acc 0 0 0 0"
    and acc_mono: "acc m e mass x \<Longrightarrow> m \<le> n \<Longrightarrow> acc n e mass x"
    and acc_mul: "ok x y \<Longrightarrow> \<bar>x * y\<bar> \<le> max_mass \<Longrightarrow> \<exists>p. f32_mul x y = Some p \<and> acc 1 (x * y) \<bar>x * y\<bar> p"
    and acc_add: "acc m e E x \<Longrightarrow> acc n f F y \<Longrightarrow> E + F \<le> max_mass \<Longrightarrow> max m n < max_depth \<Longrightarrow>
        \<exists>s. f32_add x y = Some s \<and> acc (Suc (max m n)) (e + f) (E + F) s"
    and acc_fma: "acc m e E z \<Longrightarrow> ok x y \<Longrightarrow> E + \<bar>x * y\<bar> \<le> max_mass \<Longrightarrow> m < max_depth \<Longrightarrow>
        \<exists>s. f32_fma z x y = Some s \<and> acc (Suc m) (e + x * y) (E + \<bar>x * y\<bar>) s"
    and acc_mass: "acc m e mass x \<Longrightarrow> 0 \<le> mass"
begin

lemma add_product:
  assumes "acc m e E z" "1 \<le> m" "ok x y" "E + \<bar>x * y\<bar> \<le> max_mass" "m < max_depth"
  shows "\<exists>p s. f32_mul x y = Some p \<and> f32_add z p = Some s \<and> acc (Suc m) (e + x * y) (E + \<bar>x * y\<bar>) s"
proof -
  have "\<bar>x * y\<bar> \<le> max_mass" using assms(4) acc_mass [OF assms(1)] by linarith
  then obtain p where p: "f32_mul x y = Some p" "acc 1 (x * y) \<bar>x * y\<bar> p"
    using acc_mul [OF assms(3)] by blast
  have "max m 1 < max_depth" "Suc (max m 1) = Suc m" using assms(2,5) by simp_all
  with acc_add [OF assms(1) p(2) assms(4)] p(1) show ?thesis by fastforce
qed

lemma tail_loop_acc:
  assumes "acc m e E z" "1 \<le> m" "\<forall>j \<in> set js. ok (a ! j) (b ! j)"
    and "E + (\<Sum>j\<leftarrow>js. \<bar>a ! j * b ! j\<bar>) \<le> max_mass" "m + length js \<le> max_depth"
  shows "\<exists>r. tail_loop a b js z = Some r \<and>
    acc (m + length js) (e + (\<Sum>j\<leftarrow>js. a ! j * b ! j)) (E + (\<Sum>j\<leftarrow>js. \<bar>a ! j * b ! j\<bar>)) r"
  using assms
proof (induction js arbitrary: m e E z)
  case (Cons j js)
  have "0 \<le> (\<Sum>j\<leftarrow>js. \<bar>a ! j * b ! j\<bar>)" by (rule sum_list_nonneg) auto
  then have "E + \<bar>a ! j * b ! j\<bar> \<le> max_mass" using Cons.prems(4) by simp
  moreover have "ok (a ! j) (b ! j)" "m < max_depth" using Cons.prems(3,5) by auto
  ultimately obtain p s where s: "f32_mul (a ! j) (b ! j) = Some p" "f32_add z p = Some s"
    "acc (Suc m) (e + a ! j * b ! j) (E + \<bar>a ! j * b ! j\<bar>) s"
    using add_product [OF Cons.prems(1,2)] by blast
  from Cons.IH [OF s(3)] Cons.prems(3-5) s(1,2) show ?case by (simp add: add.assoc)
qed simp

lemma sum_f32_acc:
  assumes "acc m e E z" "m0 \<le> m" "\<forall>k < length xs. acc m0 (f k) (F k) (xs ! k)"
    and "E + (\<Sum>k<length xs. F k) \<le> max_mass" "m + length xs \<le> max_depth"
  shows "\<exists>r. sum_f32 z xs = Some r \<and>
    acc (m + length xs) (e + (\<Sum>k<length xs. f k)) (E + (\<Sum>k<length xs. F k)) r"
  using assms
proof (induction xs arbitrary: m e E z f F)
  case (Cons x xs)
  have x: "acc m0 (f 0) (F 0) x" and xs: "\<forall>k < length xs. acc m0 (f (Suc k)) (F (Suc k)) (xs ! k)"
    using Cons.prems(3) by auto
  have split: "(\<Sum>k<length (x # xs). g k) = g 0 + (\<Sum>k<length xs. g (Suc k))" for g :: "nat \<Rightarrow> rat"
    by (simp only: length_Cons sum.lessThan_Suc_shift)
  have "0 \<le> (\<Sum>k<length xs. F (Suc k))" using xs acc_mass by (intro sum_nonneg) auto
  then have "E + F 0 \<le> max_mass" using Cons.prems(4) unfolding split by linarith
  moreover have "max m m0 < max_depth" "max m m0 = m" using Cons.prems(2,5) by simp_all
  ultimately obtain s where s: "f32_add z x = Some s" "acc (Suc m) (e + f 0) (E + F 0) s"
    using acc_add [OF Cons.prems(1) x] by auto
  have "E + F 0 + (\<Sum>k<length xs. F (Suc k)) \<le> max_mass" "Suc m + length xs \<le> max_depth" "m0 \<le> Suc m"
    using Cons.prems(2,4,5) unfolding split by simp_all
  from Cons.IH [OF s(2) this(3) xs this(1,2)] s(1) show ?case
    unfolding split by (auto simp: add.assoc)
qed simp

lemma lane_loop_acc:
  assumes "distinct ks" "\<forall>k \<in> set ks. k < length z \<and> acc m (f k) (F k) (z ! k) \<and> ok (a ! (i + k)) (b ! (i + k)) \<and>
      F k + \<bar>a ! (i + k) * b ! (i + k)\<bar> \<le> max_mass" "1 \<le> m" "m < max_depth"
  shows "\<exists>z'. lane_loop a b i ks z = Some z' \<and> length z' = length z \<and> (\<forall>k. k \<notin> set ks \<longrightarrow> z' ! k = z ! k) \<and>
    (\<forall>k \<in> set ks. acc (Suc m) (f k + a ! (i + k) * b ! (i + k)) (F k + \<bar>a ! (i + k) * b ! (i + k)\<bar>) (z' ! k))"
  using assms(1,2)
proof (induction ks arbitrary: z)
  case (Cons k ks)
  have k: "acc m (f k) (F k) (z ! k)" "ok (a ! (i + k)) (b ! (i + k))"
    "F k + \<bar>a ! (i + k) * b ! (i + k)\<bar> \<le> max_mass" using Cons.prems(2) by simp_all
  obtain p s where s: "f32_mul (a ! (i + k)) (b ! (i + k)) = Some p" "f32_add (z ! k) p = Some s"
    "acc (Suc m) (f k + a ! (i + k) * b ! (i + k)) (F k + \<bar>a ! (i + k) * b ! (i + k)\<bar>) s"
    using add_product [OF k(1) assms(3) k(2,3) assms(4)] by blast
  have "\<forall>j \<in> set ks. j < length (z[k := s]) \<and> acc m (f j) (F j) (z[k := s] ! j) \<and> ok (a ! (i + j)) (b ! (i + j)) \<and>
      F j + \<bar>a ! (i + j) * b ! (i + j)\<bar> \<le> max_mass"
    using Cons.prems by (auto simp: nth_list_update)
  from Cons.IH [OF _ this] Cons.prems(1) obtain z' where z': "lane_loop a b i ks (z[k := s]) = Some z'"
    "length z' = length z" "\<forall>j. j \<notin> set ks \<longrightarrow> z' ! j = z[k := s] ! j"
    "\<forall>j \<in> set ks. acc (Suc m) (f j + a ! (i + j) * b ! (i + j)) (F j + \<bar>a ! (i + j) * b ! (i + j)\<bar>) (z' ! j)"
    by auto
  moreover have "z' ! k = s" using z'(3) Cons.prems by auto
  ultimately show ?case using s by auto
qed simp

text \<open>The lanes after \<open>t\<close> blocks.\<close>

definition lanes :: "nat \<Rightarrow> nat \<Rightarrow> (nat \<Rightarrow> rat) \<Rightarrow> nat \<Rightarrow> f32 list \<Rightarrow> bool" where
  "lanes m L p t z \<longleftrightarrow> length z = L \<and>
     (\<forall>k < L. acc m (lane_sum L p t k) (lane_sum L (\<lambda>i. \<bar>p i\<bar>) t k) (z ! k))"

lemma lanes_zero: "lanes m L p 0 (replicate L 0)"
  using acc_mono [OF acc_zero] by (simp add: lanes_def)

lemma block_mass:
  assumes "t < q" "k < L" "(\<Sum>i<L * q. \<bar>p i\<bar>) \<le> max_mass"
  shows "lane_sum L (\<lambda>i. \<bar>p i\<bar>) t k + \<bar>p (L * t + k)\<bar> \<le> max_mass" "\<bar>p (L * t + k)\<bar> \<le> max_mass"
proof -
  have "L * Suc t \<le> L * q" using assms(1) by (intro mult_le_mono2) simp
  from lane_mass [OF _ this assms(2), of "\<lambda>i. \<bar>p i\<bar>"] assms(3)
  show 1: "lane_sum L (\<lambda>i. \<bar>p i\<bar>) t k + \<bar>p (L * t + k)\<bar> \<le> max_mass"
    by (simp add: lane_sum_Suc)
  have "0 \<le> lane_sum L (\<lambda>i. \<bar>p i\<bar>) t k" by (auto simp: lane_sum_def intro: sum_nonneg)
  with 1 show "\<bar>p (L * t + k)\<bar> \<le> max_mass" by linarith
qed

lemma block_index: "t < q \<Longrightarrow> k < L \<Longrightarrow> L * t + k < L * (q :: nat)"
proof -
  assume "t < q" "k < L"
  then have "L * t + k < L * Suc t" by simp
  also have "\<dots> \<le> L * q" using \<open>t < q\<close> by (intro mult_le_mono2) simp
  finally show ?thesis .
qed

lemma hint_loop_acc:
  fixes a b :: "f32 list"
  defines "p \<equiv> \<lambda>j. a ! j * b ! j"
  assumes "\<forall>j < 8 * q. ok (a ! j) (b ! j)" "(\<Sum>i<8 * q. \<bar>p i\<bar>) \<le> max_mass" "Suc q < max_depth"
    and "lanes (Suc t) 8 p t z" "t \<le> q"
  shows "\<exists>z'. hint_loop a b (8 * q) (8 * t) z = Some z' \<and> lanes (Suc q) 8 p q z'"
  using assms(5,6)
proof (induction "q - t" arbitrary: t z)
  case 0
  then show ?case by (simp add: hint_loop.simps)
next
  case (Suc d)
  then have t: "t < q" by simp
  have "\<forall>k \<in> set [0..<8]. k < length z \<and>
      acc (Suc t) (lane_sum 8 p t k) (lane_sum 8 (\<lambda>i. \<bar>p i\<bar>) t k) (z ! k) \<and>
      ok (a ! (8 * t + k)) (b ! (8 * t + k)) \<and>
      lane_sum 8 (\<lambda>i. \<bar>p i\<bar>) t k + \<bar>a ! (8 * t + k) * b ! (8 * t + k)\<bar> \<le> max_mass"
    using Suc.prems(1) assms(2) block_index [OF t, of _ 8] block_mass(1) [OF t _ assms(3)]
    by (auto simp: lanes_def p_def)
  from lane_loop_acc [OF _ this] t assms(4) obtain z' where z': "lane_loop a b (8 * t) [0..<8] z = Some z'"
    "length z' = length z"
    "\<forall>k \<in> set [0..<8]. acc (Suc (Suc t)) (lane_sum 8 p t k + a ! (8 * t + k) * b ! (8 * t + k))
       (lane_sum 8 (\<lambda>i. \<bar>p i\<bar>) t k + \<bar>a ! (8 * t + k) * b ! (8 * t + k)\<bar>) (z' ! k)"
    by auto
  then have "lanes (Suc (Suc t)) 8 p (Suc t) z'"
    using Suc.prems(1) by (simp add: lanes_def lane_sum_Suc p_def)
  from Suc.hyps(1) [OF _ this] Suc.hyps(2) t z'(1) show ?case
    by (subst hint_loop.simps) (simp add: add.commute [of 8])
qed

lemma sse2_loop_acc:
  fixes a b :: "f32 list"
  defines "p \<equiv> \<lambda>j. a ! j * b ! j"
  assumes "\<forall>j < 4 * q. ok (a ! j) (b ! j)" "(\<Sum>i<4 * q. \<bar>p i\<bar>) \<le> max_mass" "Suc q < max_depth"
    and "lanes (Suc t) 4 p t z" "t \<le> q"
  shows "\<exists>z'. sse2_loop a b (4 * q) (4 * t) z = Some z' \<and> lanes (Suc q) 4 p q z'"
  using assms(5,6)
proof (induction "q - t" arbitrary: t z)
  case 0
  then show ?case by (simp add: sse2_loop.simps)
next
  case (Suc d)
  then have t: "t < q" by simp
  note mass = block_mass [OF t _ assms(3)]
  have "\<forall>k < length (load4 a (4 * t)). \<exists>r. f32_mul (load4 a (4 * t) ! k) (load4 b (4 * t) ! k) = Some r \<and>
      acc 1 (p (4 * t + k)) \<bar>p (4 * t + k)\<bar> r"
    using acc_mul assms(2) block_index [OF t, of _ 4] mass(2) by (simp add: p_def)
  from lanewise_all [OF this] obtain prod where prod:
    "lanewise f32_mul (load4 a (4 * t)) (load4 b (4 * t)) = Some prod" "length prod = 4"
    "\<forall>k < 4. acc 1 (p (4 * t + k)) \<bar>p (4 * t + k)\<bar> (prod ! k)" by auto
  have z: "length z = 4" using Suc.prems(1) by (simp add: lanes_def)
  have "\<forall>k < length z. \<exists>r. f32_add (z ! k) (prod ! k) = Some r \<and>
      acc (Suc (Suc t)) (lane_sum 4 p t k + p (4 * t + k)) (lane_sum 4 (\<lambda>i. \<bar>p i\<bar>) t k + \<bar>p (4 * t + k)\<bar>) r"
  proof (intro allI impI)
    fix k assume "k < length z"
    then have k: "k < 4" by (simp add: z)
    have "acc (Suc t) (lane_sum 4 p t k) (lane_sum 4 (\<lambda>i. \<bar>p i\<bar>) t k) (z ! k)"
      using Suc.prems(1) k by (simp add: lanes_def)
    from acc_add [OF this prod(3) [rule_format, OF k] mass(1) [OF k]] t assms(4)
    show "\<exists>r. f32_add (z ! k) (prod ! k) = Some r \<and>
      acc (Suc (Suc t)) (lane_sum 4 p t k + p (4 * t + k)) (lane_sum 4 (\<lambda>i. \<bar>p i\<bar>) t k + \<bar>p (4 * t + k)\<bar>) r"
      by simp
  qed
  from lanewise_all [OF this] prod(2) z obtain z' where z': "lanewise f32_add z prod = Some z'" "length z' = 4"
    "\<forall>k < 4. acc (Suc (Suc t)) (lane_sum 4 p t k + p (4 * t + k)) (lane_sum 4 (\<lambda>i. \<bar>p i\<bar>) t k + \<bar>p (4 * t + k)\<bar>) (z' ! k)"
    by auto
  then have "lanes (Suc (Suc t)) 4 p (Suc t) z'" by (simp add: lanes_def lane_sum_Suc)
  from Suc.hyps(1) [OF _ this] Suc.hyps(2) t z'(1) prod(1) show ?case
    by (subst sse2_loop.simps) (simp add: add.commute [of 4])
qed

lemma neon_loop_acc:
  fixes a b :: "f32 list"
  defines "p \<equiv> \<lambda>j. a ! j * b ! j"
  assumes "\<forall>j < 4 * q. ok (a ! j) (b ! j)" "(\<Sum>i<4 * q. \<bar>p i\<bar>) \<le> max_mass" "Suc q < max_depth"
    and "lanes t 4 p t z" "t \<le> q"
  shows "\<exists>z'. neon_loop a b (4 * q) (4 * t) z = Some z' \<and> lanes q 4 p q z'"
  using assms(5,6)
proof (induction "q - t" arbitrary: t z)
  case 0
  then show ?case by (simp add: neon_loop.simps)
next
  case (Suc d)
  then have t: "t < q" by simp
  have z: "length z = 4" using Suc.prems(1) by (simp add: lanes_def)
  have "\<forall>k < length z. \<exists>r. f32_fma (z ! k) (load4 a (4 * t) ! k) (load4 b (4 * t) ! k) = Some r \<and>
      acc (Suc t) (lane_sum 4 p t k + p (4 * t + k)) (lane_sum 4 (\<lambda>i. \<bar>p i\<bar>) t k + \<bar>p (4 * t + k)\<bar>) r"
  proof (intro allI impI)
    fix k assume "k < length z"
    then have k: "k < 4" by (simp add: z)
    have "acc t (lane_sum 4 p t k) (lane_sum 4 (\<lambda>i. \<bar>p i\<bar>) t k) (z ! k)"
      using Suc.prems(1) k by (simp add: lanes_def)
    from acc_fma [OF this, of "a ! (4 * t + k)" "b ! (4 * t + k)"] t assms(4)
      assms(2) block_index [OF t k] block_mass(1) [OF t k assms(3)] k
    show "\<exists>r. f32_fma (z ! k) (load4 a (4 * t) ! k) (load4 b (4 * t) ! k) = Some r \<and>
      acc (Suc t) (lane_sum 4 p t k + p (4 * t + k)) (lane_sum 4 (\<lambda>i. \<bar>p i\<bar>) t k + \<bar>p (4 * t + k)\<bar>) r"
      by (simp add: p_def)
  qed
  from lanewise_fma_all [OF this] z obtain z' where z':
    "lanewise_fma z (load4 a (4 * t)) (load4 b (4 * t)) = Some z'" "length z' = 4"
    "\<forall>k < 4. acc (Suc t) (lane_sum 4 p t k + p (4 * t + k)) (lane_sum 4 (\<lambda>i. \<bar>p i\<bar>) t k + \<bar>p (4 * t + k)\<bar>) (z' ! k)"
    by auto
  then have "lanes (Suc t) 4 p (Suc t) z'" by (simp add: lanes_def lane_sum_Suc)
  from Suc.hyps(1) [OF _ this] Suc.hyps(2) t z'(1) show ?case
    by (subst neon_loop.simps) (simp add: add.commute [of 4])
qed

lemma tail_of_vector:
  fixes a b :: "f32 list"
  defines "p \<equiv> \<lambda>j. a ! j * b ! j"
  assumes "acc m (\<Sum>i<c. p i) (\<Sum>i<c. \<bar>p i\<bar>) z" "1 \<le> m" "c \<le> n" "m + (n - c) \<le> max_depth"
    and "\<forall>j < n. ok (a ! j) (b ! j)" "(\<Sum>i<n. \<bar>p i\<bar>) \<le> max_mass"
  shows "\<exists>r. tail_loop a b [c..<n] z = Some r \<and> acc (m + (n - c)) (\<Sum>i<n. p i) (\<Sum>i<n. \<bar>p i\<bar>) r"
  using tail_loop_acc [OF assms(2,3), of "[c..<n]" a b] assms(4-7)
    tail_total [OF assms(4), of p] tail_total [OF assms(4), of "\<lambda>i. \<bar>p i\<bar>"]
  by (simp add: p_def)

lemma dot_product_naif_acc:
  assumes "length b = length a" "\<forall>j < length a. ok (a ! j) (b ! j)" "dot_mass a b \<le> max_mass"
    and "length a < max_depth"
  shows "\<exists>r. dot_product_naif a b = Inr r \<and> acc (Suc (length a)) (exact_dot a b) (dot_mass a b) r"
proof -
  have "acc 1 (\<Sum>i<0. a ! i * b ! i) (\<Sum>i<0. \<bar>a ! i * b ! i\<bar>) 0"
    using acc_mono [OF acc_zero, of 1] by simp
  from tail_of_vector [OF this, of "length a"] assms(2-4) obtain r where
    "tail_loop a b [0..<length a] 0 = Some r" "acc (Suc (length a)) (exact_dot a b) (dot_mass a b) r"
    by (auto simp: exact_dot_def dot_mass_def)
  then show ?thesis
    by (simp add: dot_product_naif_def checked_def assms(1) zip_indices [OF assms(1)] sum_products_tail)
qed

lemma dot_product_hint_acc:
  assumes "length b = length a" "\<forall>j < length a. ok (a ! j) (b ! j)" "dot_mass a b \<le> max_mass"
    and "length a + 9 < max_depth"
  shows "\<exists>r. dot_product_hint a b = Inr r \<and>
    acc (length a div 8 + 9 + length a mod 8) (exact_dot a b) (dot_mass a b) r"
proof -
  let ?n = "length a" and ?q = "length a div 8" and ?p = "\<lambda>j. a ! j * b ! j"
  have c: "8 * ?q \<le> ?n" "?n - ?n mod 8 = 8 * ?q" "?n - 8 * ?q = ?n mod 8"
    using minus_mod_eq_mult_div [of ?n 8] by (simp_all add: minus_mult_div_eq_mod)
  have mass: "(\<Sum>i<8 * ?q. \<bar>?p i\<bar>) \<le> max_mass"
    using assms(3) sum_mono2 [of "{..<?n}" "{..<8 * ?q}" "\<lambda>i. \<bar>?p i\<bar>"] c(1)
    by (fastforce simp: dot_mass_def)
  have "?q \<le> ?n" by simp
  with hint_loop_acc [OF _ mass _ lanes_zero [of "Suc 0"]] assms(2,4) c(1) obtain z where
    z: "hint_loop a b (8 * ?q) 0 (replicate 8 0) = Some z" "lanes (Suc ?q) 8 ?p ?q z" by fastforce
  have len: "length z = 8" using z(2) by (simp add: lanes_def)
  have "\<exists>r. sum_f32 0 z = Some r \<and> acc (Suc ?q + length z)
      (0 + (\<Sum>k<length z. lane_sum 8 ?p ?q k)) (0 + (\<Sum>k<length z. lane_sum 8 (\<lambda>i. \<bar>?p i\<bar>) ?q k)) r"
    by (rule sum_f32_acc [OF acc_mono [OF acc_zero] order.refl])
       (use z(2) mass assms(4) \<open>?q \<le> ?n\<close> in \<open>simp_all add: lanes_def lanes_total\<close>)
  then obtain s where s: "sum_f32 0 z = Some s"
    "acc (?q + 9) (\<Sum>i<8 * ?q. ?p i) (\<Sum>i<8 * ?q. \<bar>?p i\<bar>) s"
    by (auto simp: len lanes_total add.commute [of 9])
  have "?q + 9 + ?n mod 8 \<le> max_depth"
    using assms(4) c(1) mod_less_eq_dividend [of ?n 8] by linarith
  with tail_of_vector [OF s(2) _ c(1)] assms(2,3) obtain r where
    "tail_loop a b [8 * ?q..<?n] s = Some r" "acc (?q + 9 + ?n mod 8) (exact_dot a b) (dot_mass a b) r"
    unfolding c(3) by (auto simp: exact_dot_def dot_mass_def)
  with z(1) s(1) show ?thesis
    by (simp add: dot_product_hint_def checked_def assms(1) Let_def c(2))
qed

lemma dot_product_simd_x86_64_acc:
  assumes "length b = length a" "\<forall>j < length a. ok (a ! j) (b ! j)" "dot_mass a b \<le> max_mass"
    and "length a + 9 < max_depth"
  shows "\<exists>r. dot_product_simd_x86_64 a b = Inr r \<and>
    acc (length a div 4 + 4 + length a mod 4) (exact_dot a b) (dot_mass a b) r"
proof -
  let ?n = "length a" and ?q = "length a div 4" and ?p = "\<lambda>j. a ! j * b ! j"
  have c: "4 * ?q \<le> ?n" "?n - ?n mod 4 = 4 * ?q" "?n - 4 * ?q = ?n mod 4"
    using minus_mod_eq_mult_div [of ?n 4] by (simp_all add: minus_mult_div_eq_mod)
  have mass: "(\<Sum>i<4 * ?q. \<bar>?p i\<bar>) \<le> max_mass"
    using assms(3) sum_mono2 [of "{..<?n}" "{..<4 * ?q}" "\<lambda>i. \<bar>?p i\<bar>"] c(1)
    by (fastforce simp: dot_mass_def)
  have "?q \<le> ?n" by simp
  with sse2_loop_acc [OF _ mass _ lanes_zero [of "Suc 0"]] assms(2,4) c(1) obtain z where
    z: "sse2_loop a b (4 * ?q) 0 (replicate 4 0) = Some z" "lanes (Suc ?q) 4 ?p ?q z" by fastforce
  have lane: "acc (Suc ?q) (lane_sum 4 ?p ?q k) (lane_sum 4 (\<lambda>i. \<bar>?p i\<bar>) ?q k) (z ! k)" if "k < 4" for k
    using z(2) that by (simp add: lanes_def)
  have split: "(\<Sum>i<4 * ?q. g i) = lane_sum 4 g ?q 0 + (\<Sum>k<3. lane_sum 4 g ?q (Suc k))" for g
    unfolding lanes_total [symmetric] using sum.lessThan_Suc_shift [of "lane_sum 4 g ?q" 3] by simp
  have summed: "\<exists>r. sum_f32 (z ! 0) [z ! 1, z ! 2, z ! 3] = Some r \<and> acc (Suc ?q + length [z ! 1, z ! 2, z ! 3])
      (lane_sum 4 ?p ?q 0 + (\<Sum>k<length [z ! 1, z ! 2, z ! 3]. lane_sum 4 ?p ?q (Suc k)))
      (lane_sum 4 (\<lambda>i. \<bar>?p i\<bar>) ?q 0 + (\<Sum>k<length [z ! 1, z ! 2, z ! 3]. lane_sum 4 (\<lambda>i. \<bar>?p i\<bar>) ?q (Suc k))) r"
  proof (rule sum_f32_acc [OF lane order.refl])
    show "\<forall>k < length [z ! 1, z ! 2, z ! 3].
        acc (Suc ?q) (lane_sum 4 ?p ?q (Suc k)) (lane_sum 4 (\<lambda>i. \<bar>?p i\<bar>) ?q (Suc k)) ([z ! 1, z ! 2, z ! 3] ! k)"
    proof (intro allI impI)
      fix k assume "k < length [z ! 1, z ! 2, z ! 3]"
      then have "Suc k < 4" "[z ! 1, z ! 2, z ! 3] ! k = z ! Suc k" by (auto simp: less_Suc_eq nth_Cons' numeral_2_eq_2 numeral_3_eq_3)
      with lane [of "Suc k"]
      show "acc (Suc ?q) (lane_sum 4 ?p ?q (Suc k)) (lane_sum 4 (\<lambda>i. \<bar>?p i\<bar>) ?q (Suc k)) ([z ! 1, z ! 2, z ! 3] ! k)"
        by simp
    qed
    show "lane_sum 4 (\<lambda>i. \<bar>?p i\<bar>) ?q 0 + (\<Sum>k<length [z ! 1, z ! 2, z ! 3]. lane_sum 4 (\<lambda>i. \<bar>?p i\<bar>) ?q (Suc k)) \<le> max_mass"
      using mass unfolding split by (simp add: numeral_3_eq_3)
  qed (use assms(4) \<open>?q \<le> ?n\<close> in simp_all)
  have count: "length [z ! 1, z ! 2, z ! 3] = 3" "Suc ?q + 3 = ?q + 4" by simp_all
  obtain s where s: "sum_f32 (z ! 0) [z ! 1, z ! 2, z ! 3] = Some s"
    "acc (?q + 4) (\<Sum>i<4 * ?q. ?p i) (\<Sum>i<4 * ?q. \<bar>?p i\<bar>) s"
    using summed unfolding count split by blast
  have "?q + 4 + ?n mod 4 \<le> max_depth"
    using assms(4) c(1) mod_less_eq_dividend [of ?n 4] by linarith
  with tail_of_vector [OF s(2) _ c(1)] assms(2,3) obtain r where
    "tail_loop a b [4 * ?q..<?n] s = Some r" "acc (?q + 4 + ?n mod 4) (exact_dot a b) (dot_mass a b) r"
    unfolding c(3) by (auto simp: exact_dot_def dot_mass_def)
  with z(1) s(1) show ?thesis
    by (simp add: dot_product_simd_x86_64_def checked_def assms(1) Let_def c(2) del: sum_f32.simps)
qed

lemma vaddvq_acc:
  assumes "\<forall>k < 4. acc m (f k) (F k) (z ! k)" "(\<Sum>k<4. F k) \<le> max_mass" "Suc m < max_depth"
  shows "\<exists>s. vaddvq_f32 z = Some s \<and> acc (m + 2) (\<Sum>k<4. f k) (\<Sum>k<4. F k) s"
proof -
  have split: "(\<Sum>k<4. g k) = (g 0 + g 1) + (g 2 + g 3)" for g :: "nat \<Rightarrow> rat"
    by (simp add: numeral_eq_Suc)
  have pos: "0 \<le> F k" if "k < 4" for k using assms(1) that acc_mass by blast
  have "F 0 + F 1 \<le> max_mass" "F 2 + F 3 \<le> max_mass"
    using assms(2) pos [of 0] pos [of 1] pos [of 2] pos [of 3] unfolding split by simp_all
  with assms(1,3) obtain s t where
    "f32_add (z ! 0) (z ! 1) = Some s" and s: "acc (Suc m) (f 0 + f 1) (F 0 + F 1) s" and
    "f32_add (z ! 2) (z ! 3) = Some t" and t: "acc (Suc m) (f 2 + f 3) (F 2 + F 3) t"
    using acc_add [of m "f 0" "F 0" "z ! 0" m "f 1" "F 1" "z ! 1"]
      acc_add [of m "f 2" "F 2" "z ! 2" m "f 3" "F 3" "z ! 3"] by auto
  with acc_add [OF s t] assms(2,3) show ?thesis
    unfolding split by (simp add: vaddvq_f32_def)
qed

lemma dot_product_simd_aarch64_acc:
  assumes "length b = length a" "\<forall>j < length a. ok (a ! j) (b ! j)" "dot_mass a b \<le> max_mass"
    and "length a + 9 < max_depth"
  shows "\<exists>r. dot_product_simd_aarch64 a b = Inr r \<and>
    acc (length a div 4 + 2 + length a mod 4) (exact_dot a b) (dot_mass a b) r"
proof -
  let ?n = "length a" and ?q = "length a div 4" and ?p = "\<lambda>j. a ! j * b ! j"
  have c: "4 * ?q \<le> ?n" "?n - ?n mod 4 = 4 * ?q" "?n - 4 * ?q = ?n mod 4"
    using minus_mod_eq_mult_div [of ?n 4] by (simp_all add: minus_mult_div_eq_mod)
  have mass: "(\<Sum>i<4 * ?q. \<bar>?p i\<bar>) \<le> max_mass"
    using assms(3) sum_mono2 [of "{..<?n}" "{..<4 * ?q}" "\<lambda>i. \<bar>?p i\<bar>"] c(1)
    by (fastforce simp: dot_mass_def)
  have "?q \<le> ?n" by simp
  with neon_loop_acc [OF _ mass _ lanes_zero [of 0]] assms(2,4) c(1) obtain z where
    z: "neon_loop a b (4 * ?q) 0 (replicate 4 0) = Some z" "lanes ?q 4 ?p ?q z" by fastforce
  have "\<forall>k < 4. acc ?q (lane_sum 4 ?p ?q k) (lane_sum 4 (\<lambda>i. \<bar>?p i\<bar>) ?q k) (z ! k)"
    using z(2) by (simp add: lanes_def)
  from vaddvq_acc [OF this] mass assms(4) \<open>?q \<le> ?n\<close> obtain s where s: "vaddvq_f32 z = Some s"
    "acc (?q + 2) (\<Sum>i<4 * ?q. ?p i) (\<Sum>i<4 * ?q. \<bar>?p i\<bar>) s"
    by (auto simp: lanes_total)
  have "?q + 2 + ?n mod 4 \<le> max_depth"
    using assms(4) c(1) mod_less_eq_dividend [of ?n 4] by linarith
  with tail_of_vector [OF s(2) _ c(1)] assms(2,3) obtain r where
    "tail_loop a b [4 * ?q..<?n] s = Some r" "acc (?q + 2 + ?n mod 4) (exact_dot a b) (dot_mass a b) r"
    unfolding c(3) by (auto simp: exact_dot_def dot_mass_def)
  with z(1) s(1) show ?thesis
    by (simp add: dot_product_simd_aarch64_def checked_def assms(1) Let_def c(2))
qed

end

section \<open>Rounding to single precision\<close>

definition r32 :: "rat \<Rightarrow> rat" where
  "r32 x = sgn x * rnd_bits 24 (- 126) \<bar>x\<bar>"

lemma rnd32_r32: "\<bar>r32 x\<bar> < 2 ^ 128 \<Longrightarrow> rnd32 x = Some (r32 x)"
  by (simp add: rnd32_def r32_def Let_def)

lemma rnd32_eq_Some: "rnd32 x = Some r \<longleftrightarrow> \<bar>r32 x\<bar> < 2 ^ 128 \<and> r = r32 x"
  by (auto simp: rnd32_def r32_def Let_def)

lemma r32_0 [simp]: "r32 0 = 0"
  by (simp add: r32_def)

text \<open>The unit roundoff, and the grid of the subnormal numbers, on which every \<open>f32\<close> lies.\<close>

definition unit_roundoff :: rat where
  "unit_roundoff = 1 / 16777216"

definition on_grid :: "rat \<Rightarrow> bool" where
  "on_grid x \<longleftrightarrow> (\<exists>i. x = of_int i * 2 powi - 149)"

lemma r32_error_split: "\<bar>r32 x - x\<bar> = \<bar>rnd_bits 24 (- 126) \<bar>x\<bar> - \<bar>x\<bar>\<bar>"
proof -
  have "r32 x - x = sgn x * (rnd_bits 24 (- 126) \<bar>x\<bar> - \<bar>x\<bar>)"
    by (simp add: r32_def right_diff_distrib mult_sgn_abs)
  then show ?thesis by (cases "x = 0") (simp_all add: abs_mult abs_sgn_eq rnd_bits_def)
qed

lemma r32_relative: "x = 0 \<or> 2 powi - 126 \<le> \<bar>x\<bar> \<Longrightarrow> \<bar>r32 x - x\<bar> \<le> unit_roundoff * \<bar>x\<bar>"
proof (cases "x = 0")
  case False
  assume "x = 0 \<or> 2 powi - 126 \<le> \<bar>x\<bar>"
  with False have "\<bar>rnd_bits 24 (- 126) \<bar>x\<bar> - \<bar>x\<bar>\<bar> \<le> \<bar>x\<bar> * 2 powi (- 24)"
    by (intro rnd_bits_relative) simp
  also have "(2 :: rat) powi (- 24) = unit_roundoff"
    by (simp add: unit_roundoff_def power_int_def power_divide)
  finally show ?thesis by (simp add: r32_error_split mult.commute)
qed simp

lemma r32_absolute: "\<bar>x\<bar> < 2 powi - 126 \<Longrightarrow> \<bar>r32 x - x\<bar> \<le> unit_roundoff * 2 powi - 126"
proof -
  assume small: "\<bar>x\<bar> < 2 powi - 126"
  have "\<bar>rnd_bits 24 (- 126) \<bar>x\<bar> - \<bar>x\<bar>\<bar> \<le> 2 powi (- 126 - 24)"
    by (rule rnd_bits_error) (use small power_int_increasing [of "- 126" "- 125" "2 :: rat"] in simp_all)
  also have "(2 :: rat) powi (- 126 - 24) = unit_roundoff * 2 powi - 126"
    by (simp add: unit_roundoff_def power_int_def power_divide)
  finally show ?thesis by (simp add: r32_error_split)
qed

lemma r32_representable:
  assumes "\<bar>i\<bar> \<le> 2 ^ 24" "- 149 \<le> k"
  shows "r32 (of_int i * 2 powi k) = of_int i * 2 powi k"
proof (cases "i = 0")
  case False
  have "rnd_bits 24 (- 126) (of_int \<bar>i\<bar> * 2 powi k) = of_int \<bar>i\<bar> * 2 powi k"
    using assms False by (intro rnd_bits_representable) simp_all
  moreover have "\<bar>of_int i * 2 powi k :: rat\<bar> = of_int \<bar>i\<bar> * 2 powi k" by (simp add: abs_mult)
  ultimately show ?thesis unfolding r32_def by (metis sgn_mult_abs)
qed simp

lemma on_grid_0 [simp]: "on_grid 0"
  unfolding on_grid_def by (rule exI [of _ 0]) simp

lemma on_grid_add: "on_grid x \<Longrightarrow> on_grid y \<Longrightarrow> on_grid (x + y)"
  unfolding on_grid_def by (metis distrib_right of_int_add)

lemma on_grid_uminus: "on_grid x \<Longrightarrow> on_grid (- x)"
  unfolding on_grid_def by (metis mult_minus_left of_int_minus)

lemma on_gridI: "- 149 \<le> k \<Longrightarrow> on_grid (of_int i * 2 powi k)"
proof -
  assume k: "- 149 \<le> k"
  have "(2 :: rat) powi k = 2 powi (k + 149) * 2 powi - 149"
    using power_int_add [of "2 :: rat" "k + 149" "- 149"] by simp
  also have "(2 :: rat) powi (k + 149) = of_int (2 ^ nat (k + 149))" using k by (simp add: power_int_def)
  finally show ?thesis unfolding on_grid_def by (metis mult.assoc of_int_mult)
qed

lemma on_grid_r32: "on_grid (r32 x)"
proof (cases "x = 0")
  case False
  then obtain i k where "rnd_bits 24 (- 126) \<bar>x\<bar> = of_int i * 2 powi k" "- 149 \<le> k"
    using rnd_bits_form [of "\<bar>x\<bar>" 24 "- 126"] by auto
  then have "on_grid (rnd_bits 24 (- 126) \<bar>x\<bar>)" by (simp add: on_gridI)
  then show ?thesis using False on_grid_uminus by (auto simp: r32_def sgn_if)
qed simp

lemma on_grid_f32: "is_f32 x \<Longrightarrow> on_grid x"
  using on_grid_r32 [of x] by (auto simp: is_f32_def rnd32_eq_Some)

text \<open>On the grid nothing is lost below the normal numbers.\<close>

lemma r32_on_grid: "on_grid x \<Longrightarrow> \<bar>r32 x - x\<bar> \<le> unit_roundoff * \<bar>x\<bar>"
proof -
  assume "on_grid x"
  then obtain i where i: "x = of_int i * 2 powi - 149" by (auto simp: on_grid_def)
  show ?thesis
  proof (cases "\<bar>x\<bar> < 2 powi - 126")
    case True
    have "\<bar>rat_of_int i\<bar> * 2 powi - 149 < 2 ^ 23 * 2 powi - 149"
      using True by (simp add: i abs_mult power_int_def power_divide)
    then have "\<bar>rat_of_int i\<bar> < of_int (2 ^ 23)" by simp
    then have "\<bar>i\<bar> < 2 ^ 23" by (simp only: of_int_abs [symmetric] of_int_less_iff)
    then have "r32 x = x" unfolding i by (intro r32_representable) simp_all
    then show ?thesis by (simp add: unit_roundoff_def)
  next
    case False
    then show ?thesis by (intro r32_relative) simp
  qed
qed

section \<open>The error bound\<close>

definition growth :: "nat \<Rightarrow> rat" where
  "growth m = (1 + unit_roundoff) ^ m"

lemma growth_simps [simp]: "growth 0 = 1" "growth (Suc m) = growth m + unit_roundoff * growth m"
  by (simp_all add: growth_def algebra_simps)

lemma unit_roundoff_pos [simp]: "0 < unit_roundoff" "0 \<le> unit_roundoff"
  by (simp_all add: unit_roundoff_def)

lemma growth_mono: "m \<le> n \<Longrightarrow> growth m \<le> growth n"
  by (simp add: growth_def power_increasing)

lemma growth_ge_1: "1 \<le> growth m"
  using growth_mono [of 0 m] by simp

text \<open>Bernoulli's inequality from above.\<close>

lemma growth_le: "growth m * (1 - of_nat m * unit_roundoff) \<le> 1"
proof (induction m)
  case (Suc m)
  let ?u = "unit_roundoff" and ?t = "of_nat m * unit_roundoff"
  have "growth (Suc m) * (1 - of_nat (Suc m) * ?u) = growth m * ((1 + ?u) * (1 - ?t - ?u))"
    by (simp add: algebra_simps)
  also have "(1 + ?u) * (1 - ?t - ?u) \<le> 1 - ?t"
  proof -
    have "0 \<le> ?u * ?t" "0 \<le> ?u * ?u" by simp_all
    then show ?thesis by (simp add: algebra_simps)
  qed
  then have "growth m * ((1 + ?u) * (1 - ?t - ?u)) \<le> growth m * (1 - ?t)"
    using growth_ge_1 [of m] by (intro mult_left_mono) simp_all
  also have "\<dots> \<le> 1" by (rule Suc)
  finally show ?case .
qed simp

definition near :: "nat \<Rightarrow> rat \<Rightarrow> rat \<Rightarrow> f32 \<Rightarrow> bool" where
  "near m e mass x \<longleftrightarrow> on_grid x \<and> \<bar>x - e\<bar> \<le> (growth m - 1) * mass \<and> \<bar>e\<bar> \<le> mass"

definition product_normal :: "f32 \<Rightarrow> f32 \<Rightarrow> bool" where
  "product_normal x y \<longleftrightarrow> is_f32 x \<and> is_f32 y \<and> (x * y = 0 \<or> 2 powi - 126 \<le> \<bar>x * y\<bar>)"

lemma near_mass: "near m e mass x \<Longrightarrow> 0 \<le> mass"
  by (auto simp: near_def intro: order_trans [OF abs_ge_zero])

lemma growth_cap: "m \<le> 2 ^ 23 \<Longrightarrow> growth m \<le> 2"
proof -
  assume "m \<le> 2 ^ 23"
  then have "growth m \<le> growth (2 ^ 23)" by (rule growth_mono)
  moreover have "growth (2 ^ 23) * (1 - of_nat (2 ^ 23) * unit_roundoff) \<le> 1" by (rule growth_le)
  then have "growth (2 ^ 23) \<le> 2" by (simp add: unit_roundoff_def)
  ultimately show ?thesis by linarith
qed

text \<open>One more rounding, whose error is relative to a sum already bounded.\<close>

lemma near_round:
  assumes "\<bar>s - e\<bar> \<le> (growth m - 1) * mass" "\<bar>e\<bar> \<le> mass"
    and "\<bar>r32 s - s\<bar> \<le> unit_roundoff * (growth m * mass)" "mass \<le> 2 ^ 126" "m < 2 ^ 23"
  shows "rnd32 s = Some (r32 s) \<and> near (Suc m) e mass (r32 s)"
proof -
  have mass: "0 \<le> mass" using assms(2) by linarith
  have err: "\<bar>r32 s - e\<bar> \<le> (growth (Suc m) - 1) * mass"
    using assms(1,3) by (simp add: algebra_simps)
  have "\<bar>r32 s\<bar> \<le> \<bar>r32 s - e\<bar> + \<bar>e\<bar>" by linarith
  also have "\<dots> \<le> growth (Suc m) * mass" using err assms(2) by (simp add: algebra_simps)
  also have "\<dots> \<le> 2 * 2 ^ 126"
    using growth_cap [of "Suc m"] assms(4,5) mass growth_ge_1 [of "Suc m"] by (intro mult_mono) simp_all
  finally have "\<bar>r32 s\<bar> < 2 ^ 128" by simp
  then show ?thesis
    using rnd32_r32 err assms(2) on_grid_r32 by (simp add: near_def)
qed

lemma near_size: "near m e mass x \<Longrightarrow> \<bar>x\<bar> \<le> growth m * mass"
  by (auto simp: near_def algebra_simps)

lemma near_add:
  assumes "near m e E x" "near n f F y" "E + F \<le> 2 ^ 126" "max m n < 2 ^ 23"
  shows "\<exists>s. f32_add x y = Some s \<and> near (Suc (max m n)) (e + f) (E + F) s"
proof -
  let ?M = "max m n"
  have mass: "0 \<le> E" "0 \<le> F" using assms(1,2) near_mass by blast+
  have M: "growth m \<le> growth ?M" "growth n \<le> growth ?M" by (simp_all add: growth_mono)
  have "(growth m - 1) * E \<le> (growth ?M - 1) * E" "(growth n - 1) * F \<le> (growth ?M - 1) * F"
    using M mass by (simp_all add: mult_right_mono)
  with assms(1,2) have "\<bar>x + y - (e + f)\<bar> \<le> (growth ?M - 1) * (E + F)"
    unfolding near_def distrib_left by linarith
  moreover have "\<bar>e + f\<bar> \<le> E + F" using assms(1,2) by (auto simp: near_def)
  moreover have "\<bar>r32 (x + y) - (x + y)\<bar> \<le> unit_roundoff * (growth ?M * (E + F))"
  proof -
    have "on_grid (x + y)" using assms(1,2) by (auto simp: near_def intro: on_grid_add)
    from r32_on_grid [OF this] have "\<bar>r32 (x + y) - (x + y)\<bar> \<le> unit_roundoff * \<bar>x + y\<bar>" .
    also have "\<bar>x + y\<bar> \<le> growth m * E + growth n * F"
      using near_size [OF assms(1)] near_size [OF assms(2)] by linarith
    also have "\<dots> \<le> growth ?M * (E + F)"
      unfolding distrib_left using M mass by (intro add_mono mult_right_mono)
    finally show ?thesis by (simp add: mult_left_mono)
  qed
  ultimately show ?thesis
    using near_round [OF _ _ _ assms(3,4)] unfolding f32_add_def by blast
qed

lemma near_mul:
  assumes "product_normal x y" "\<bar>x * y\<bar> \<le> 2 ^ 126"
  shows "\<exists>p. f32_mul x y = Some p \<and> near 1 (x * y) \<bar>x * y\<bar> p"
  using near_round [of "x * y" "x * y" 0 "\<bar>x * y\<bar>"] r32_relative [of "x * y"] assms
  by (simp add: f32_mul_def product_normal_def)

lemma near_fma:
  assumes "near m e E z" "product_normal x y" "E + \<bar>x * y\<bar> \<le> 2 ^ 126" "m < 2 ^ 23"
  shows "\<exists>s. f32_fma z x y = Some s \<and> near (Suc m) (e + x * y) (E + \<bar>x * y\<bar>) s"
proof -
  let ?F = "\<bar>x * y\<bar>" and ?s = "z + x * y"
  have mass: "0 \<le> E" using assms(1) by (rule near_mass)
  have F: "?F \<le> growth m * ?F"
    using mult_right_mono [OF growth_ge_1, of ?F m] by simp
  have size: "\<bar>?s\<bar> \<le> growth m * (E + ?F)"
    using near_size [OF assms(1)] F unfolding distrib_left by linarith
  have "\<bar>r32 ?s - ?s\<bar> \<le> unit_roundoff * (growth m * (E + ?F))"
  proof (cases "2 powi - 126 \<le> \<bar>?s\<bar> \<or> x * y = 0")
    case True
    have "\<bar>r32 ?s - ?s\<bar> \<le> unit_roundoff * \<bar>?s\<bar>"
    proof (cases "x * y = 0")
      case True
      with assms(1) show ?thesis using r32_on_grid [of z] by (auto simp: near_def)
    next
      case False
      with \<open>2 powi - 126 \<le> \<bar>?s\<bar> \<or> x * y = 0\<close> show ?thesis by (intro r32_relative) simp
    qed
    also have "\<dots> \<le> unit_roundoff * (growth m * (E + ?F))"
      using size by (rule mult_left_mono) simp
    finally show ?thesis .
  next
    case False
    then have "\<bar>r32 ?s - ?s\<bar> \<le> unit_roundoff * 2 powi - 126" by (intro r32_absolute) simp
    also have "\<dots> \<le> unit_roundoff * ?F"
      using False assms(2) by (intro mult_left_mono) (auto simp: product_normal_def)
    also have "\<dots> \<le> unit_roundoff * (growth m * (E + ?F))"
      using F mult_nonneg_nonneg [OF order_trans [OF zero_le_one growth_ge_1 [of m]] mass]
      by (intro mult_left_mono) (simp_all add: distrib_left)
    finally show ?thesis .
  qed
  moreover have "\<bar>?s - (e + x * y)\<bar> \<le> (growth m - 1) * (E + ?F)"
  proof -
    have "0 \<le> (growth m - 1) * ?F" using growth_ge_1 [of m] by simp
    then show ?thesis using assms(1) unfolding near_def distrib_left by linarith
  qed
  moreover have "\<bar>e + x * y\<bar> \<le> E + ?F" using assms(1) by (auto simp: near_def)
  ultimately show ?thesis
    using near_round [OF _ _ _ assms(3,4)] unfolding f32_fma_def by blast
qed

interpretation accuracy: rounded_sums near product_normal "2 ^ 23" "2 ^ 126"
proof unfold_locales
  show "near n e mass x" if "near m e mass x" "m \<le> n" for m e mass x n
  proof -
    have "(growth m - 1) * mass \<le> (growth n - 1) * mass"
      using growth_mono [OF that(2)] near_mass [OF that(1)] by (simp add: mult_right_mono)
    with that(1) show ?thesis by (auto simp: near_def)
  qed
qed (simp_all add: near_mul [unfolded One_nat_def] near_add near_fma near_mass, simp add: near_def)

section \<open>Integer data\<close>

definition exactly :: "nat \<Rightarrow> rat \<Rightarrow> rat \<Rightarrow> f32 \<Rightarrow> bool" where
  "exactly m e mass x \<longleftrightarrow> x = e \<and> x \<in> \<int> \<and> \<bar>x\<bar> \<le> mass"

definition whole :: "f32 \<Rightarrow> f32 \<Rightarrow> bool" where
  "whole x y \<longleftrightarrow> x \<in> \<int> \<and> y \<in> \<int>"

lemma r32_Ints: "s \<in> \<int> \<Longrightarrow> \<bar>s\<bar> \<le> 2 ^ 24 \<Longrightarrow> r32 s = s"
proof (elim Ints_cases)
  fix i assume "\<bar>s\<bar> \<le> 2 ^ 24" "s = of_int i"
  then have "rat_of_int \<bar>i\<bar> \<le> of_int (2 ^ 24)" by simp
  then have "\<bar>i\<bar> \<le> 2 ^ 24" by (simp only: of_int_le_iff)
  from r32_representable [OF this, of 0] show "r32 s = s" by (simp add: \<open>s = of_int i\<close>)
qed

lemma rnd32_Ints: "s \<in> \<int> \<Longrightarrow> \<bar>s\<bar> \<le> 2 ^ 24 \<Longrightarrow> rnd32 s = Some s"
  using rnd32_r32 [of s] r32_Ints [of s] by simp

interpretation exactness: rounded_sums exactly whole "2 ^ 23" "2 ^ 24"
proof unfold_locales
  show "\<exists>s. f32_add x y = Some s \<and> exactly (Suc (max m n)) (e + f) (E + F) s"
    if "exactly m e E x" "exactly n f F y" "E + F \<le> 2 ^ 24" for m e E x n f F y
    using that rnd32_Ints [of "x + y"] by (auto simp: exactly_def f32_add_def)
  show "\<exists>s. f32_fma z x y = Some s \<and> exactly (Suc m) (e + x * y) (E + \<bar>x * y\<bar>) s"
    if "exactly m e E z" "whole x y" "E + \<bar>x * y\<bar> \<le> 2 ^ 24" for m e E z x y
    using that rnd32_Ints [of "z + x * y"] by (auto simp: exactly_def whole_def f32_fma_def)
qed (auto simp: exactly_def whole_def f32_mul_def rnd32_Ints intro: order_trans [OF abs_ge_zero])

section \<open>Properties\<close>

definition dot_within :: "nat \<Rightarrow> f32 list \<Rightarrow> f32 list \<Rightarrow> dot_failure + f32 \<Rightarrow> bool" where
  "dot_within m a b res =
     (case res of
        Inr r \<Rightarrow> \<bar>r - exact_dot a b\<bar> \<le> (growth m - 1) * dot_mass a b
      | Inl _ \<Rightarrow> False)"

lemma dot_withinI: "\<exists>r. res = Inr r \<and> near m (exact_dot a b) (dot_mass a b) r \<Longrightarrow> dot_within m a b res"
  by (auto simp: dot_within_def near_def)

text \<open>C36. Accuracy of the four dot products. On finite vectors of the same length below eight million
  elements, when no product underflows and the sum of their absolute values is at most \<open>2^126\<close>, each
  variant returns, and its error is at most \<open>(1 + 2^-24)^m - 1\<close> times that sum, \<open>m\<close> the number of
  roundings on the longest path: \<open>n + 1\<close> for the plain loop, \<open>n/8 + 9\<close> and the tail for eight
  accumulators, \<open>n/4 + 4\<close> and \<open>n/4 + 2\<close> and the tail for the SSE2 and the NEON registers.\<close>

theorem dot_products_accurate:
  assumes "length b = length a" and "\<forall>j < length a. product_normal (a ! j) (b ! j)"
    and "dot_mass a b \<le> 2 ^ 126" and "length a + 9 < 2 ^ 23" and "n = length a"
  shows "dot_within (n + 1) a b (dot_product_naif a b) \<and>
    dot_within (n div 8 + 9 + n mod 8) a b (dot_product_hint a b) \<and>
    dot_within (n div 4 + 4 + n mod 4) a b (dot_product_simd_x86_64 a b) \<and>
    dot_within (n div 4 + 2 + n mod 4) a b (dot_product_simd_aarch64 a b)"
proof -
  have "length a < 2 ^ 23" using assms(4) by simp
  from accuracy.dot_product_naif_acc [OF assms(1-3) this] accuracy.dot_product_hint_acc [OF assms(1-4)]
    accuracy.dot_product_simd_x86_64_acc [OF assms(1-4)] accuracy.dot_product_simd_aarch64_acc [OF assms(1-4)]
  show ?thesis unfolding assms(5) by (simp add: dot_withinI)
qed

lemma is_f32_numeral: "x \<in> \<int> \<Longrightarrow> \<bar>x\<bar> \<le> 2 ^ 24 \<Longrightarrow> is_f32 x"
  by (simp add: is_f32_def rnd32_Ints)

lemma product_normal_Ints:
  assumes "x \<in> \<int>" "y \<in> \<int>" "\<bar>x\<bar> \<le> 2 ^ 24" "\<bar>y\<bar> \<le> 2 ^ 24"
  shows "product_normal x y"
proof -
  have "2 powi - 126 \<le> \<bar>x * y\<bar>" if "x * y \<noteq> 0"
  proof -
    have "1 \<le> \<bar>x * y\<bar>" using assms(1,2) that Ints_nonzero_abs_ge1 [of "x * y"] by auto
    moreover have "(2 :: rat) powi - 126 \<le> 1" by (simp add: power_int_def power_divide)
    ultimately show ?thesis by linarith
  qed
  with assms show ?thesis by (auto simp: product_normal_def is_f32_numeral)
qed

theorem dot_products_accurate_witness:
  "dot_within (5 div 8 + 9 + 5 mod 8) [1, 2, 3, 4, 5] [1, - 1, 1, 1, 1] (dot_product_hint [1, 2, 3, 4, 5] [1, - 1, 1, 1, 1])"
proof -
  let ?a = "[1, 2, 3, 4, 5 :: f32]" and ?b = "[1, - 1, 1, 1, 1 :: f32]"
  have "\<forall>j < length ?a. product_normal (?a ! j) (?b ! j)"
    by (auto simp: less_Suc_eq intro!: product_normal_Ints)
  moreover have "dot_mass ?a ?b \<le> 2 ^ 126" by (simp add: dot_mass_def)
  ultimately show ?thesis
    using dot_products_accurate [of ?b ?a 5] by simp
qed

text \<open>On integer-valued vectors, as in the tests with ones and with \<open>1..=13\<close>, the four dot products
  are exact whenever the sum of the absolute values of the products is at most \<open>2^24\<close>: the order of
  the additions does not matter.\<close>

theorem dot_products_exact:
  assumes "length b = length a" and "\<forall>j < length a. a ! j \<in> \<int> \<and> b ! j \<in> \<int>"
    and "dot_mass a b \<le> 2 ^ 24" and "length a + 9 < 2 ^ 23"
  shows "dot_product_naif a b = Inr (exact_dot a b) \<and> dot_product_hint a b = Inr (exact_dot a b) \<and>
    dot_product_simd_x86_64 a b = Inr (exact_dot a b) \<and> dot_product_simd_aarch64 a b = Inr (exact_dot a b)"
proof -
  have ok: "\<forall>j < length a. whole (a ! j) (b ! j)" using assms(2) by (simp add: whole_def)
  have "length a < 2 ^ 23" using assms(4) by simp
  from exactness.dot_product_naif_acc [OF assms(1) ok assms(3) this]
    exactness.dot_product_hint_acc [OF assms(1) ok assms(3,4)]
    exactness.dot_product_simd_x86_64_acc [OF assms(1) ok assms(3,4)]
    exactness.dot_product_simd_aarch64_acc [OF assms(1) ok assms(3,4)]
  show ?thesis by (auto simp: exactly_def)
qed

theorem dot_products_exact_witness:
  "dot_product_hint (map rat_of_nat [1..<14]) (replicate 13 1) = Inr 91 \<and>
   dot_product_simd_x86_64 (map rat_of_nat [1..<14]) (replicate 13 1) = Inr 91 \<and>
   dot_product_naif (replicate 100 1) (replicate 100 1) = Inr 100"
proof -
  let ?a = "map rat_of_nat [1..<14]" and ?b = "replicate 13 1 :: f32 list"
  have sum: "(\<Sum>i<13. ?a ! i * ?b ! i) = 91" "dot_mass ?a ?b = 91"
    by (simp_all add: dot_mass_def eval_nat_numeral)
  have "dot_mass (replicate 100 1) (replicate 100 (1 :: f32)) = 100" "exact_dot (replicate 100 1) (replicate 100 (1 :: f32)) = 100"
    by (simp_all add: dot_mass_def exact_dot_def)
  moreover have "exact_dot ?a ?b = 91" using sum(1) by (simp add: exact_dot_def)
  ultimately show ?thesis
    using dot_products_exact [of ?b ?a] dot_products_exact [of "replicate 100 1" "replicate 100 1"] sum(2)
    by (simp add: nth_append)
qed

text \<open>\<open>approx_eq\<close> of the tests, \<open>(a - b).abs() <= tol\<close>, and their tolerance \<open>r.abs() * 1e-3\<close>.\<close>

definition approx_eq :: "f32 \<Rightarrow> f32 \<Rightarrow> f32 \<Rightarrow> bool" where
  "approx_eq a b tol = (case f32_sub a b of Some d \<Rightarrow> \<bar>d\<bar> \<le> tol | None \<Rightarrow> False)"

definition test_tolerance :: "f32 \<Rightarrow> f32 option" where
  "test_tolerance r = Option.bind (rnd32 (1 / 1000)) (\<lambda>milli. f32_mul \<bar>r\<bar> milli)"

definition coherent :: "dot_failure + f32 \<Rightarrow> dot_failure + f32 \<Rightarrow> bool" where
  "coherent naif other =
     (case (naif, other) of
        (Inr x, Inr y) \<Rightarrow> (case test_tolerance x of Some tol \<Rightarrow> approx_eq x y tol | None \<Rightarrow> False)
      | _ \<Rightarrow> False)"

lemma abs_r32: "\<bar>r32 x\<bar> = rnd_bits 24 (- 126) \<bar>x\<bar>"
proof (cases "x = 0")
  case False
  then show ?thesis using rnd_bits_nonneg [of 24 "- 126" "\<bar>x\<bar>"] by (simp add: r32_def abs_mult abs_sgn_eq)
qed (simp add: rnd_bits_def)

lemma abs_r32_mono: "\<bar>x\<bar> \<le> \<bar>y\<bar> \<Longrightarrow> \<bar>r32 x\<bar> \<le> \<bar>r32 y\<bar>"
  by (simp add: abs_r32 rnd_bits_mono)

lemma r32_nonneg: "0 \<le> x \<Longrightarrow> 0 \<le> r32 x"
  by (cases "x = 0") (simp_all add: r32_def)

lemma r32_finite: "\<bar>x\<bar> \<le> 2 ^ 127 \<Longrightarrow> \<bar>r32 x\<bar> < 2 ^ 128"
proof -
  assume "\<bar>x\<bar> \<le> 2 ^ 127"
  then have "\<bar>r32 x\<bar> \<le> \<bar>r32 (2 ^ 127)\<bar>" by (intro abs_r32_mono) simp
  also have "r32 (2 ^ 127) = 2 ^ 127"
    using r32_representable [of 1 127] by (simp add: power_int_def)
  finally show ?thesis by simp
qed

lemma tenth_of_percent: "9 / 10000 \<le> r32 (1 / 1000)" "\<bar>r32 (1 / 1000)\<bar> < 2 ^ 128"
proof -
  have "\<bar>r32 (1 / 1000) - 1 / 1000\<bar> \<le> unit_roundoff * \<bar>1 / 1000\<bar>"
    by (rule r32_relative) (simp add: power_int_def power_divide)
  then show "9 / 10000 \<le> r32 (1 / 1000)" unfolding unit_roundoff_def by linarith
  show "\<bar>r32 (1 / 1000)\<bar> < 2 ^ 128" by (rule r32_finite) simp
qed

lemma coherentI:
  assumes "\<bar>x - y\<bar> \<le> 9 / 10000 * \<bar>x\<bar>" "\<bar>x\<bar> \<le> 2 ^ 127"
  shows "coherent (Inr x) (Inr y)"
proof -
  let ?milli = "r32 (1 / 1000)"
  have milli: "rnd32 (1 / 1000) = Some ?milli" "0 \<le> ?milli" "?milli \<le> 1"
    using tenth_of_percent abs_r32_mono [of "1 / 1000" 1] r32_Ints [of 1] by (simp_all add: rnd32_r32)
  have size: "\<bar>\<bar>x\<bar> * ?milli\<bar> \<le> 2 ^ 127"
    using mult_mono [OF assms(2) milli(3)] milli(2) by (simp add: abs_mult)
  then have tol: "test_tolerance x = Some (r32 (\<bar>x\<bar> * ?milli))"
    unfolding test_tolerance_def milli(1) f32_mul_def using rnd32_r32 [OF r32_finite [OF size]] by simp
  have le: "\<bar>x - y\<bar> \<le> \<bar>\<bar>x\<bar> * ?milli\<bar>"
    using assms(1) mult_right_mono [OF tenth_of_percent(1), of "\<bar>x\<bar>"] milli(2)
    by (simp add: abs_mult mult.commute)
  with size have "f32_sub x y = Some (r32 (x - y))"
    unfolding f32_sub_def by (intro rnd32_r32 r32_finite) linarith
  moreover have "\<bar>r32 (x - y)\<bar> \<le> r32 (\<bar>x\<bar> * ?milli)"
    using abs_r32_mono [OF le] r32_nonneg [of "\<bar>x\<bar> * ?milli"] milli(2) by simp
  ultimately show ?thesis by (simp add: coherent_def tol approx_eq_def)
qed

lemma growth_10001: "growth 10001 - 1 \<le> 6 / 10000"
  using growth_le [of 10001] by (simp add: unit_roundoff_def)

lemma growth_2510: "growth 2510 - 1 \<le> 15 / 100000"
  using growth_le [of 2510] by (simp add: unit_roundoff_def)

lemma dot_within_coherent:
  assumes "dot_within m a b naif" "dot_within m' a b other" "m \<le> 10001" "m' \<le> 2510"
    and "exact_dot a b = dot_mass a b" "dot_mass a b \<le> 2 ^ 126"
  shows "coherent naif other"
proof -
  let ?T = "dot_mass a b"
  obtain x y where xy: "naif = Inr x" "other = Inr y"
    "\<bar>x - ?T\<bar> \<le> (growth m - 1) * ?T" "\<bar>y - ?T\<bar> \<le> (growth m' - 1) * ?T"
    using assms(1,2,5) by (auto simp: dot_within_def split: sum.splits)
  have T: "0 \<le> ?T" by (simp add: dot_mass_def sum_nonneg)
  have "growth m - 1 \<le> 6 / 10000" "growth m' - 1 \<le> 15 / 100000"
    using growth_mono [OF assms(3)] growth_mono [OF assms(4)] growth_10001 growth_2510 by linarith+
  then have "(growth m - 1) * ?T \<le> 6 / 10000 * ?T" "(growth m' - 1) * ?T \<le> 15 / 100000 * ?T"
    using T by (simp_all only: mult_right_mono)
  with xy(3,4) have near: "\<bar>x - ?T\<bar> \<le> 6 / 10000 * ?T" "\<bar>y - ?T\<bar> \<le> 15 / 100000 * ?T" by linarith+
  have "\<bar>x - y\<bar> \<le> 9 / 10000 * \<bar>x\<bar>" using near T by linarith
  moreover have "\<bar>x\<bar> \<le> 2 * ?T" using near T by linarith
  then have "\<bar>x\<bar> \<le> 2 ^ 127" using assms(6) by simp
  ultimately show ?thesis unfolding xy(1,2) by (rule coherentI)
qed

text \<open>The tolerance of the tests is never exceeded: on vectors of at most 10000 non-negative elements
  (the vectors of \<open>test_coherence_grand_dataset\<close> are of this kind) the plain loop agrees with each
  of the others within \<open>r.abs() * 1e-3\<close>, difference, product and comparison made in \<open>f32\<close> as the test
  makes them. Vectors of different lengths make every variant fail its assertion.\<close>

theorem dot_products_coherent:
  assumes "\<forall>j < length a. 0 \<le> a ! j \<and> 0 \<le> b ! j \<and> product_normal (a ! j) (b ! j)"
    and "dot_mass a b \<le> 2 ^ 126" and "length a \<le> 10000"
  shows "if length a = length b
    then coherent (dot_product_naif a b) (dot_product_hint a b) \<and>
      coherent (dot_product_naif a b) (dot_product_simd_x86_64 a b) \<and>
      coherent (dot_product_naif a b) (dot_product_simd_aarch64 a b)
    else dot_product_naif a b = Inl SizesDiffer \<and> dot_product_hint a b = Inl SizesDiffer \<and>
      dot_product_simd_x86_64 a b = Inl SizesDiffer \<and> dot_product_simd_aarch64 a b = Inl SizesDiffer"
proof (cases "length a = length b")
  case True
  let ?n = "length a"
  have "length b = ?n" "\<forall>j < ?n. product_normal (a ! j) (b ! j)" "?n + 9 < 2 ^ 23"
    using True assms(1,3) by simp_all
  note within = accuracy.dot_product_naif_acc [OF this(1,2) assms(2)] accuracy.dot_product_hint_acc [OF this(1,2) assms(2) this(3)]
    accuracy.dot_product_simd_x86_64_acc [OF this(1,2) assms(2) this(3)]
    accuracy.dot_product_simd_aarch64_acc [OF this(1,2) assms(2) this(3)]
  have eq: "exact_dot a b = dot_mass a b"
    unfolding exact_dot_def dot_mass_def using assms(1) by (intro sum.cong) auto
  have "?n < 2 ^ 23" using assms(3) by simp
  note naif = dot_withinI [OF within(1) [OF this]]
  have d: "Suc ?n \<le> 10001" "?n div 8 + 9 + ?n mod 8 \<le> 2510" "?n div 4 + 4 + ?n mod 4 \<le> 2510"
    "?n div 4 + 2 + ?n mod 4 \<le> 2510"
    using assms(3) div_le_mono [OF assms(3), of 8] div_le_mono [OF assms(3), of 4]
      mod_less_divisor [of 8 ?n] mod_less_divisor [of 4 ?n] by simp_all
  show ?thesis
    using dot_within_coherent [OF naif dot_withinI [OF within(2)] d(1,2) eq assms(2)]
      dot_within_coherent [OF naif dot_withinI [OF within(3)] d(1,3) eq assms(2)]
      dot_within_coherent [OF naif dot_withinI [OF within(4)] d(1,4) eq assms(2)] True by simp
next
  case False
  then show ?thesis
    by (simp add: dot_product_naif_def dot_product_hint_def dot_product_simd_x86_64_def
        dot_product_simd_aarch64_def checked_def Let_def)
qed

theorem dot_products_coherent_witness:
  "coherent (dot_product_naif [1, 2, 3] [1, 1, 1]) (dot_product_hint [1, 2, 3] [1, 1, 1]) \<and>
   dot_product_naif [1, 2] [1] = Inl SizesDiffer"
proof -
  have "\<forall>j < length [1, 2, 3 :: f32]. 0 \<le> [1, 2, 3 :: f32] ! j \<and> 0 \<le> [1, 1, 1 :: f32] ! j \<and>
      product_normal ([1, 2, 3] ! j) ([1, 1, 1] ! j)"
    by (auto simp: less_Suc_eq intro!: product_normal_Ints)
  from dot_products_coherent [OF this] show ?thesis
    by (simp add: dot_mass_def dot_product_naif_def checked_def)
qed

end
