(* ===== verification/Percentiles.thy ===== *)
theory Percentiles
  imports Prelude
begin

text \<open>
  Latency percentiles, \<open>demos/src/bin/exo01_percentiles.rs\<close>: by sorting, by selection and by
  counting.

  A vector has fewer than \<open>2 ^ 57\<close> elements (its bytes must fit an \<open>isize\<close>), so the products
  \<open>n * 99\<close> do not wrap and \<open>n\<close> is a \<open>nat\<close>. A panic is \<open>None\<close>. \<open>select_nth_unstable\<close> may
  leave the elements in any of many orders: \<open>sel i v\<close> is the vector after the call, for any
  \<open>sel\<close> that does what the standard library documents (\<open>selects\<close>).
\<close>

record stats =
  st_p50 :: u64
  st_p99 :: u64
  st_max :: u64

section \<open>The three algorithms\<close>

definition stats_par_tri :: "u64 list \<Rightarrow> stats option" where
  "stats_par_tri data =
     (if data = [] then None
      else
        (let v = sort data; n = length v
         in Some \<lparr>st_p50 = v ! (n div 2), st_p99 = v ! (n * 99 div 100), st_max = v ! (n - 1)\<rparr>))"

text \<open>\<open>v[..m].select_nth_unstable(i)\<close>, which panics when \<open>i\<close> is not below \<open>m\<close>.\<close>

definition select_in :: "(nat \<Rightarrow> u64 list \<Rightarrow> u64 list) \<Rightarrow> nat \<Rightarrow> nat \<Rightarrow> u64 list \<Rightarrow> u64 list option" where
  "select_in sel m i v = (if i < m then Some (sel i (take m v) @ drop m v) else None)"

definition stats_par_select :: "(nat \<Rightarrow> u64 list \<Rightarrow> u64 list) \<Rightarrow> u64 list \<Rightarrow> stats option" where
  "stats_par_select sel data =
     (if data = [] then None
      else
        (let n = length data; idx_max = n - 1; idx_p99 = n * 99 div 100; idx_p50 = n div 2
         in if idx_p99 = idx_max then
              (case select_in sel n idx_max data of
                 None \<Rightarrow> None
               | Some v \<Rightarrow>
                   let mx = v ! idx_max
                   in map_option (\<lambda>v. \<lparr>st_p50 = v ! idx_p50, st_p99 = mx, st_max = mx\<rparr>)
                        (select_in sel idx_max idx_p50 v))
            else
              (case select_in sel n idx_max data of
                 None \<Rightarrow> None
               | Some v \<Rightarrow>
                   let mx = v ! idx_max
                   in (case select_in sel idx_max idx_p99 v of
                         None \<Rightarrow> None
                       | Some v \<Rightarrow>
                           let p99 = v ! idx_p99
                           in map_option (\<lambda>v. \<lparr>st_p50 = v ! idx_p50, st_p99 = p99, st_max = mx\<rparr>)
                                (select_in sel idx_p99 idx_p50 v)))))"

text \<open>The counting loop: the histogram and the largest value.\<close>

fun hist_count :: "u64 list \<Rightarrow> u32 list \<Rightarrow> u64 \<Rightarrow> (u32 list \<times> u64) option" where
  "hist_count [] hist vrai_max = Some (hist, vrai_max)"
| "hist_count (v # vs) hist vrai_max =
     (if unat v < length hist then
        hist_count vs (hist[unat v := hist ! unat v + 1]) (if v > vrai_max then v else vrai_max)
      else None)"

text \<open>The second loop from position \<open>valeur\<close> on; it yields \<open>p50\<close> and \<open>p99\<close>.\<close>

fun hist_scan :: "u64 \<Rightarrow> u64 \<Rightarrow> nat \<Rightarrow> u32 list \<Rightarrow> u64 \<Rightarrow> u64 \<Rightarrow> bool \<Rightarrow> u64 \<times> u64" where
  "hist_scan seuil_p50 seuil_p99 valeur [] cumul p50 p50_trouve = (p50, 0)"
| "hist_scan seuil_p50 seuil_p99 valeur (cnt # hist) cumul p50 p50_trouve =
     (let cumul = cumul + ucast cnt;
          hit = \<not> p50_trouve \<and> cumul \<ge> seuil_p50;
          p50 = (if hit then of_nat valeur else p50);
          p50_trouve = (p50_trouve \<or> hit)
      in if cumul \<ge> seuil_p99 then (p50, of_nat valeur)
         else hist_scan seuil_p50 seuil_p99 (valeur + 1) hist cumul p50 p50_trouve)"

definition stats_par_histogramme :: "u64 list \<Rightarrow> u64 \<Rightarrow> stats option" where
  "stats_par_histogramme data borne_max =
     (if data = [] then None
      else
        (case hist_count data (replicate (unat (borne_max + 1)) 0) 0 of
           None \<Rightarrow> None
         | Some (hist, vrai_max) \<Rightarrow>
             let n = of_nat (length data);
                 seuil_p50 = n div 2 + 1;
                 seuil_p99 = n * 99 div 100 + 1;
                 (p50, p99) = hist_scan seuil_p50 seuil_p99 0 hist 0 0 False
             in Some \<lparr>st_p50 = p50, st_p99 = p99, st_max = vrai_max\<rparr>))"

text \<open>The data set of the demonstration; the remainder by zero panics.\<close>

definition dataset_latences :: "usize \<Rightarrow> u64 \<Rightarrow> u64 list option" where
  "dataset_latences taille borne_max =
     (if borne_max = 0 \<and> taille > 0 then None
      else Some (map (\<lambda>i. (of_nat i * 2654435761 + 1013904223) mod borne_max + 1) [0..<taille]))"

section \<open>Order statistics\<close>

lemma unat_of_nat_u64: "n < 2 ^ 64 \<Longrightarrow> unat (of_nat n :: u64) = n"
  by (simp add: unat_of_nat)

definition below :: "u64 list \<Rightarrow> nat \<Rightarrow> nat" where
  "below data q = length (filter (\<lambda>x. unat x < q) data)"

lemma nth_sort_unique:
  assumes "below data q \<le> k" "k < below data (Suc q)"
  shows "unat (sort data ! k) = q"
proof -
  let ?xs = "sort data"
  have b: "below data r = length (filter (\<lambda>x. unat x < r) ?xs)" for r
    unfolding below_def by (metis mset_filter mset_sort size_mset)
  have k: "k < length ?xs" using assms(2) b [of "Suc q"] length_filter_le [of _ ?xs] by (metis order_less_le_trans)
  have mono: "unat (?xs ! i) \<le> unat (?xs ! j)" if "i \<le> j" "j < length ?xs" for i j
    using sorted_nth_mono [OF sorted_sort that] by (simp add: word_le_nat_alt)
  have "q \<le> unat (?xs ! k)"
  proof (rule ccontr)
    assume "\<not> q \<le> unat (?xs ! k)"
    then have "{..k} \<subseteq> {i. i < length ?xs \<and> unat (?xs ! i) < q}"
      using k mono [of _ k] by (auto simp: not_le intro: le_less_trans)
    then have "card {..k} \<le> card {i. i < length ?xs \<and> unat (?xs ! i) < q}"
      by (intro card_mono) auto
    with assms(1) b [of q] show False by (simp add: length_filter_conv_card)
  qed
  moreover have "unat (?xs ! k) \<le> q"
  proof (rule ccontr)
    assume c: "\<not> unat (?xs ! k) \<le> q"
    have "{i. i < length ?xs \<and> unat (?xs ! i) < Suc q} \<subseteq> {..<k}"
    proof
      fix i assume i: "i \<in> {i. i < length ?xs \<and> unat (?xs ! i) < Suc q}"
      show "i \<in> {..<k}"
      proof (rule ccontr)
        assume "i \<notin> {..<k}"
        with i mono [of k i] c show False by simp
      qed
    qed
    then have "card {i. i < length ?xs \<and> unat (?xs ! i) < Suc q} \<le> card {..<k}"
      by (intro card_mono) auto
    with assms(2) b [of "Suc q"] show False by (simp add: length_filter_conv_card)
  qed
  ultimately show ?thesis by simp
qed

lemma below_Suc: "below data (Suc q) = below data q + length (filter (\<lambda>x. unat x = q) data)"
  by (induction data) (auto simp: below_def)

lemma below_le_length: "below data q \<le> length data"
  by (simp add: below_def)

lemma below_mono: "q \<le> r \<Longrightarrow> below data q \<le> below data r"
  by (induction r) (auto simp: le_Suc_eq below_Suc)

lemma below_0: "below data 0 = 0"
  by (simp add: below_def)

section \<open>Selection\<close>

text \<open>The documented effect of \<open>select_nth_unstable(i)\<close> when \<open>i\<close> is in range: the elements are
  permuted, the one at \<open>i\<close> is not below any before it nor above any after it.\<close>

definition selects :: "(nat \<Rightarrow> u64 list \<Rightarrow> u64 list) \<Rightarrow> bool" where
  "selects sel \<longleftrightarrow>
     (\<forall>i v. i < length v \<longrightarrow>
        mset (sel i v) = mset v \<and>
        (\<forall>x \<in> set (take i (sel i v)). x \<le> sel i v ! i) \<and>
        (\<forall>x \<in> set (drop (Suc i) (sel i v)). sel i v ! i \<le> x))"

lemma selects_sort:
  assumes "selects sel" "i < length v"
  shows "sort v = sort (take i (sel i v)) @ sel i v ! i # sort (drop (Suc i) (sel i v))"
    and "length (sel i v) = length v"
proof -
  let ?w = "sel i v"
  have w: "mset ?w = mset v" "\<forall>x \<in> set (take i ?w). x \<le> ?w ! i" "\<forall>x \<in> set (drop (Suc i) ?w). ?w ! i \<le> x"
    using assms by (auto simp: selects_def)
  show len: "length ?w = length v" using w(1) by (metis size_mset)
  then have "?w = take i ?w @ ?w ! i # drop (Suc i) ?w"
    using assms(2) by (simp add: id_take_nth_drop)
  then have "mset v = mset (take i ?w) + add_mset (?w ! i) (mset (drop (Suc i) ?w))"
    using w(1) by (metis mset.simps(2) mset_append)
  then have "mset (sort (take i ?w) @ ?w ! i # sort (drop (Suc i) ?w)) = mset v" by simp
  moreover have "x \<le> y" if "x \<in> set (take i ?w)" "y \<in> set (drop (Suc i) ?w)" for x y
    using w(2,3) that by (blast intro: order_trans)
  then have "sorted (sort (take i ?w) @ ?w ! i # sort (drop (Suc i) ?w))"
    using w(2,3) by (simp add: sorted_append)
  ultimately show "sort v = sort (take i ?w) @ ?w ! i # sort (drop (Suc i) ?w)"
    by (rule properties_for_sort)
qed

text \<open>A prefix that already holds the smallest elements, after one selection inside it.\<close>

lemma select_in_prefix:
  assumes sel: "selects sel" and "i < m" "m \<le> length v" and smallest: "sort (take m v) = take m xs"
    and "sorted xs" "m \<le> length xs"
  shows "\<exists>v'. select_in sel m i v = Some v' \<and> length v' = length v \<and> v' ! i = xs ! i \<and>
           sort (take i v') = take i xs"
proof -
  have i: "i < length (take m v)" using assms by simp
  note s = selects_sort [OF sel i]
  let ?v = "sel i (take m v) @ drop m v"
  have len: "length (sel i (take m v)) = m" using s(2) assms(3) by simp
  have nth: "?v ! i = sel i (take m v) ! i" and pre: "take i ?v = take i (sel i (take m v))"
    using len assms(2) by (simp_all add: nth_append)
  have "take m xs = sort (take i ?v) @ ?v ! i # sort (drop (Suc i) (sel i (take m v)))"
    unfolding nth pre using s(1) smallest by simp
  moreover have "length (sort (take i ?v)) = i" using len assms(2) by simp
  ultimately have "take m xs ! i = ?v ! i" and "take i (take m xs) = sort (take i ?v)"
    by (simp_all add: nth_append)
  then have "?v ! i = xs ! i \<and> sort (take i ?v) = take i xs" using assms(2) by (simp add: min.absorb1)
  moreover have "select_in sel m i v = Some ?v" using assms(2) by (simp add: select_in_def)
  moreover have "length ?v = length v" using len assms(3) by simp
  ultimately show ?thesis by blast
qed

lemma tri_eq:
  "data \<noteq> [] \<Longrightarrow> stats_par_tri data =
     Some \<lparr>st_p50 = sort data ! (length data div 2), st_p99 = sort data ! (length data * 99 div 100),
           st_max = sort data ! (length data - 1)\<rparr>"
  by (simp add: stats_par_tri_def Let_def)

lemma indices_ordered:
  assumes "3 \<le> (n :: nat)"
  shows "n div 2 < n - 1" "n div 2 < n * 99 div 100" "n * 99 div 100 \<le> n - 1"
proof -
  show "n div 2 < n - 1" using assms by linarith
  have "50 * n + 100 \<le> n * 99" using assms by simp
  then show "n div 2 < n * 99 div 100" by linarith
  show "n * 99 div 100 \<le> n - 1" using assms by linarith
qed

lemma select_eq_tri:
  assumes sel: "selects sel" and n: "3 \<le> length data"
  shows "stats_par_select sel data = stats_par_tri data"
proof -
  let ?n = "length data" let ?xs = "sort data"
  note idx = indices_ordered [OF n]
  have ne: "data \<noteq> []" using n by auto
  obtain v1 where v1: "select_in sel ?n (?n - 1) data = Some v1" "length v1 = ?n"
      "v1 ! (?n - 1) = ?xs ! (?n - 1)" "sort (take (?n - 1) v1) = take (?n - 1) ?xs"
  proof -
    have "?n - 1 < ?n" "?n \<le> ?n" "sort (take ?n data) = take ?n ?xs" "sorted ?xs" "?n \<le> length ?xs"
      using n by simp_all
    from select_in_prefix [OF sel this] that show thesis by blast
  qed
  show ?thesis
  proof (cases "?n * 99 div 100 = ?n - 1")
    case True
    obtain v2 where v2: "select_in sel (?n - 1) (?n div 2) v1 = Some v2" "v2 ! (?n div 2) = ?xs ! (?n div 2)"
      using select_in_prefix [OF sel idx(1) _ v1(4)] v1(2) n by auto
    show ?thesis
      using True v1 v2 by (simp add: stats_par_select_def tri_eq [OF ne] ne Let_def)
  next
    case False
    with idx(3) have "?n * 99 div 100 < ?n - 1" by simp
    then obtain v2 where v2: "select_in sel (?n - 1) (?n * 99 div 100) v1 = Some v2" "length v2 = ?n"
        "v2 ! (?n * 99 div 100) = ?xs ! (?n * 99 div 100)"
        "sort (take (?n * 99 div 100) v2) = take (?n * 99 div 100) ?xs"
      using select_in_prefix [OF sel _ _ v1(4)] v1(2) n by auto
    have "?n * 99 div 100 \<le> length v2" using v2(2) idx(3) by linarith
    then obtain v3 where v3: "select_in sel (?n * 99 div 100) (?n div 2) v2 = Some v3" "v3 ! (?n div 2) = ?xs ! (?n div 2)"
      using select_in_prefix [OF sel idx(2) _ v2(4)] v2(2) by auto
    show ?thesis
      using False v1 v2 v3 by (simp add: stats_par_select_def tri_eq [OF ne] ne Let_def)
  qed
qed

text \<open>The middle of a vector of one or two elements is its last element, which the second selection
  does not contain.\<close>

lemma select_small:
  "length data \<in> {1, 2} \<Longrightarrow> stats_par_select sel data = None"
  by (auto simp: stats_par_select_def select_in_def Let_def)

section \<open>Counting\<close>

lemma hist_count_spec:
  assumes "\<forall>v \<in> set data. unat v < length hist" and "\<forall>i < length hist. unat (hist ! i) + length data < 2 ^ 32"
  shows "\<exists>hist'. hist_count data hist m = Some (hist', foldl max m data) \<and> length hist' = length hist \<and>
    (\<forall>i < length hist. unat (hist' ! i) = unat (hist ! i) + length (filter (\<lambda>x. unat x = i) data))"
  using assms
proof (induction data arbitrary: hist m)
  case (Cons v vs)
  let ?h = "hist[unat v := hist ! unat v + 1]"
  have v: "unat v < length hist" using Cons.prems(1) by simp
  have inc: "unat (?h ! i) = unat (hist ! i) + (if unat v = i then 1 else 0)" if "i < length hist" for i
  proof (cases "unat v = i")
    case True
    have "unat (hist ! i) + 1 < 2 ^ 32" using Cons.prems(2) that by fastforce
    then show ?thesis using that True by (simp add: unat_word_ariths)
  qed simp
  have "\<forall>i < length ?h. unat (?h ! i) + length vs < 2 ^ 32"
    using Cons.prems(2) inc by fastforce
  then obtain h' where h': "hist_count vs ?h (max m v) = Some (h', foldl max (max m v) vs)"
      "length h' = length hist"
      "\<forall>i < length hist. unat (h' ! i) = unat (?h ! i) + length (filter (\<lambda>x. unat x = i) vs)"
    using Cons.IH [of ?h "max m v"] Cons.prems(1) by auto
  have "(if v > m then v else m) = max m v" by (auto simp: max_def)
  with h' v inc show ?case by auto
qed simp

lemma foldl_max: "foldl max m (data :: u64 list) = Max (insert m (set data))"
proof (induction data rule: rev_induct)
  case (snoc x xs)
  then show ?case by (simp add: Max_insert insert_commute [of m] max.commute)
qed simp

lemma foldl_max_sort:
  assumes "data \<noteq> []"
  shows "foldl max (0 :: u64) data = sort data ! (length data - 1)"
proof -
  have "foldl max 0 data = Max (set data)"
    using assms by (simp add: foldl_max Max_insert max_def)
  moreover have "Max (set data) = sort data ! (length data - 1)"
  proof (rule Max_eqI)
    fix y assume "y \<in> set data"
    then obtain i where "i < length data" "y = sort data ! i"
      by (metis in_set_conv_nth length_sort set_sort)
    then show "y \<le> sort data ! (length data - 1)"
      by (auto intro!: sorted_nth_mono [OF sorted_sort])
  next
    show "sort data ! (length data - 1) \<in> set data"
      using assms by (metis diff_less length_greater_0_conv length_sort less_numeral_extra(1) nth_mem set_sort)
  qed simp
  ultimately show ?thesis by simp
qed

text \<open>The scan stops where the running count first passes each threshold.\<close>

definition passes :: "u64 list \<Rightarrow> nat \<Rightarrow> nat \<Rightarrow> bool" where
  "passes data k q \<longleftrightarrow> below data q \<le> k \<and> k < below data (Suc q)"

lemma hist_scan_spec:
  assumes "\<forall>j < length hist. unat (hist ! j) = length (filter (\<lambda>x. unat x = i + j) data)"
    and "below data (i + length hist) = length data" "length data < 2 ^ 32"
    and "k50 \<le> k99" "k99 < length data" "below data i \<le> k99"
    and "if trouve then \<exists>q. p50 = of_nat q \<and> passes data k50 q else below data i \<le> k50"
  shows "\<exists>q50 q99. hist_scan (of_nat (Suc k50)) (of_nat (Suc k99)) i hist (of_nat (below data i)) p50 trouve =
      (of_nat q50, of_nat q99) \<and> passes data k50 q50 \<and> passes data k99 q99"
  using assms
proof (induction hist arbitrary: i p50 trouve)
  case (Cons c hist)
  let ?b = "below data (Suc i)"
  have c: "unat c = length (filter (\<lambda>x. unat x = i) data)"
    using Cons.prems(1)[rule_format, of 0] by simp
  have small: "?b < 2 ^ 32" "below data i < 2 ^ 32"
    using below_le_length [of data] Cons.prems(3) by (auto intro: le_less_trans)
  have cumul: "of_nat (below data i) + (ucast c :: u64) = of_nat ?b"
  proof -
    have "(ucast c :: u64) = of_nat (unat c)" by simp
    then show ?thesis using c by (simp add: below_Suc)
  qed
  have cmp: "(of_nat ?b :: u64) \<ge> of_nat (Suc k) \<longleftrightarrow> k < ?b" if "k < length data" for k
  proof -
    have "unat (of_nat ?b :: u64) = ?b" "unat (of_nat (Suc k) :: u64) = Suc k"
      using small Cons.prems(3) that by (simp_all add: unat_of_nat_u64 del: of_nat_Suc)
    then show ?thesis by (simp add: word_le_nat_alt Suc_le_eq)
  qed
  define hit where "hit \<longleftrightarrow> \<not> trouve \<and> k50 < ?b"
  define p50' where "p50' = (if hit then of_nat i else p50 :: u64)"
  have inv': "if trouve \<or> hit then \<exists>q. p50' = of_nat q \<and> passes data k50 q else ?b \<le> k50"
    using Cons.prems(7) by (auto simp: hit_def p50'_def passes_def split: if_splits)
  have step: "hist_scan (of_nat (Suc k50)) (of_nat (Suc k99)) i (c # hist) (of_nat (below data i)) p50 trouve =
      (if k99 < ?b then (p50', of_nat i)
       else hist_scan (of_nat (Suc k50)) (of_nat (Suc k99)) (Suc i) hist (of_nat ?b) p50' (trouve \<or> hit))"
    using cmp [of k50] cmp [of k99] Cons.prems(4,5)
    by (simp add: Let_def cumul hit_def p50'_def del: of_nat_Suc)
  show ?case
  proof (cases "k99 < ?b")
    case True
    then have "trouve \<or> hit" using Cons.prems(4) by (auto simp: hit_def)
    with inv' obtain q where "p50' = of_nat q" "passes data k50 q" by auto
    moreover have "passes data k99 i" using True Cons.prems(6) by (simp add: passes_def)
    ultimately show ?thesis unfolding step using True by auto
  next
    case False
    have "\<forall>j < length hist. unat (hist ! j) = length (filter (\<lambda>x. unat x = Suc i + j) data)"
      using Cons.prems(1) by fastforce
    then show ?thesis unfolding step
      using Cons.IH [OF _ _ Cons.prems(3-5) _ inv'] False Cons.prems(2) by simp
  qed
qed simp

lemma passes_sort: "passes data k q \<Longrightarrow> sort data ! k = of_nat q"
  using nth_sort_unique [of data q k] unfolding passes_def by (metis of_nat_unat ucast_id)

lemma histogramme_eq_tri:
  assumes "data \<noteq> []" "length data < 2 ^ 32" "borne_max < u64_max" "\<forall>v \<in> set data. v \<le> borne_max"
  shows "stats_par_histogramme data borne_max = stats_par_tri data"
proof -
  let ?n = "length data" let ?len = "Suc (unat borne_max)"
  have len: "unat (borne_max + 1) = ?len"
    using assms(3) by (simp add: unat_Suc_u64)
  have inr: "\<forall>v \<in> set data. unat v < ?len"
    using assms(4) by (simp add: word_le_nat_alt less_Suc_eq_le)
  obtain hist where hist: "hist_count data (replicate ?len 0) 0 = Some (hist, foldl max 0 data)"
      "length hist = ?len" "\<forall>i < ?len. unat (hist ! i) = length (filter (\<lambda>x. unat x = i) data)"
    using hist_count_spec [of data "replicate ?len 0" 0] inr assms(2) by (auto simp del: replicate_Suc)
  have all: "below data ?len = ?n" using inr by (auto simp: below_def intro: filter_True)
  have p50: "(of_nat ?n :: u64) div 2 + 1 = of_nat (Suc (?n div 2))"
    and p99: "(of_nat ?n :: u64) * 99 div 100 + 1 = of_nat (Suc (?n * 99 div 100))"
  proof -
    have n: "unat (of_nat ?n :: u64) = ?n" using assms(2) by (simp add: unat_of_nat_u64)
    have "?n div 2 < 2 ^ 32" "?n * 99 div 100 < 2 ^ 32" using assms(2) by linarith+
    moreover have "?n * 99 < 2 ^ 64" using assms(2) by simp
    ultimately have "unat ((of_nat ?n :: u64) div 2) = unat (of_nat (?n div 2) :: u64)"
      "unat ((of_nat ?n :: u64) * 99 div 100) = unat (of_nat (?n * 99 div 100) :: u64)"
      using n by (simp_all add: unat_div_distrib unat_word_ariths unat_of_nat_u64)
    then have "(of_nat ?n :: u64) div 2 = of_nat (?n div 2)" "(of_nat ?n :: u64) * 99 div 100 = of_nat (?n * 99 div 100)"
      by (simp_all only: word_unat_eq_iff)
    then show "(of_nat ?n :: u64) div 2 + 1 = of_nat (Suc (?n div 2))"
      "(of_nat ?n :: u64) * 99 div 100 + 1 = of_nat (Suc (?n * 99 div 100))" by simp_all
  qed
  have idx: "?n div 2 \<le> ?n * 99 div 100" "?n * 99 div 100 < ?n"
    using assms(1) by (cases data; simp)+
  obtain q50 q99 where "hist_scan (of_nat (Suc (?n div 2))) (of_nat (Suc (?n * 99 div 100))) 0 hist 0 0 False =
      (of_nat q50, of_nat q99)" "passes data (?n div 2) q50" "passes data (?n * 99 div 100) q99"
  proof -
    have 1: "\<forall>j < length hist. unat (hist ! j) = length (filter (\<lambda>x. unat x = 0 + j) data)" using hist(2,3) by simp
    have 2: "below data (0 + length hist) = ?n" using all hist(2) by simp
    have 3: "below data 0 \<le> ?n * 99 div 100" "if False then \<exists>q. 0 = of_nat q \<and> passes data (?n div 2) q else below data 0 \<le> ?n div 2"
      by (simp_all add: below_0)
    from hist_scan_spec [OF 1 2 assms(2) idx 3] that show thesis by (auto simp: below_0)
  qed
  then show ?thesis
    using hist len foldl_max_sort [OF assms(1)] passes_sort
    by (simp add: stats_par_histogramme_def tri_eq assms(1) p50 p99 Let_def)
qed

section \<open>The properties\<close>

text \<open>C37. Sorting and counting always agree, selection agrees with them on three elements or more, for
  any selection that does what the standard library documents, and panics on one or two elements:
  the median's index is then the maximum's, and the second selection looks for it in the slice
  before the maximum. The percentiles are elements of the data, in order, and the last is the
  maximum; more than half of the data is not above \<open>p50\<close>, and more than 99 percent is not above
  \<open>p99\<close>. The bounds say that the 32-bit counts and the size of the histogram do not wrap.\<close>

theorem percentiles_agree:
  assumes "selects sel" "data \<noteq> []" "length data < 2 ^ 32" "borne_max < u64_max"
    and "\<forall>v \<in> set data. v \<le> borne_max"
  shows "stats_par_histogramme data borne_max = stats_par_tri data \<and>
    stats_par_select sel data = (if length data < 3 then None else stats_par_tri data) \<and>
    (\<exists>s. stats_par_tri data = Some s \<and> st_p50 s \<le> st_p99 s \<and> st_p99 s \<le> st_max s \<and>
       st_p50 s \<in> set data \<and> st_p99 s \<in> set data \<and> st_max s = Max (set data) \<and>
       length data < 2 * length (filter (\<lambda>x. x \<le> st_p50 s) data) \<and>
       99 * length data < 100 * length (filter (\<lambda>x. x \<le> st_p99 s) data))"
proof -
  let ?n = "length data" let ?xs = "sort data"
  note ne = assms(2)
  have pos: "0 < ?n" using ne by simp
  have idx: "?n div 2 \<le> ?n * 99 div 100" "?n * 99 div 100 \<le> ?n - 1"
  proof -
    show "?n * 99 div 100 \<le> ?n - 1" using pos by linarith
    show "?n div 2 \<le> ?n * 99 div 100"
    proof (cases "?n < 3")
      case True
      then have "?n = 1 \<or> ?n = 2" using pos by linarith
      then show ?thesis by auto
    next
      case False
      then show ?thesis using indices_ordered(2) [of ?n] by simp
    qed
  qed
  have above: "k < length (filter (\<lambda>x. x \<le> ?xs ! k) data)" if "k < ?n" for k
  proof -
    have "length (filter (\<lambda>x. x \<le> ?xs ! k) data) = length (filter (\<lambda>x. x \<le> ?xs ! k) ?xs)"
      by (metis mset_filter mset_sort size_mset)
    also have "\<dots> = card {i. i < ?n \<and> ?xs ! i \<le> ?xs ! k}" by (simp add: length_filter_conv_card)
    also have "\<dots> \<ge> card {..k}"
      using that by (intro card_mono) (auto intro: sorted_nth_mono [OF sorted_sort])
    finally show ?thesis by simp
  qed
  have elem: "?xs ! k \<in> set data" if "k < ?n" for k
    using that by (metis length_sort nth_mem set_sort)
  have order: "?xs ! i \<le> ?xs ! j" if "i \<le> j" "j < ?n" for i j
    using that by (auto intro: sorted_nth_mono [OF sorted_sort])
  have lt: "?n div 2 < ?n" "?n * 99 div 100 < ?n" "?n - 1 < ?n" using idx pos by linarith+
  have "m < d * (m div d + 1)" if "0 < d" for m d :: nat
    using dividend_less_div_times [OF that, of m] by (simp add: algebra_simps)
  from this [of 2 ?n] this [of 100 "?n * 99"]
  have "?n < 2 * (?n div 2 + 1)" "?n * 99 < 100 * (?n * 99 div 100 + 1)" by simp_all
  with lt have "?n < 2 * length (filter (\<lambda>x. x \<le> ?xs ! (?n div 2)) data)"
    "99 * ?n < 100 * length (filter (\<lambda>x. x \<le> ?xs ! (?n * 99 div 100)) data)"
    using above [of "?n div 2"] above [of "?n * 99 div 100"] by linarith+
  moreover have "?xs ! (?n - 1) = Max (set data)"
    using foldl_max_sort [OF ne] ne by (simp add: foldl_max Max_insert max_def)
  moreover have "stats_par_select sel data = (if ?n < 3 then None else stats_par_tri data)"
  proof (cases "?n < 3")
    case True
    then have "?n = 1 \<or> ?n = 2" using pos by linarith
    then have "?n \<in> {1, 2}" by blast
    then show ?thesis using True select_small by simp
  next
    case False
    then show ?thesis using select_eq_tri [OF assms(1)] by simp
  qed
  moreover have "?xs ! (?n div 2) \<le> ?xs ! (?n * 99 div 100)" "?xs ! (?n * 99 div 100) \<le> ?xs ! (?n - 1)"
    by (rule order [OF idx(1) lt(2)], rule order [OF idx(2) lt(3)])
  moreover have "?xs ! (?n div 2) \<in> set data" "?xs ! (?n * 99 div 100) \<in> set data"
    by (rule elem [OF lt(1)], rule elem [OF lt(2)])
  ultimately show ?thesis
    using histogramme_eq_tri [OF ne assms(3-5)] by (simp add: tri_eq [OF ne])
qed

lemma selects_by_sorting: "selects (\<lambda>i. sort)"
proof -
  have "x \<le> sort v ! i" if "i < length v" "x \<in> set (take i (sort v))" for i x and v :: "u64 list"
    using that by (auto simp: in_set_conv_nth intro!: sorted_nth_mono [OF sorted_sort])
  moreover have "sort v ! i \<le> x" if "i < length v" "x \<in> set (drop (Suc i) (sort v))" for i x and v :: "u64 list"
    using that by (auto simp: in_set_conv_nth intro!: sorted_nth_mono [OF sorted_sort])
  ultimately show ?thesis by (simp add: selects_def)
qed

lemma percentiles_agree_witness:
  "stats_par_select (\<lambda>i. sort) [30, 10, 20, 10] = stats_par_histogramme [30, 10, 20, 10] 40 \<and>
   stats_par_select (\<lambda>i. sort) [42] = None"
  using percentiles_agree [OF selects_by_sorting, of "[30, 10, 20, 10]" 40]
    percentiles_agree [OF selects_by_sorting, of "[42]" 100] by simp

text \<open>The data set of the demonstration lies between 1 and the bound, so the three calls of \<open>main\<close>
  agree on it.\<close>

lemma dataset_latences_range:
  assumes "0 < borne_max"
  shows "\<exists>data. dataset_latences taille borne_max = Some data \<and> length data = taille \<and>
    (\<forall>v \<in> set data. 1 \<le> v \<and> v \<le> borne_max)"
proof -
  have "1 \<le> x mod borne_max + 1 \<and> x mod borne_max + 1 \<le> borne_max" for x
  proof -
    have lt: "x mod borne_max < borne_max" using assms by (rule word_mod_less_divisor)
    then have u: "unat (x mod borne_max + 1) = unat (x mod borne_max) + 1"
      by (intro unat_Suc_u64) auto
    with lt show ?thesis by (simp add: word_le_nat_alt word_less_nat_alt)
  qed
  with assms show ?thesis by (auto simp: dataset_latences_def)
qed

end
