(* ===== verification/Layouts.thy ===== *)
theory Layouts
  imports Prelude
begin

text \<open>
  Memory layouts, \<open>demos/src/bin/exo02_layout.rs\<close> and \<open>demos/src/bin/demo02_memory_layout.rs\<close>: the
  sizes that \<open>#[repr(C)]\<close> gives to the structures, and the two representations of a series of
  points, an array of structures and a structure of arrays.
\<close>

section \<open>The size of a structure\<close>

datatype field_type = Bool | U8 | U32 | U64

fun size_of :: "field_type \<Rightarrow> nat" where
  "size_of Bool = 1"
| "size_of U8 = 1"
| "size_of U32 = 4"
| "size_of U64 = 8"

text \<open>On the 64-bit targets of the demonstrations a scalar is aligned to its size.\<close>

definition align_of :: "field_type \<Rightarrow> nat" where
  "align_of f = size_of f"

definition round_up :: "nat \<Rightarrow> nat \<Rightarrow> nat" where
  "round_up n a = (n + a - 1) div a * a"

text \<open>The rule of \<open>repr(C)\<close>: each field at the next multiple of its alignment, in the order of the
  declaration, and the size rounded up to the largest alignment.\<close>

definition place :: "nat \<Rightarrow> field_type \<Rightarrow> nat" where
  "place offset f = round_up offset (align_of f) + size_of f"

definition repr_c_align :: "field_type list \<Rightarrow> nat" where
  "repr_c_align fs = foldl max 1 (map align_of fs)"

definition repr_c_size :: "field_type list \<Rightarrow> nat" where
  "repr_c_size fs = round_up (foldl place 0 fs) (repr_c_align fs)"

definition repr_packed_size :: "field_type list \<Rightarrow> nat" where
  "repr_packed_size fs = sum_list (map size_of fs)"

definition point_naif_fields :: "field_type list" where
  "point_naif_fields = [Bool, U64, U8, U64]"

definition point_optimise_fields :: "field_type list" where
  "point_optimise_fields = [U64, U64, U8, Bool]"

definition metrique_mauvaise_fields :: "field_type list" where
  "metrique_mauvaise_fields = [Bool, U64, Bool]"

definition metrique_bonne_fields :: "field_type list" where
  "metrique_bonne_fields = [U64, Bool, Bool]"

definition metrique_packed_fields :: "field_type list" where
  "metrique_packed_fields = [U64, Bool, Bool]"

section \<open>The points of the exercise\<close>

record point_optimise =
  po_latence_ns :: u64
  po_timestamp_ns :: u64
  po_niveau :: u8
  po_actif :: bool

record metriques_aos =
  ma_points :: "point_optimise list"

record metriques_soa =
  ms_actifs :: "bool list"
  ms_niveaux :: "u8 list"
  ms_latences_ns :: "u64 list"
  ms_timestamps_ns :: "u64 list"

definition fabriquer_point :: "usize \<Rightarrow> point_optimise" where
  "fabriquer_point i =
     \<lparr>po_latence_ns = of_nat (i * 37 mod 1000000), po_timestamp_ns = 1700000000000000000 + of_nat i,
      po_niveau = of_nat (i mod 4), po_actif = (i mod 2 = 0)\<rparr>"

definition metriques_aos_nouvelle :: "usize \<Rightarrow> metriques_aos" where
  "metriques_aos_nouvelle n = \<lparr>ma_points = map fabriquer_point [0..<n]\<rparr>"

definition aos_somme_latences :: "metriques_aos \<Rightarrow> u64" where
  "aos_somme_latences m = sum_list (map po_latence_ns (ma_points m))"

definition aos_somme_filtree :: "metriques_aos \<Rightarrow> u64" where
  "aos_somme_filtree m =
     sum_list (map po_latence_ns (filter (\<lambda>p. po_actif p \<and> po_niveau p \<ge> 2) (ma_points m)))"

definition metriques_soa_nouvelle :: "usize \<Rightarrow> metriques_soa" where
  "metriques_soa_nouvelle n =
     foldl (\<lambda>m i. let p = fabriquer_point i
                 in \<lparr>ms_actifs = ms_actifs m @ [po_actif p], ms_niveaux = ms_niveaux m @ [po_niveau p],
                     ms_latences_ns = ms_latences_ns m @ [po_latence_ns p],
                     ms_timestamps_ns = ms_timestamps_ns m @ [po_timestamp_ns p]\<rparr>)
       \<lparr>ms_actifs = [], ms_niveaux = [], ms_latences_ns = [], ms_timestamps_ns = []\<rparr> [0..<n]"

definition soa_somme_latences :: "metriques_soa \<Rightarrow> u64" where
  "soa_somme_latences m = sum_list (ms_latences_ns m)"

text \<open>The loop over the indices of \<open>latences_ns\<close>; it panics when another vector is shorter.\<close>

fun soa_filter_loop :: "metriques_soa \<Rightarrow> usize list \<Rightarrow> u64 \<Rightarrow> u64 option" where
  "soa_filter_loop m [] tot = Some tot"
| "soa_filter_loop m (i # is) tot =
     (if i \<ge> length (ms_actifs m) then None
      else if \<not> ms_actifs m ! i then soa_filter_loop m is tot
      else if i \<ge> length (ms_niveaux m) then None
      else if ms_niveaux m ! i \<ge> 2 then soa_filter_loop m is (tot + ms_latences_ns m ! i)
      else soa_filter_loop m is tot)"

definition soa_somme_filtree :: "metriques_soa \<Rightarrow> u64 option" where
  "soa_somme_filtree m = soa_filter_loop m [0..<length (ms_latences_ns m)] 0"

section \<open>The measures of the demonstration\<close>

record point_aos =
  pa_latence_ns :: u64
  pa_statut :: u32
  pa_source_id :: u32

record mesures_soa =
  mo_latences_ns :: "u64 list"
  mo_statuts :: "u32 list"
  mo_source_ids :: "u32 list"

definition mesures_aos_nouvelle :: "usize \<Rightarrow> point_aos list" where
  "mesures_aos_nouvelle n =
     map (\<lambda>i. \<lparr>pa_latence_ns = of_nat i mod 10000 + 1, pa_statut = of_nat i mod 4, pa_source_id = of_nat i mod 16\<rparr>) [0..<n]"

definition mesures_aos_somme :: "point_aos list \<Rightarrow> u64" where
  "mesures_aos_somme points = sum_list (map pa_latence_ns points)"

definition mesures_soa_nouvelle :: "usize \<Rightarrow> mesures_soa" where
  "mesures_soa_nouvelle n =
     foldl (\<lambda>m i. \<lparr>mo_latences_ns = mo_latences_ns m @ [of_nat i mod 10000 + 1],
                   mo_statuts = mo_statuts m @ [of_nat i mod 4],
                   mo_source_ids = mo_source_ids m @ [of_nat i mod 16]\<rparr>)
       \<lparr>mo_latences_ns = [], mo_statuts = [], mo_source_ids = []\<rparr> [0..<n]"

definition mesures_soa_somme :: "mesures_soa \<Rightarrow> u64" where
  "mesures_soa_somme m = sum_list (mo_latences_ns m)"

section \<open>Transposition\<close>

definition transposed :: "point_optimise list \<Rightarrow> metriques_soa" where
  "transposed ps =
     \<lparr>ms_actifs = map po_actif ps, ms_niveaux = map po_niveau ps,
      ms_latences_ns = map po_latence_ns ps, ms_timestamps_ns = map po_timestamp_ns ps\<rparr>"

lemma soa_nouvelle_eq: "metriques_soa_nouvelle n = transposed (ma_points (metriques_aos_nouvelle n))"
  by (induction n) (simp_all add: metriques_soa_nouvelle_def transposed_def metriques_aos_nouvelle_def Let_def)

lemma soa_filter_loop_eq:
  "k \<le> length ps \<Longrightarrow>
   soa_filter_loop (transposed ps) [length ps - k..<length ps] tot =
     Some (tot + sum_list (map po_latence_ns (filter (\<lambda>p. po_actif p \<and> po_niveau p \<ge> 2) (drop (length ps - k) ps))))"
proof (induction k arbitrary: tot)
  case (Suc k)
  let ?i = "length ps - Suc k"
  have "[?i..<length ps] = ?i # [length ps - k..<length ps]"
    using Suc.prems by (simp add: upt_conv_Cons Suc_diff_Suc)
  moreover have "drop ?i ps = ps ! ?i # drop (length ps - k) ps"
    using Suc.prems by (metis Cons_nth_drop_Suc Suc_diff_Suc Suc_le_lessD diff_less zero_less_Suc less_le_trans)
  ultimately show ?case
    using Suc.IH Suc.prems by (simp add: transposed_def ac_simps)
qed simp

lemma soa_filtree_transposed:
  "soa_somme_filtree (transposed ps) = Some (aos_somme_filtree \<lparr>ma_points = ps\<rparr>)"
  using soa_filter_loop_eq [of "length ps" ps 0]
  by (simp add: soa_somme_filtree_def aos_somme_filtree_def) (simp add: transposed_def)

lemma mesures_agree: "mesures_soa_somme (mesures_soa_nouvelle n) = mesures_aos_somme (mesures_aos_nouvelle n)"
proof -
  have "mo_latences_ns (mesures_soa_nouvelle n) = map pa_latence_ns (mesures_aos_nouvelle n)"
    by (induction n) (simp_all add: mesures_soa_nouvelle_def mesures_aos_nouvelle_def)
  then show ?thesis by (simp add: mesures_soa_somme_def mesures_aos_somme_def)
qed

section \<open>Padding\<close>

lemma size_of_pos: "0 < size_of f"
  by (cases f) simp_all

lemma size_of_dvd: "size_of f \<le> size_of g \<Longrightarrow> size_of f dvd size_of g"
  by (cases f; cases g) simp_all

lemma round_up_ge: "0 < a \<Longrightarrow> n \<le> round_up n a"
proof -
  assume "0 < a"
  then have "n + a - 1 < (n + a - 1) div a * a + a"
    using dividend_less_div_times [of a "n + a - 1"] by simp
  then show ?thesis using \<open>0 < a\<close> by (simp add: round_up_def)
qed

lemma round_up_mono: "n \<le> m \<Longrightarrow> round_up n a \<le> round_up m a"
  by (simp add: round_up_def div_le_mono)

lemma round_up_dvd: "0 < a \<Longrightarrow> a dvd n \<Longrightarrow> round_up n a = n"
proof -
  assume "0 < a" "a dvd n"
  then obtain k where k: "n = a * k" by (elim dvdE)
  have "(a - 1 + k * a) div a = k" using \<open>0 < a\<close> by (subst div_mult_self1) simp_all
  moreover have "n + a - 1 = a - 1 + k * a" using k \<open>0 < a\<close> by (simp add: mult.commute)
  ultimately show ?thesis using k by (simp add: round_up_def mult.commute)
qed

lemma place_ge: "sum_list (map size_of fs) + offset \<le> foldl place offset fs"
proof (induction fs arbitrary: offset)
  case (Cons f fs)
  have "offset + size_of f \<le> place offset f"
    using round_up_ge [OF size_of_pos, of offset f] by (simp add: place_def align_of_def)
  with Cons [of "place offset f"] show ?case by simp
qed simp

lemma place_decreasing:
  assumes "sorted_wrt (\<lambda>f g. size_of f \<ge> size_of g) fs" and "\<forall>f \<in> set fs. size_of f dvd offset"
  shows "foldl place offset fs = offset + sum_list (map size_of fs)"
  using assms
proof (induction fs arbitrary: offset)
  case (Cons f fs)
  have "place offset f = offset + size_of f"
    using Cons.prems(2) by (simp add: place_def align_of_def round_up_dvd size_of_pos)
  moreover have "\<forall>g \<in> set fs. size_of g dvd offset + size_of f"
    using Cons.prems by (simp add: size_of_dvd)
  ultimately show ?case using Cons by simp
qed simp

lemma repr_c_align_perm: "mset fs = mset gs \<Longrightarrow> repr_c_align fs = repr_c_align gs"
  unfolding repr_c_align_def by (rule foldl_perm) (auto simp: max.assoc max.commute max.left_commute)


section \<open>The properties\<close>

text \<open>Declaring the fields from the most to the least aligned is optimal: under \<open>repr(C)\<close> no other
  order of the same fields is smaller, and there is no padding but the final one. The exercise's
  structures have 32 and 24 bytes, the demonstration's 24, 16 and, packed, 10, as their tests say.\<close>

theorem layout_order_optimal:
  assumes "mset gs = mset fs" and "sorted_wrt (\<lambda>f g. align_of f \<ge> align_of g) gs"
  shows "repr_c_size gs \<le> repr_c_size fs \<and>
    repr_c_size gs = round_up (repr_packed_size gs) (repr_c_align gs) \<and>
    repr_c_size point_naif_fields = 32 \<and> repr_c_size point_optimise_fields = 24 \<and>
    repr_c_size metrique_mauvaise_fields = 24 \<and> repr_c_size metrique_bonne_fields = 16 \<and>
    repr_packed_size metrique_packed_fields = 10"
proof -
  have sum: "sum_list (map size_of gs) = sum_list (map size_of fs)"
    using assms(1) by (metis mset_map sum_mset_sum_list)
  have gs: "foldl place 0 gs = sum_list (map size_of gs)"
    using place_decreasing [of gs 0] assms(2) by (simp add: align_of_def)
  with sum place_ge [of fs 0] have "foldl place 0 gs \<le> foldl place 0 fs" by simp
  then have "repr_c_size gs \<le> repr_c_size fs"
    unfolding repr_c_size_def repr_c_align_perm [OF assms(1)] by (rule round_up_mono)
  moreover have "repr_c_size point_naif_fields = 32" "repr_c_size point_optimise_fields = 24"
    "repr_c_size metrique_mauvaise_fields = 24" "repr_c_size metrique_bonne_fields = 16"
    "repr_packed_size metrique_packed_fields = 10"
    by code_simp+
  ultimately show ?thesis by (simp add: repr_c_size_def gs repr_packed_size_def)
qed

lemma layout_order_optimal_witness: "repr_c_size point_optimise_fields \<le> repr_c_size point_naif_fields"
  using layout_order_optimal [of point_optimise_fields point_naif_fields]
  by (simp add: point_optimise_fields_def point_naif_fields_def align_of_def)

text \<open>The two representations agree: for every number of points the structure of arrays holds
  the columns of the array of structures, its sums are the same, and its loop over the indices
  never goes out of range.\<close>

theorem representations_agree:
  "metriques_soa_nouvelle n = transposed (ma_points (metriques_aos_nouvelle n)) \<and>
   soa_somme_latences (metriques_soa_nouvelle n) = aos_somme_latences (metriques_aos_nouvelle n) \<and>
   soa_somme_filtree (metriques_soa_nouvelle n) = Some (aos_somme_filtree (metriques_aos_nouvelle n)) \<and>
   mesures_soa_somme (mesures_soa_nouvelle n) = mesures_aos_somme (mesures_aos_nouvelle n)"
  unfolding soa_nouvelle_eq soa_filtree_transposed mesures_agree
  by (simp add: soa_somme_latences_def aos_somme_latences_def transposed_def metriques_aos_nouvelle_def)

end
