(* ===== verification/Pipeline.thy ===== *)
theory Pipeline
  imports Prelude
begin

text \<open>
  Data-parallel pipelines: \<open>demos/src/bin/demo03_rayon_pipeline.rs\<close> and the sums of squares of
  \<open>demos/src/lib.rs\<close>.

  rayon splits a parallel iterator into consecutive parts, as it finds threads idle, works on each
  part and combines the results pairwise in order. A \<open>split\<close> is one such choice: the tree of the
  combinations with the parts at its leaves. A parallel operation takes the split as an argument;
  its sequence of elements is \<open>split_items\<close>. The order in which a \<open>HashMap\<close> is iterated is the
  argument \<open>order\<close>. Sums of \<open>u64\<close> wrap, as in the release profile.
\<close>

datatype 'a split = Part "'a list" | Join "'a split" "'a split"

fun split_items :: "'a split \<Rightarrow> 'a list" where
  "split_items (Part xs) = xs"
| "split_items (Join l r) = split_items l @ split_items r"

text \<open>Folding every part from \<open>e\<close> and combining the results with \<open>c\<close>.\<close>

fun par_fold :: "('b \<Rightarrow> 'a \<Rightarrow> 'b) \<Rightarrow> 'b \<Rightarrow> ('b \<Rightarrow> 'b \<Rightarrow> 'b) \<Rightarrow> 'a split \<Rightarrow> 'b" where
  "par_fold f e c (Part xs) = foldl f e xs"
| "par_fold f e c (Join l r) = c (par_fold f e c l) (par_fold f e c r)"

section \<open>Log lines\<close>

record evenement_log =
  ev_source_ip :: string
  ev_niveau :: string
  ev_latence_ms :: u32

definition is_digit :: "char \<Rightarrow> bool" where
  "is_digit c \<longleftrightarrow> 48 \<le> (of_char c :: nat) \<and> of_char c \<le> (57 :: nat)"

text \<open>\<open>str::parse::<u32>\<close>: an optional plus sign, then digits, and the number must fit.\<close>

definition parse_u32 :: "string \<Rightarrow> u32 option" where
  "parse_u32 s =
     (let digits = (if s \<noteq> [] \<and> hd s = CHR ''+'' then tl s else s)
      in if digits = [] \<or> \<not> list_all is_digit digits \<or> read_nat digits \<ge> 2 ^ 32 then None
         else Some (of_nat (read_nat digits)))"

definition parser_ligne :: "string \<Rightarrow> evenement_log option" where
  "parser_ligne ligne =
     (case split_on CHR '';'' ligne of
        source_ip # niveau # latence # _ \<Rightarrow>
          map_option (\<lambda>ms. \<lparr>ev_source_ip = source_ip, ev_niveau = niveau, ev_latence_ms = ms\<rparr>) (parse_u32 latence)
      | _ \<Rightarrow> None)"

definition log_ips :: "string list" where
  "log_ips = [''10.0.0.1'', ''10.0.0.2'', ''10.0.0.3'', ''10.0.0.4'', ''10.0.0.5'', ''10.0.0.6'', ''10.0.0.7'', ''10.0.0.8'']"

definition log_niveaux :: "string list" where
  "log_niveaux = [''INFO'', ''WARN'', ''ERROR'']"

definition log_latence :: "nat \<Rightarrow> u32" where
  "log_latence i = of_nat (i * 7 mod 500) + 10"

definition generer_logs :: "usize \<Rightarrow> string list" where
  "generer_logs n =
     map (\<lambda>i. log_ips ! (i mod length log_ips) @ '';'' @ log_niveaux ! (i mod length log_niveaux) @ '';'' @
              show_word (log_latence i)) [0..<n]"

section \<open>The aggregation\<close>

type_synonym agregat = "string \<rightharpoonup> u64"

text \<open>\<open>*acc.entry(k).or_insert(0) += v\<close>\<close>

definition entry_add :: "string \<Rightarrow> u64 \<Rightarrow> agregat \<Rightarrow> agregat" where
  "entry_add k v m = m(k \<mapsto> (case m k of Some x \<Rightarrow> x | None \<Rightarrow> 0) + v)"

definition aggregate :: "agregat \<Rightarrow> evenement_log \<Rightarrow> agregat" where
  "aggregate acc e = entry_add (ev_source_ip e) (ucast (ev_latence_ms e)) acc"

definition errors_of :: "string list \<Rightarrow> evenement_log list" where
  "errors_of lignes = filter (\<lambda>e. ev_niveau e = ''ERROR'') (List.map_filter parser_ligne lignes)"

definition pipeline_sequentiel :: "string list \<Rightarrow> agregat" where
  "pipeline_sequentiel lignes = foldl aggregate Map.empty (errors_of lignes)"

definition fusion_hashmaps :: "(agregat \<Rightarrow> (string \<times> u64) list) \<Rightarrow> agregat \<Rightarrow> agregat \<Rightarrow> agregat" where
  "fusion_hashmaps order a b = foldl (\<lambda>a (k, v). entry_add k v a) a (order b)"

text \<open>The parallel filters work line by line, so a part of the lines becomes a part of the events.\<close>

fun split_errors :: "string split \<Rightarrow> evenement_log split" where
  "split_errors (Part lignes) = Part (errors_of lignes)"
| "split_errors (Join l r) = Join (split_errors l) (split_errors r)"

definition pipeline_parallele :: "(agregat \<Rightarrow> (string \<times> u64) list) \<Rightarrow> string split \<Rightarrow> agregat" where
  "pipeline_parallele order lignes =
     par_fold aggregate Map.empty (fusion_hashmaps order) (split_errors lignes)"

section \<open>Sums and maxima\<close>

function somme_recursive :: "u64 list \<Rightarrow> u64" where
  "somme_recursive xs =
     (if length xs \<le> 4096 then sum_list xs
      else
        (let mid = length xs div 2
         in somme_recursive (take mid xs) + somme_recursive (drop mid xs)))"
  by pat_completeness auto
termination
  by (relation "measure length") auto

declare somme_recursive.simps [simp del]

text \<open>The chunks of at most \<open>k\<close> elements, as \<open>par_chunks\<close> yields them.\<close>

function chunks :: "nat \<Rightarrow> 'a list \<Rightarrow> 'a list list" where
  "chunks k xs = (if xs = [] \<or> k = 0 then [] else take k xs # chunks k (drop k xs))"
  by pat_completeness auto
termination
  by (relation "measure (\<lambda>(k, xs). length xs)") auto

declare chunks.simps [simp del]

text \<open>The maximum of an iterator, \<open>None\<close> when it is empty, unwrapped to 0.\<close>

definition max_or_zero :: "u32 list \<Rightarrow> u32" where
  "max_or_zero xs = (case xs of [] \<Rightarrow> 0 | x # xs \<Rightarrow> foldl max x xs)"

definition max_par_chunks :: "u32 list \<Rightarrow> u32" where
  "max_par_chunks xs = max_or_zero (map max_or_zero (chunks 1024 xs))"

definition somme_carres_naive :: "u64 list \<Rightarrow> u64" where
  "somme_carres_naive xs = sum_list (map (\<lambda>x. x * x) xs)"

definition somme_carres_rayon :: "u64 split \<Rightarrow> u64" where
  "somme_carres_rayon s = par_fold (\<lambda>acc x. acc + x * x) 0 (+) s"

definition somme_carres_preallouee :: "u64 list \<Rightarrow> u64" where
  "somme_carres_preallouee xs = (let carres = foldl (\<lambda>carres x. carres @ [x * x]) [] xs in sum_list carres)"

definition somme_carres_sans_prealloc :: "u64 list \<Rightarrow> u64" where
  "somme_carres_sans_prealloc xs = (let carres = foldl (\<lambda>carres x. carres @ [x * x]) [] xs in sum_list carres)"

definition somme_carres_alloc_spam :: "u64 list \<Rightarrow> u64" where
  "somme_carres_alloc_spam xs = foldl (\<lambda>tot x. let tmp = [x * x] in tot + sum_list tmp) 0 xs"

section \<open>Any split gives the sequential result\<close>

text \<open>When combining with a result does what folding over its elements would do, the split does not
  matter.\<close>

lemma par_fold_sequential:
  assumes "\<And>b xs. P b \<Longrightarrow> P (foldl f b xs)" "P e"
    and "\<And>b xs. P b \<Longrightarrow> c b (foldl f e xs) = foldl f b xs"
  shows "par_fold f e c s = foldl f e (split_items s)"
proof (induction s)
  case (Join l r)
  have "P (foldl f e (split_items l))" using assms(1,2) by blast
  from assms(3) [OF this] Join show ?case by simp
qed simp

lemma split_items_errors: "split_items (split_errors s) = errors_of (split_items s)"
  by (induction s) (simp_all add: errors_of_def List.map_filter_def)

lemma aggregate_entry:
  "(case foldl aggregate m es k of Some x \<Rightarrow> x | None \<Rightarrow> 0) =
     (case m k of Some x \<Rightarrow> x | None \<Rightarrow> 0) +
     sum_list (map (\<lambda>e. ucast (ev_latence_ms e)) (filter (\<lambda>e. ev_source_ip e = k) es))"
  "dom (foldl aggregate m es) = dom m \<union> ev_source_ip ` set es"
  by (induction es arbitrary: m)
     (auto simp: aggregate_def entry_add_def add.assoc split: option.splits)

lemma dom_entry_add: "dom (entry_add k v m) = insert k (dom m)"
  by (simp add: entry_add_def)

lemma fusion_entry:
  assumes "distinct (map fst items)"
  shows "(case foldl (\<lambda>a (k, v). entry_add k v a) a items k of Some x \<Rightarrow> x | None \<Rightarrow> 0) =
      (case a k of Some x \<Rightarrow> x | None \<Rightarrow> 0) + (case map_of items k of Some x \<Rightarrow> x | None \<Rightarrow> 0)"
    and "dom (foldl (\<lambda>a (k, v). entry_add k v a) a items) = dom a \<union> dom (map_of items)"
  using assms
proof (induction items arbitrary: a)
  case (Cons item items)
  obtain k0 v0 where item: "item = (k0, v0)" by fastforce
  {
    case 1
    then have new: "map_of items k0 = None" using item by (simp add: map_of_eq_None_iff)
    from 1 show ?case using Cons.IH(1) [of "entry_add k0 v0 a"] new item
      by (auto simp: entry_add_def split: option.splits)
  next
    case 2
    have "dom (map_of (item # items)) = insert k0 (dom (map_of items))" using item by simp
    with 2 show ?case using Cons.IH(2) [of "entry_add k0 v0 a"] item
      by (simp only: foldl_Cons prod.case dom_entry_add) simp
  }
qed simp_all

lemma agregat_ext:
  assumes "dom a = dom b"
    and "\<And>k. (case a k of Some x \<Rightarrow> x | None \<Rightarrow> 0) = (case b k of Some x \<Rightarrow> x | None \<Rightarrow> (0 :: u64))"
  shows "a = b"
proof
  fix k
  have "a k = None \<longleftrightarrow> b k = None" using assms(1) by blast
  with assms(2) [of k] show "a k = b k" by (cases "a k"; cases "b k") auto
qed

lemma finite_aggregate: "finite (dom m) \<Longrightarrow> finite (dom (foldl aggregate m es))"
  by (simp add: aggregate_entry(2))

lemma fusion_aggregate:
  assumes "iterates (foldl aggregate Map.empty es) (order (foldl aggregate Map.empty es))"
  shows "fusion_hashmaps order a (foldl aggregate Map.empty es) = foldl aggregate a es"
proof (rule agregat_ext)
  note it = iteratesD(1,2) [OF assms]
  show "dom (fusion_hashmaps order a (foldl aggregate Map.empty es)) = dom (foldl aggregate a es)"
    by (simp add: fusion_hashmaps_def fusion_entry(2) [OF it(1)] it(2) aggregate_entry(2))
  fix k
  show "(case fusion_hashmaps order a (foldl aggregate Map.empty es) k of Some x \<Rightarrow> x | None \<Rightarrow> 0) =
      (case foldl aggregate a es k of Some x \<Rightarrow> x | None \<Rightarrow> 0)"
    by (simp add: fusion_hashmaps_def fusion_entry(1) [OF it(1)] it(2) aggregate_entry(1))
qed

lemma somme_recursive_eq: "somme_recursive xs = sum_list xs"
proof (induction xs rule: somme_recursive.induct)
  case (1 xs)
  show ?case
  proof (cases "length xs \<le> 4096")
    case False
    have "sum_list (take (length xs div 2) xs) + sum_list (drop (length xs div 2) xs) = sum_list xs"
      by (metis append_take_drop_id sum_list_append)
    with 1 False show ?thesis by (subst somme_recursive.simps) (simp add: Let_def)
  qed (simp add: somme_recursive.simps)
qed

lemma max_or_zero_eq: "max_or_zero xs = Max (insert 0 (set xs))"
proof -
  have "foldl max x xs = Max (insert x (set xs))" for x and xs :: "u32 list"
  proof (induction xs rule: rev_induct)
    case (snoc y ys)
    then show ?case by (simp add: Max_insert insert_commute [of x] max.commute)
  qed simp
  then show ?thesis by (cases xs) (auto simp: max_or_zero_def Max_insert)
qed

lemma set_chunks: "0 < k \<Longrightarrow> \<Union> (set ` set (chunks k xs)) = set xs"
proof (induction k xs rule: chunks.induct)
  case (1 k xs)
  show ?case
  proof (cases "xs = []")
    case False
    with 1 have "\<Union> (set ` set (chunks k xs)) = set (take k xs) \<union> set (drop k xs)"
      by (subst chunks.simps) simp
    then show ?thesis by (metis append_take_drop_id set_append)
  qed (simp add: chunks.simps)
qed

lemma max_par_chunks_eq: "max_par_chunks xs = Max (insert 0 (set xs))"
proof -
  have "Max (insert 0 (\<Union> (set ` set xss))) = Max (insert 0 ((\<lambda>xs. Max (insert 0 (set xs))) ` set xss))"
    for xss :: "u32 list list"
  proof (induction xss)
    case (Cons xs xss)
    have "Max (insert 0 (set xs \<union> \<Union> (set ` set xss))) = max (Max (insert 0 (set xs))) (Max (insert 0 (\<Union> (set ` set xss))))"
      using Max_Un [of "insert 0 (set xs)" "insert 0 (\<Union> (set ` set xss))"] by (simp add: Un_insert_left)
    moreover have "max (Max (insert 0 (set xs))) (Max (insert 0 S)) = Max (insert (Max (insert 0 (set xs))) S)"
      if "finite S" for S
      using that by (cases "S = {}") (simp_all add: Max_insert max_def)
    ultimately show ?case using Cons by (simp add: insert_commute [of 0])
  qed simp
  from this [of "chunks 1024 xs"] show ?thesis
    by (simp add: max_par_chunks_def max_or_zero_eq set_chunks comp_def image_image)
qed

section \<open>Generated lines\<close>

lemma of_char_digit: "d < 10 \<Longrightarrow> of_char (digit_char d) = 48 + d"
  by (simp add: digit_char_def)

lemma is_digit_show: "list_all is_digit (show_nat n)"
  by (auto simp: list_all_iff is_digit_def of_char_digit dest!: set_show_nat)

lemma not_digit: "c \<in> set (show_nat n) \<Longrightarrow> c \<noteq> CHR ''+'' \<and> c \<noteq> CHR '';''"
  using is_digit_show [of n] by (auto simp: list_all_iff is_digit_def)

lemma parse_show_u32: "parse_u32 (show_word w) = Some w"
proof -
  have "hd (show_word w) \<noteq> CHR ''+''"
    using not_digit [of "hd (show_word w)" "unat w"] hd_in_set [OF show_nat_nonempty] by auto
  moreover have "unat w < 2 ^ 32" using unsigned_less [of w] by simp
  ultimately show ?thesis
    by (simp add: parse_u32_def Let_def show_nat_nonempty is_digit_show read_show_nat)
qed

lemma parse_generated:
  assumes "i < n"
  shows "parser_ligne (generer_logs n ! i) =
    Some \<lparr>ev_source_ip = log_ips ! (i mod 8), ev_niveau = log_niveaux ! (i mod 3), ev_latence_ms = log_latence i\<rparr>"
proof -
  have "list_all (\<lambda>ip. CHR '';'' \<notin> set ip) log_ips" "list_all (\<lambda>niv. CHR '';'' \<notin> set niv) log_niveaux"
    "length log_ips = 8" "length log_niveaux = 3"
    by code_simp+
  then have "CHR '';'' \<notin> set (log_ips ! (i mod 8))" "CHR '';'' \<notin> set (log_niveaux ! (i mod 3))"
    by (simp_all add: list_all_length)
  moreover have "CHR '';'' \<notin> set (show_word (log_latence i))" using not_digit by blast
  ultimately show ?thesis
    using assms \<open>length log_ips = 8\<close> \<open>length log_niveaux = 3\<close>
    by (simp add: generer_logs_def parser_ligne_def split_on_append split_on_no_sep parse_show_u32)
qed

section \<open>The properties\<close>

text \<open>C38. The parallel pipeline computes the sequential aggregation: however rayon splits the lines and
  whatever the order in which the partial maps are iterated, the result is the one of
  \<open>pipeline_sequentiel\<close>, which holds for each address of an error line the sum of the latencies of
  its error lines, and nothing else.\<close>

theorem pipeline_parallel_sequential:
  assumes "\<And>m. finite (dom m) \<Longrightarrow> iterates m (order m)"
  shows "pipeline_parallele order s = pipeline_sequentiel (split_items s) \<and>
    pipeline_sequentiel lignes ip =
      (if ip \<in> ev_source_ip ` set (errors_of lignes)
       then Some (sum_list (map (\<lambda>e. ucast (ev_latence_ms e)) (filter (\<lambda>e. ev_source_ip e = ip) (errors_of lignes))))
       else None)"
proof
  have "iterates (foldl aggregate Map.empty es) (order (foldl aggregate Map.empty es))" for es
    by (rule assms) (simp add: finite_aggregate)
  then show "pipeline_parallele order s = pipeline_sequentiel (split_items s)"
    unfolding pipeline_parallele_def pipeline_sequentiel_def split_items_errors [symmetric]
    by (intro par_fold_sequential [where P = "\<lambda>_. True"]) (simp_all add: fusion_aggregate)
next
  have "dom (pipeline_sequentiel lignes) = ev_source_ip ` set (errors_of lignes)"
    by (simp add: pipeline_sequentiel_def aggregate_entry(2))
  moreover have "(case pipeline_sequentiel lignes ip of Some x \<Rightarrow> x | None \<Rightarrow> 0) =
      sum_list (map (\<lambda>e. ucast (ev_latence_ms e)) (filter (\<lambda>e. ev_source_ip e = ip) (errors_of lignes)))"
    by (simp add: pipeline_sequentiel_def aggregate_entry(1))
  ultimately show "pipeline_sequentiel lignes ip =
      (if ip \<in> ev_source_ip ` set (errors_of lignes)
       then Some (sum_list (map (\<lambda>e. ucast (ev_latence_ms e)) (filter (\<lambda>e. ev_source_ip e = ip) (errors_of lignes))))
       else None)"
    by (cases "pipeline_sequentiel lignes ip") auto
qed

text \<open>One order of iteration: by increasing key.\<close>

definition key_order :: "agregat \<Rightarrow> (string \<times> u64) list" where
  "key_order m = map (\<lambda>k. (k, the (m k))) (sorted_list_of_set (dom m))"

lemma iterates_key_order:
  assumes "finite (dom m)"
  shows "iterates m (key_order m)"
proof -
  have "map_of (key_order m) k = m k" for k
    using assms by (auto simp: key_order_def map_of_map_restrict restrict_map_def dom_def)
  then have "map_of (key_order m) = m" by (rule ext)
  then show ?thesis by (simp add: iterates_def key_order_def comp_def)
qed

lemma pipeline_parallel_sequential_witness:
  "pipeline_parallele key_order
     (Join (Part [''10.0.0.1;INFO;10'', ''10.0.0.1;ERROR;30'']) (Part [''10.0.0.2;ERROR;40'', ''10.0.0.1;ERROR;2'']))
     ''10.0.0.1'' = Some 32"
proof -
  let ?s = "Join (Part [''10.0.0.1;INFO;10'', ''10.0.0.1;ERROR;30'']) (Part [''10.0.0.2;ERROR;40'', ''10.0.0.1;ERROR;2''])"
  have "pipeline_parallele key_order ?s = pipeline_sequentiel (split_items ?s)"
    using pipeline_parallel_sequential [of key_order, OF iterates_key_order, of ?s] by blast
  moreover have "pipeline_sequentiel (split_items ?s) ''10.0.0.1'' = Some 32"
    by (simp add: pipeline_sequentiel_def errors_of_def List.map_filter_def parser_ligne_def parse_u32_def
        read_nat_def char_digit_def is_digit_def aggregate_def entry_add_def Let_def)
  ultimately show ?thesis by simp
qed

text \<open>The parallel and the rewritten sums and maxima compute what the plain loops compute:
  \<open>somme_recursive\<close> is the sum, however deep it forks, \<open>max_par_chunks\<close> the maximum (0 for an empty
  slice), the five sums of squares agree on any split, and every line that \<open>generer_logs\<close> writes is
  parsed back.\<close>

theorem parallel_sums_correct:
  "somme_recursive xs = sum_list xs \<and>
   max_par_chunks ys = Max (insert 0 (set ys)) \<and>
   somme_carres_rayon s = somme_carres_naive (split_items s) \<and>
   somme_carres_preallouee xs = somme_carres_naive xs \<and>
   somme_carres_sans_prealloc xs = somme_carres_naive xs \<and>
   somme_carres_alloc_spam xs = somme_carres_naive xs \<and>
   map parser_ligne (generer_logs n) =
     map (\<lambda>i. Some \<lparr>ev_source_ip = log_ips ! (i mod 8), ev_niveau = log_niveaux ! (i mod 3),
                    ev_latence_ms = log_latence i\<rparr>) [0..<n]"
proof -
  have sum: "foldl (\<lambda>acc x. acc + x * x) b xs = b + somme_carres_naive xs" for b and xs :: "u64 list"
    by (induction xs arbitrary: b) (simp_all add: somme_carres_naive_def add.assoc)
  have push: "foldl (\<lambda>carres x. carres @ [x * x]) ys xs = ys @ map (\<lambda>x. x * x) xs" for ys xs :: "u64 list"
    by (induction xs arbitrary: ys) simp_all
  have "somme_carres_rayon s = somme_carres_naive (split_items s)"
    using par_fold_sequential [of "\<lambda>_. True" "\<lambda>acc x. acc + x * x" 0 "(+)" s]
    by (simp add: somme_carres_rayon_def sum)
  moreover have "map parser_ligne (generer_logs n) =
     map (\<lambda>i. Some \<lparr>ev_source_ip = log_ips ! (i mod 8), ev_niveau = log_niveaux ! (i mod 3),
                    ev_latence_ms = log_latence i\<rparr>) [0..<n]"
  proof -
    have "length (generer_logs n) = n" by (simp add: generer_logs_def)
    then show ?thesis by (intro nth_equalityI) (simp_all add: parse_generated)
  qed
  ultimately show ?thesis
    by (simp add: somme_recursive_eq max_par_chunks_eq somme_carres_preallouee_def push
        somme_carres_sans_prealloc_def somme_carres_alloc_spam_def sum Let_def)
       (simp add: somme_carres_naive_def)
qed

end
