(* ===== verification/Protobuf.thy ===== *)
theory Protobuf
  imports Prelude
begin

text \<open>
  The hand-written Protobuf encoder of \<open>demos/src/bin/demo09_serde_formats.rs\<close>, and a decoder of
  the wire format as its documentation describes it (varints of seven bits a byte, least
  significant first; a key holds a field number and a wire type; wire types 0, 1 and 2 are a
  varint, eight bytes and a length with that many bytes).

  A \<open>String\<close> is its bytes, an \<open>f64\<close> its 64 bits, an \<open>i64\<close> its two's complement. The order in
  which the labels of a metric are iterated is an argument.
\<close>

unbundle bit_operations_syntax

section \<open>The encoder\<close>

record metric =
  me_name :: string
  me_value :: u64
  me_labels :: "string \<rightharpoonup> string"

record metric_report =
  re_hostname :: string
  re_datacenter :: string
  re_timestamp :: i64
  re_metrics :: "metric list"

lemma drop_bit_less: "(v :: u64) \<ge> 0x80 \<Longrightarrow> unat (drop_bit 7 v) < unat v"
  by (simp add: word_le_nat_alt unat_drop_bit_eq drop_bit_eq_div unat_div_distrib)

function write_varint :: "u64 \<Rightarrow> u8 list" where
  "write_varint v =
     (if v \<ge> 0x80 then (ucast (v AND 0x7F) OR 0x80) # write_varint (drop_bit 7 v)
      else [ucast v])"
  by pat_completeness auto
termination
  by (relation "measure unat") (auto intro: drop_bit_less)

declare write_varint.simps [simp del]

definition write_tag :: "u32 \<Rightarrow> u32 \<Rightarrow> u8 list" where
  "write_tag field wire_type = write_varint (ucast (push_bit 3 field OR wire_type))"

definition as_bytes :: "string \<Rightarrow> u8 list" where
  "as_bytes s = map of_char s"

definition write_string :: "u32 \<Rightarrow> string \<Rightarrow> u8 list" where
  "write_string field s = write_tag field 2 @ write_varint (of_nat (length (as_bytes s))) @ as_bytes s"

fun le_bytes :: "nat \<Rightarrow> u64 \<Rightarrow> u8 list" where
  "le_bytes 0 v = []"
| "le_bytes (Suc n) v = ucast v # le_bytes n (drop_bit 8 v)"

definition write_double :: "u32 \<Rightarrow> u64 \<Rightarrow> u8 list" where
  "write_double field v = write_tag field 1 @ le_bytes 8 v"

definition write_int64 :: "u32 \<Rightarrow> i64 \<Rightarrow> u8 list" where
  "write_int64 field v = write_tag field 0 @ write_varint v"

definition label_entry :: "string \<times> string \<Rightarrow> u8 list" where
  "label_entry kv = write_string 1 (fst kv) @ write_string 2 (snd kv)"

definition write_sub :: "u32 \<Rightarrow> u8 list \<Rightarrow> u8 list" where
  "write_sub field sub = write_tag field 2 @ write_varint (of_nat (length sub)) @ sub"

definition encode_metric :: "((string \<rightharpoonup> string) \<Rightarrow> (string \<times> string) list) \<Rightarrow> metric \<Rightarrow> u8 list" where
  "encode_metric order m =
     write_string 1 (me_name m) @ write_double 2 (me_value m) @
     concat (map (\<lambda>kv. write_sub 3 (label_entry kv)) (order (me_labels m)))"

definition protobuf_like_encode ::
  "((string \<rightharpoonup> string) \<Rightarrow> (string \<times> string) list) \<Rightarrow> metric_report \<Rightarrow> u8 list" where
  "protobuf_like_encode order report =
     write_string 1 (re_hostname report) @ write_string 2 (re_datacenter report) @
     write_int64 3 (re_timestamp report) @
     concat (map (\<lambda>m. write_sub 4 (encode_metric order m)) (re_metrics report))"

section \<open>A decoder of the wire format\<close>

fun read_varint :: "u8 list \<Rightarrow> (u64 \<times> u8 list) option" where
  "read_varint [] = None"
| "read_varint (b # bs) =
     (if b < 0x80 then Some (ucast b, bs)
      else map_option (\<lambda>(v, rest). (ucast (b AND 0x7F) + push_bit 7 v, rest)) (read_varint bs))"

datatype wire = Varint u64 | Fixed64 "u8 list" | Bytes "u8 list"

definition read_field :: "u8 list \<Rightarrow> ((u64 \<times> wire) \<times> u8 list) option" where
  "read_field bs =
     (case read_varint bs of
        None \<Rightarrow> None
      | Some (key, rest) \<Rightarrow>
          let field = drop_bit 3 key
          in if key AND 7 = 0 then map_option (\<lambda>(v, rest). ((field, Varint v), rest)) (read_varint rest)
             else if key AND 7 = 1 then
               (if length rest < 8 then None else Some ((field, Fixed64 (take 8 rest)), drop 8 rest))
             else if key AND 7 = 2 then
               (case read_varint rest of
                  None \<Rightarrow> None
                | Some (n, rest) \<Rightarrow>
                    if length rest < unat n then None
                    else Some ((field, Bytes (take (unat n) rest)), drop (unat n) rest))
             else None)"

lemma read_varint_shrinks: "read_varint bs = Some (v, rest) \<Longrightarrow> length rest < length bs"
  by (induction bs arbitrary: v rest) (fastforce split: if_splits)+

lemma read_field_shrinks: "read_field bs = Some (f, rest) \<Longrightarrow> length rest < length bs"
  by (auto simp: read_field_def Let_def dest!: read_varint_shrinks split: option.splits if_splits prod.splits)

function read_fields :: "u8 list \<Rightarrow> (u64 \<times> wire) list option" where
  "read_fields bs =
     (if bs = [] then Some []
      else
        (case read_field bs of
           None \<Rightarrow> None
         | Some (f, rest) \<Rightarrow> map_option ((#) f) (read_fields rest)))"
  by pat_completeness auto
termination
  by (relation "measure length") (auto intro: read_field_shrinks)

declare read_fields.simps [simp del]

text \<open>The messages: a field that is given once is looked up by its number (the last one counts), a
  repeated field is the list of its occurrences.\<close>

definition occurrences :: "u64 \<Rightarrow> (u64 \<times> wire) list \<Rightarrow> wire list" where
  "occurrences field fs = map snd (filter (\<lambda>f. fst f = field) fs)"

definition string_of_bytes :: "u8 list \<Rightarrow> string" where
  "string_of_bytes bs = map (char_of \<circ> unat) bs"

fun text_of :: "wire \<Rightarrow> string" where
  "text_of (Bytes bs) = string_of_bytes bs"
| "text_of _ = []"

fun from_le :: "u8 list \<Rightarrow> u64" where
  "from_le [] = 0"
| "from_le (b # bs) = ucast b + push_bit 8 (from_le bs)"

fun number_of :: "wire \<Rightarrow> u64" where
  "number_of (Varint v) = v"
| "number_of (Fixed64 bs) = from_le bs"
| "number_of (Bytes _) = 0"

fun bytes_of :: "wire \<Rightarrow> u8 list" where
  "bytes_of (Bytes bs) = bs"
| "bytes_of _ = []"

definition string_field :: "u64 \<Rightarrow> (u64 \<times> wire) list \<Rightarrow> string" where
  "string_field field fs = (if occurrences field fs = [] then [] else text_of (last (occurrences field fs)))"

definition number_field :: "u64 \<Rightarrow> (u64 \<times> wire) list \<Rightarrow> u64" where
  "number_field field fs = (if occurrences field fs = [] then 0 else number_of (last (occurrences field fs)))"

definition decode_entry :: "u8 list \<Rightarrow> (string \<times> string) option" where
  "decode_entry bs = map_option (\<lambda>fs. (string_field 1 fs, string_field 2 fs)) (read_fields bs)"

definition decode_metric :: "u8 list \<Rightarrow> metric option" where
  "decode_metric bs =
     (case read_fields bs of
        None \<Rightarrow> None
      | Some fs \<Rightarrow>
          map_option
            (\<lambda>entries. \<lparr>me_name = string_field 1 fs, me_value = number_field 2 fs, me_labels = map_of (rev entries)\<rparr>)
            (those (map (decode_entry \<circ> bytes_of) (occurrences 3 fs))))"

definition decode_report :: "u8 list \<Rightarrow> metric_report option" where
  "decode_report bs =
     (case read_fields bs of
        None \<Rightarrow> None
      | Some fs \<Rightarrow>
          map_option
            (\<lambda>ms. \<lparr>re_hostname = string_field 1 fs, re_datacenter = string_field 2 fs,
                    re_timestamp = number_field 3 fs, re_metrics = ms\<rparr>)
            (those (map (decode_metric \<circ> bytes_of) (occurrences 4 fs))))"


section \<open>Varints\<close>

lemma low_bits: "(v :: u64) AND 0x7F = take_bit 7 v"
proof -
  have "(0x7F :: u64) = mask 7" by (simp add: mask_eq_exp_minus_1)
  then show ?thesis by (simp add: take_bit_eq_mask)
qed

lemma continuation_byte:
  fixes v :: u64
  defines "b \<equiv> ucast (v AND 0x7F) OR (0x80 :: u8)"
  shows "\<not> b < 0x80" and "(ucast (b AND 0x7F) :: u64) = take_bit 7 v"
proof -
  define w where "w = (ucast (v AND 0x7F) :: u8)"
  have k: "unat (take_bit 7 v) < 128"
    using take_bit_nat_less_exp [of 7 "unat v"] by (simp only: unsigned_take_bit_eq) simp
  then have w: "unat w = unat (take_bit 7 v)"
    unfolding w_def low_bits by (simp only: unsigned_ucast_eq) (simp add: take_bit_nat_eq_self)
  have top: "(0x80 :: u8) = push_bit 7 1" by (simp add: push_bit_eq_mult)
  have "n = 7" if "bit (0x80 :: u8) n" for n
    using that unfolding top by (simp only: bit_push_bit_iff) (auto simp: bit_1_iff)
  moreover have "\<not> bit w n" if "n \<ge> 7" for n
    using that by (auto simp: w_def low_bits bit_simps)
  ultimately have "w + 0x80 = w OR 0x80"
    by (intro disjunctive_add) (metis order_refl)
  then have b: "unat b = unat (take_bit 7 v) + 128"
    using w k by (simp add: b_def w_def [symmetric] unat_word_ariths flip: \<open>w + 0x80 = w OR 0x80\<close>)
  then show "\<not> b < 0x80" by (simp add: word_less_nat_alt)
  have "(0x7F :: u8) = mask 7" by (simp add: mask_eq_exp_minus_1)
  then have "b AND 0x7F = take_bit 7 b" by (simp only: take_bit_eq_mask)
  moreover have "unat (take_bit 7 b) = unat (take_bit 7 v)"
  proof -
    have "unat (take_bit 7 b) = take_bit 7 (unat (take_bit 7 v) + 128)"
      by (simp only: unsigned_take_bit_eq [of 7 b] b)
    also have "\<dots> = unat (take_bit 7 v)" using k by (simp only: take_bit_eq_mod) simp
    finally show ?thesis .
  qed
  ultimately have "unat (b AND 0x7F) = unat (take_bit 7 v)" by simp
  then show "(ucast (b AND 0x7F) :: u64) = take_bit 7 v"
    using k by (simp only: word_unat_eq_iff unsigned_ucast_eq) (simp add: take_bit_nat_eq_self)
qed

lemma read_write_varint: "read_varint (write_varint v @ rest) = Some (v, rest)"
proof (induction v arbitrary: rest rule: write_varint.induct)
  case (1 v)
  show ?case
  proof (cases "v \<ge> 0x80")
    case True
    then have "read_varint (write_varint v @ rest) =
        Some (take_bit 7 v + push_bit 7 (drop_bit 7 v), rest)"
      using 1 continuation_byte [of v] by (subst write_varint.simps) simp
    then show ?thesis by (simp only: add.commute [of "take_bit 7 v"] bits_ident)
  next
    case False
    then have small: "unat v < 128" by (simp add: word_le_nat_alt not_le)
    then have "unat (ucast v :: u8) = unat v"
      by (simp only: unsigned_ucast_eq) (simp add: take_bit_nat_eq_self)
    have "ucast (ucast v :: u8) = v"
      using small by (simp only: word_unat_eq_iff unsigned_ucast_eq)
        (simp add: unsigned_take_bit_eq take_bit_nat_eq_self)
    with \<open>unat (ucast v :: u8) = unat v\<close> False small show ?thesis
      by (subst write_varint.simps) (simp add: word_less_nat_alt)
  qed
qed


lemma write_varint_small: "v < 0x80 \<Longrightarrow> write_varint v = [ucast v]"
proof -
  assume "v < 0x80"
  then have "\<not> 0x80 \<le> v" by simp
  then show ?thesis by (subst write_varint.simps) simp
qed

section \<open>Fields\<close>

lemma string_as_bytes: "string_of_bytes (as_bytes s) = s"
proof -
  have "char_of (unat (of_char c :: u8)) = c" for c
  proof -
    have "unat (of_nat (of_char c) :: u8) = of_char c"
      using nat_of_char_less_256 [of c] by (simp add: unat_of_nat)
    then show ?thesis by (simp add: of_nat_of_char)
  qed
  then show ?thesis by (simp add: string_of_bytes_def as_bytes_def comp_def)
qed

text \<open>The five keys the encoder writes.\<close>

lemma write_tags:
  "write_tag 1 2 = [0x0A]" "write_tag 2 2 = [0x12]" "write_tag 3 0 = [0x18]" "write_tag 2 1 = [0x11]"
  "write_tag 3 2 = [0x1A]" "write_tag 4 2 = [0x22]"
  by (simp_all add: write_tag_def write_varint_small)

lemma read_keys:
  "read_varint (0x0A # bs) = Some (10, bs)" "read_varint (0x12 # bs) = Some (18, bs)"
  "read_varint (0x18 # bs) = Some (24, bs)" "read_varint (0x11 # bs) = Some (17, bs)"
  "read_varint (0x1A # bs) = Some (26, bs)" "read_varint (0x22 # bs) = Some (34, bs)"
  by simp_all

lemma read_bytes_field:
  assumes "read_varint (b # write_varint (of_nat (length sub)) @ sub @ rest) =
      Some (key, write_varint (of_nat (length sub)) @ sub @ rest)"
    and "key AND 7 = 2" "length sub < 2 ^ 64"
  shows "read_field (b # write_varint (of_nat (length sub)) @ sub @ rest) = Some ((drop_bit 3 key, Bytes sub), rest)"
proof -
  have "unat (of_nat (length sub) :: u64) = length sub" using assms(3) by (simp add: unat_of_nat)
  then show ?thesis
    unfolding read_field_def assms(1) using assms(2) by (simp add: read_write_varint Let_def)
qed

lemma read_sub:
  assumes "length sub < 2 ^ 64"
  shows "read_field (write_sub 3 sub @ rest) = Some ((3, Bytes sub), rest)"
    and "read_field (write_sub 4 sub @ rest) = Some ((4, Bytes sub), rest)"
  using read_bytes_field [OF read_keys(5) _ assms, of rest] read_bytes_field [OF read_keys(6) _ assms, of rest]
  by (simp_all add: write_sub_def write_tags)

lemma read_string:
  assumes "length s < 2 ^ 64"
  shows "read_field (write_string 1 s @ rest) = Some ((1, Bytes (as_bytes s)), rest)"
    and "read_field (write_string 2 s @ rest) = Some ((2, Bytes (as_bytes s)), rest)"
proof -
  have "length (as_bytes s) < 2 ^ 64" using assms by (simp add: as_bytes_def)
  from read_bytes_field [OF read_keys(1) _ this, of rest] read_bytes_field [OF read_keys(2) _ this, of rest]
  show "read_field (write_string 1 s @ rest) = Some ((1, Bytes (as_bytes s)), rest)"
    "read_field (write_string 2 s @ rest) = Some ((2, Bytes (as_bytes s)), rest)"
    by (simp_all add: write_string_def write_tags)
qed

lemma length_le_bytes: "length (le_bytes n v) = n"
  by (induction n arbitrary: v) simp_all

lemma from_le_bytes: "from_le (le_bytes n v) = take_bit (8 * n) v"
proof (induction n arbitrary: v)
  case (Suc n)
  have low: "ucast (ucast v :: u8) = take_bit 8 v"
    by (rule bit_word_eqI) (auto simp: bit_simps)
  have "take_bit (8 * Suc n) v = take_bit 8 v + push_bit 8 (take_bit (8 * n) (drop_bit 8 v))"
  proof -
    have "take_bit 8 v + push_bit 8 (take_bit (8 * n) (drop_bit 8 v)) =
        take_bit 8 v OR push_bit 8 (take_bit (8 * n) (drop_bit 8 v))"
      by (intro disjunctive_add) (auto simp: bit_simps)
    also have "\<dots> = take_bit (8 * Suc n) v"
      by (rule bit_word_eqI) (auto simp: bit_simps)
    finally show ?thesis ..
  qed
  with Suc show ?case by (simp add: low)
qed simp

lemma read_double: "read_field (write_double 2 v @ rest) = Some ((2, Fixed64 (le_bytes 8 v)), rest)"
  by (simp add: read_field_def write_double_def write_tags length_le_bytes Let_def del: le_bytes.simps)

lemma read_int64: "read_field (write_int64 3 v @ rest) = Some ((3, Varint v), rest)"
  by (simp add: read_field_def write_int64_def write_tags read_write_varint Let_def)

lemma read_fields_Cons:
  "read_field (bs @ rest) = Some (f, rest) \<Longrightarrow> bs \<noteq> [] \<Longrightarrow> read_fields (bs @ rest) = map_option ((#) f) (read_fields rest)"
  by (subst read_fields.simps) simp

lemma read_fields_Nil: "read_fields [] = Some []"
  by (simp add: read_fields.simps)

lemma writes_nonempty:
  "write_string 1 s \<noteq> []" "write_string 2 s \<noteq> []" "write_sub 3 sub \<noteq> []" "write_sub 4 sub \<noteq> []"
  "write_double 2 v \<noteq> []" "write_int64 3 v \<noteq> []"
  by (simp_all add: write_string_def write_sub_def write_double_def write_int64_def write_tags)

lemma read_fields_subs:
  assumes "\<forall>sub \<in> set subs. length sub < 2 ^ 64"
  shows "read_fields (concat (map (write_sub 3) subs)) = Some (map (\<lambda>sub. (3, Bytes sub)) subs)"
    and "read_fields (concat (map (write_sub 4) subs)) = Some (map (\<lambda>sub. (4, Bytes sub)) subs)"
  using assms
  by (induction subs) (simp_all add: read_fields_Nil read_fields_Cons read_sub writes_nonempty)

lemma read_entry:
  assumes "length k < 2 ^ 64" "length v < 2 ^ 64"
  shows "decode_entry (label_entry (k, v)) = Some (k, v)"
proof -
  have "read_fields (write_string 2 v) = Some [(2, Bytes (as_bytes v))]"
    using read_fields_Cons [of "write_string 2 v" "[]"] read_string(2) [OF assms(2), of "[]"]
    by (simp add: writes_nonempty read_fields_Nil)
  then have "read_fields (write_string 1 k @ write_string 2 v) =
      Some [(1, Bytes (as_bytes k)), (2, Bytes (as_bytes v))]"
    using read_string(1) [OF assms(1)] by (simp add: read_fields_Cons writes_nonempty)
  then show ?thesis
    by (simp add: decode_entry_def label_entry_def string_field_def occurrences_def string_as_bytes)
qed

lemma those_map_Some: "(\<And>x. x \<in> set xs \<Longrightarrow> f x = Some (g x)) \<Longrightarrow> those (map f xs) = Some (map g xs)"
  by (induction xs) simp_all

lemma occurrences_subs: "occurrences n (map (\<lambda>sub. (m, Bytes sub)) subs) = (if n = m then map Bytes subs else [])"
  by (auto simp: occurrences_def filter_map comp_def)

lemma length_write_string_le: "length s \<le> length (write_string n s)"
  by (simp add: write_string_def as_bytes_def)

text \<open>A metric is read back whatever the order of its labels.\<close>

lemma decode_encode_metric:
  assumes "iterates (me_labels m) (order (me_labels m))" and "length (encode_metric order m) < 2 ^ 64"
  shows "decode_metric (encode_metric order m) = Some m"
proof -
  let ?es = "order (me_labels m)"
  let ?subs = "map label_entry ?es"
  have sub: "length (label_entry e) < 2 ^ 64" if "e \<in> set ?es" for e
  proof -
    have "length (label_entry e) \<le> sum_list (map (\<lambda>kv. length (write_sub 3 (label_entry kv))) ?es)"
      using member_le_sum_list [of "length (write_sub 3 (label_entry e))" "map (\<lambda>kv. length (write_sub 3 (label_entry kv))) ?es"] that
      by (auto simp: write_sub_def)
    also have "\<dots> \<le> length (encode_metric order m)"
      by (simp add: encode_metric_def length_concat comp_def)
    finally show ?thesis using assms(2) by simp
  qed
  have name: "length (me_name m) < 2 ^ 64"
    using length_write_string_le [of "me_name m" 1] assms(2) by (simp add: encode_metric_def)
  have "read_fields (encode_metric order m) =
      Some ((1, Bytes (as_bytes (me_name m))) # (2, Fixed64 (le_bytes 8 (me_value m))) # map (\<lambda>sub. (3, Bytes sub)) ?subs)"
    using read_string(1) [OF name] read_double [of "me_value m"] read_fields_subs(1) [of ?subs] sub
    by (simp add: encode_metric_def read_fields_Cons writes_nonempty comp_def del: le_bytes.simps)
  moreover have "those (map (decode_entry \<circ> label_entry) ?es) = Some ?es"
  proof -
    have "decode_entry (label_entry e) = Some e" if "e \<in> set ?es" for e
    proof -
      have "length (fst e) < 2 ^ 64" "length (snd e) < 2 ^ 64"
        using sub [OF that] length_write_string_le [of "fst e" 1] length_write_string_le [of "snd e" 2]
        by (simp_all add: label_entry_def)
      then show ?thesis using read_entry [of "fst e" "snd e"] by simp
    qed
    then show ?thesis using those_map_Some [of ?es "decode_entry \<circ> label_entry" "\<lambda>e. e"] by simp
  qed
  moreover have "map_of (rev ?es) = me_labels m"
    using iteratesD(1,2) [OF assms(1)] map_of_inject_set [of "rev ?es" ?es]
    by (simp add: rev_map [symmetric])
  ultimately show ?thesis
    by (simp add: decode_metric_def string_field_def number_field_def occurrences_def filter_map comp_def
        string_as_bytes from_le_bytes take_bit_word_eq_self del: le_bytes.simps)
qed


section \<open>The properties\<close>

text \<open>C39. The hand-written Protobuf encoding loses nothing: a decoder that follows the wire format
  reads the report back from its bytes, field by field, for every report whose labels are iterated
  in any order, as long as the bytes have a 64-bit length. In particular every varint is read back
  with what follows it untouched, so that no message runs into the next.\<close>

theorem protobuf_roundtrip:
  assumes "\<And>m. m \<in> set (re_metrics r) \<Longrightarrow> iterates (me_labels m) (order (me_labels m))"
    and "length (protobuf_like_encode order r) < 2 ^ 64"
  shows "decode_report (protobuf_like_encode order r) = Some r \<and>
    read_varint (write_varint v @ rest) = Some (v, rest)"
proof -
  let ?subs = "map (encode_metric order) (re_metrics r)"
  have sub: "length (encode_metric order m) < 2 ^ 64" if "m \<in> set (re_metrics r)" for m
  proof -
    have "length (encode_metric order m) \<le> sum_list (map (\<lambda>m. length (write_sub 4 (encode_metric order m))) (re_metrics r))"
      using member_le_sum_list [of "length (write_sub 4 (encode_metric order m))"
          "map (\<lambda>m. length (write_sub 4 (encode_metric order m))) (re_metrics r)"] that
      by (auto simp: write_sub_def)
    also have "\<dots> \<le> length (protobuf_like_encode order r)"
      by (simp add: protobuf_like_encode_def length_concat comp_def)
    finally show ?thesis using assms(2) by simp
  qed
  have names: "length (re_hostname r) < 2 ^ 64" "length (re_datacenter r) < 2 ^ 64"
    using length_write_string_le [of "re_hostname r" 1] length_write_string_le [of "re_datacenter r" 2] assms(2)
    by (simp_all add: protobuf_like_encode_def)
  have "read_fields (protobuf_like_encode order r) =
      Some ((1, Bytes (as_bytes (re_hostname r))) # (2, Bytes (as_bytes (re_datacenter r))) #
        (3, Varint (re_timestamp r)) # map (\<lambda>sub. (4, Bytes sub)) ?subs)"
    using read_string(1) [OF names(1)] read_string(2) [OF names(2)] read_int64 [of "re_timestamp r"]
      read_fields_subs(2) [of ?subs] sub
    by (simp add: protobuf_like_encode_def read_fields_Cons writes_nonempty comp_def)
  moreover have "those (map (decode_metric \<circ> encode_metric order) (re_metrics r)) = Some (re_metrics r)"
    using those_map_Some [of "re_metrics r" "decode_metric \<circ> encode_metric order" "\<lambda>m. m"]
      decode_encode_metric [OF assms(1) sub] by simp
  ultimately show ?thesis
    by (simp add: decode_report_def string_field_def number_field_def occurrences_def filter_map comp_def
        string_as_bytes read_write_varint)
qed

definition sample_report :: metric_report where
  "sample_report =
     \<lparr>re_hostname = ''rbx-srv-0142.ovh.net'', re_datacenter = ''rbx7'', re_timestamp = 1715900000,
      re_metrics = [\<lparr>me_name = ''cpu_usage_core_0'', me_value = 0x3FDAE147AE147AE1,
        me_labels = [''core'' \<mapsto> ''0'', ''env'' \<mapsto> ''prod'']\<rparr>]\<rparr>"

lemma protobuf_roundtrip_witness:
  "decode_report (protobuf_like_encode (\<lambda>_. [(''env'', ''prod''), (''core'', ''0'')]) sample_report) = Some sample_report \<and>
   read_varint (write_varint 300 @ [7]) = Some (300, [7])"
proof (rule protobuf_roundtrip)
  fix m assume "m \<in> set (re_metrics sample_report)"
  then show "iterates (me_labels m) [(''env'', ''prod''), (''core'', ''0'')]"
    by (auto simp: sample_report_def iterates_def)
next
  have "length (protobuf_like_encode (\<lambda>_. [(''env'', ''prod''), (''core'', ''0'')]) sample_report) < 200"
    by code_simp
  then show "length (protobuf_like_encode (\<lambda>_. [(''env'', ''prod''), (''core'', ''0'')]) sample_report) < 2 ^ 64"
    by simp
qed

text \<open>The test \<open>test_varint_encoding\<close>.\<close>

lemma varint_300: "write_varint 300 = [0xAC, 0x02]"
  by code_simp

end
