(* ===== verification/GrpcStore.thy ===== *)
theory GrpcStore
  imports Prelude "HOL-Library.Sublist"
begin

text \<open>
  The gRPC key-value store, \<open>demos/app-tokio-tonic/src/bin/server.rs\<close> and the label of its client.

  A handler releases the lock on the store before it publishes its event, so a call is two atomic
  steps and other calls may act between them. The broadcast channel is the list of all events sent;
  a watcher keeps its position in it, and one that is more than \<open>watch_capacity\<close> events behind
  is told that it lagged and skips to the oldest event still kept, as the documentation of the
  channel says.
\<close>

section \<open>The service\<close>

datatype watch_kind = KindPut | KindDelete

record watch_event =
  we_kind :: watch_kind
  we_key :: string
  we_value :: string

datatype kv_rpc = Put string string | Get string | Delete string

datatype rpc_response = PutResponse bool | GetResponse bool string | DeleteResponse bool

record watcher =
  wa_position :: nat
  wa_stream :: "watch_event list"

record kv_service =
  ks_store :: "string \<rightharpoonup> string"
  ks_events :: "watch_event list"
  ks_watchers :: "watcher list"

definition watch_capacity :: nat where
  "watch_capacity = 128"

definition kv_service_new :: kv_service where
  "kv_service_new = \<lparr>ks_store = Map.empty, ks_events = [], ks_watchers = []\<rparr>"

text \<open>A call before its lock, with its event still to be published, and answered.\<close>

datatype rpc_call = Called kv_rpc | Publishing watch_event rpc_response | Answered rpc_response

fun rpc_step :: "rpc_call \<Rightarrow> kv_service \<Rightarrow> rpc_call \<times> kv_service" where
  "rpc_step (Called (Put key v)) s =
     (let created = (ks_store s key = None)
      in (Publishing \<lparr>we_kind = KindPut, we_key = key, we_value = v\<rparr> (PutResponse created),
          s\<lparr>ks_store := (ks_store s)(key \<mapsto> v)\<rparr>))"
| "rpc_step (Called (Get key)) s =
     (case ks_store s key of
        Some v \<Rightarrow> (Answered (GetResponse True v), s)
      | None \<Rightarrow> (Answered (GetResponse False []), s))"
| "rpc_step (Called (Delete key)) s =
     (let deleted = (ks_store s key \<noteq> None); s = s\<lparr>ks_store := (ks_store s)(key := None)\<rparr>
      in if deleted then
           (Publishing \<lparr>we_kind = KindDelete, we_key = key, we_value = []\<rparr> (DeleteResponse True), s)
         else (Answered (DeleteResponse False), s))"
| "rpc_step (Publishing ev response) s = (Answered response, s\<lparr>ks_events := ks_events s @ [ev]\<rparr>)"
| "rpc_step (Answered response) s = (Answered response, s)"

definition watch :: "kv_service \<Rightarrow> kv_service" where
  "watch s = s\<lparr>ks_watchers := ks_watchers s @ [\<lparr>wa_position = length (ks_events s), wa_stream = []\<rparr>]\<rparr>"

text \<open>One turn of the relay task: nothing to receive, lagged, or one event relayed.\<close>

definition relay :: "watch_event list \<Rightarrow> watcher \<Rightarrow> watcher" where
  "relay events w =
     (if wa_position w \<ge> length events then w
      else if length events - wa_position w > watch_capacity then
        w\<lparr>wa_position := length events - watch_capacity\<rparr>
      else \<lparr>wa_position = wa_position w + 1, wa_stream = wa_stream w @ [events ! wa_position w]\<rparr>)"

fun kind_code :: "watch_kind \<Rightarrow> u32" where
  "kind_code KindPut = 0"
| "kind_code KindDelete = 1"

definition kind_label :: "u32 \<Rightarrow> string" where
  "kind_label kind = (if kind = 0 then ''PUT'' else if kind = 1 then ''DELETE'' else ''?'')"

section \<open>Interleavings\<close>

record grpc_system =
  gs_service :: kv_service
  gs_calls :: "rpc_call list"

datatype grpc_event = Step nat | Watch | Relay nat

fun grpc_step :: "grpc_event \<Rightarrow> grpc_system \<Rightarrow> grpc_system" where
  "grpc_step (Step i) s =
     (if i < length (gs_calls s) then
        (let (c, svc) = rpc_step (gs_calls s ! i) (gs_service s)
         in \<lparr>gs_service = svc, gs_calls = (gs_calls s)[i := c]\<rparr>)
      else s)"
| "grpc_step Watch s = s\<lparr>gs_service := watch (gs_service s)\<rparr>"
| "grpc_step (Relay i) s =
     (let svc = gs_service s; ws = ks_watchers svc
      in if i < length ws then
           s\<lparr>gs_service := svc\<lparr>ks_watchers := ws[i := relay (ks_events svc) (ws ! i)]\<rparr>\<rparr>
         else s)"

definition grpc_run :: "grpc_event list \<Rightarrow> grpc_system \<Rightarrow> grpc_system" where
  "grpc_run es s = foldl (\<lambda>s e. grpc_step e s) s es"

definition grpc_start :: "kv_rpc list \<Rightarrow> grpc_system" where
  "grpc_start calls = \<lparr>gs_service = kv_service_new, gs_calls = map Called calls\<rparr>"

text \<open>What a client makes of the events: the store they describe.\<close>

definition replay_event :: "(string \<rightharpoonup> string) \<Rightarrow> watch_event \<Rightarrow> string \<rightharpoonup> string" where
  "replay_event store ev =
     (case we_kind ev of KindPut \<Rightarrow> store(we_key ev \<mapsto> we_value ev) | KindDelete \<Rightarrow> store(we_key ev := None))"

definition replay :: "watch_event list \<Rightarrow> (string \<rightharpoonup> string) \<Rightarrow> string \<rightharpoonup> string" where
  "replay events store = foldl replay_event store events"

text \<open>The event a call has still to publish.\<close>

fun unpublished :: "rpc_call \<Rightarrow> watch_event list" where
  "unpublished (Publishing ev _) = [ev]"
| "unpublished _ = []"

text \<open>The keys written by calls that have not published yet are pairwise distinct: no two writes of a
  key overlap.\<close>

definition key_exclusive :: "grpc_system \<Rightarrow> bool" where
  "key_exclusive s \<longleftrightarrow> distinct (map we_key (concat (map unpublished (gs_calls s))))"

text \<open>The run up to here never let a second write of a key start before the first was published.\<close>

fun exclusive_run :: "grpc_event list \<Rightarrow> grpc_system \<Rightarrow> bool" where
  "exclusive_run [] s = key_exclusive s"
| "exclusive_run (e # es) s = (key_exclusive s \<and> exclusive_run es (grpc_step e s))"

section \<open>What watchers see\<close>

definition stream_ok :: "watch_event list \<Rightarrow> watcher \<Rightarrow> bool" where
  "stream_ok events w \<longleftrightarrow> wa_position w \<le> length events \<and> subseq (wa_stream w) (take (wa_position w) events)"

lemma relay_ok: "stream_ok events w \<Longrightarrow> stream_ok events (relay events w)"
proof -
  assume w: "stream_ok events w"
  have grow: "subseq (take i events) (take j events)" if "i \<le> j" for i j
    using that by (metis min.absorb1 prefix_imp_subseq take_is_prefix take_take)
  show ?thesis
  proof (cases "wa_position w < length events \<and> length events - wa_position w \<le> watch_capacity")
    case True
    then have "take (wa_position w + 1) events = take (wa_position w) events @ [events ! wa_position w]"
      by (simp add: take_Suc_conv_app_nth)
    with True w show ?thesis by (simp add: stream_ok_def relay_def subseq_append_iff) (metis list_emb_append_mono subseq_order.order_refl)
  next
    case False
    then show ?thesis
      using w grow [of "wa_position w" "length events - watch_capacity"]
      by (auto simp: stream_ok_def relay_def intro: subseq_order.trans)
  qed
qed

lemma stream_ok_append: "stream_ok events w \<Longrightarrow> stream_ok (events @ newer) w"
  by (simp add: stream_ok_def)


lemma ks_watchers_rpc: "ks_watchers (snd (rpc_step c svc)) = ks_watchers svc"
  by (cases "(c, svc)" rule: rpc_step.cases) (simp_all add: Let_def split: option.splits)

lemma ks_events_rpc: "\<exists>newer. ks_events (snd (rpc_step c svc)) = ks_events svc @ newer"
  by (cases "(c, svc)" rule: rpc_step.cases) (simp_all add: Let_def split: option.splits)

definition streams_ok :: "grpc_system \<Rightarrow> bool" where
  "streams_ok s \<longleftrightarrow> (\<forall>w \<in> set (ks_watchers (gs_service s)). stream_ok (ks_events (gs_service s)) w)"

lemma streams_ok_step: "streams_ok s \<Longrightarrow> streams_ok (grpc_step e s)"
proof (cases e)
  case (Step i)
  assume ok: "streams_ok s"
  show ?thesis
  proof (cases "i < length (gs_calls s)")
    case True
    obtain c svc where r: "rpc_step (gs_calls s ! i) (gs_service s) = (c, svc)" by fastforce
    with ks_watchers_rpc [of "gs_calls s ! i" "gs_service s"] ks_events_rpc [of "gs_calls s ! i" "gs_service s"]
    show ?thesis using ok Step True by (auto simp: streams_ok_def stream_ok_append)
  qed (use ok Step in simp)
next
  case Watch
  assume "streams_ok s"
  with Watch show ?thesis by (auto simp: streams_ok_def watch_def stream_ok_def)
next
  case (Relay i)
  assume "streams_ok s"
  with Relay show ?thesis
    by (auto simp: streams_ok_def Let_def relay_ok dest!: subsetD [OF set_update_subset_insert] intro: relay_ok nth_mem)
qed

section \<open>Publishing in order\<close>

definition pending_events :: "grpc_system \<Rightarrow> watch_event list" where
  "pending_events s = concat (map unpublished (gs_calls s))"

lemma replay_append: "replay (xs @ ys) m = replay ys (replay xs m)"
  by (simp add: replay_def)

lemma replay_perm:
  assumes "distinct (map we_key xs)" "mset xs = mset ys"
  shows "replay xs m = replay ys m"
  unfolding replay_def
proof (rule foldl_perm [OF _ assms(2)])
  fix store x y assume xy: "x \<in> set xs" "y \<in> set xs"
  show "replay_event (replay_event store x) y = replay_event (replay_event store y) x"
  proof (cases "we_key x = we_key y")
    case True
    then have "x = y" using xy assms(1) by (auto simp: distinct_map dest: inj_onD)
    then show ?thesis by simp
  next
    case False
    then show ?thesis by (auto simp: replay_event_def fun_upd_twist split: watch_kind.splits)
  qed
qed

text \<open>The events published and those still to be published describe the store.\<close>

definition publish_inv :: "grpc_system \<Rightarrow> bool" where
  "publish_inv s \<longleftrightarrow>
     replay (ks_events (gs_service s) @ pending_events s) Map.empty = ks_store (gs_service s)"

lemma pending_step:
  assumes "i < length (gs_calls s)"
  shows "mset (pending_events \<lparr>gs_service = svc, gs_calls = (gs_calls s)[i := c]\<rparr>) + mset (unpublished (gs_calls s ! i)) =
    mset (pending_events s) + mset (unpublished c)"
  using mset_concat_update [of i "map unpublished (gs_calls s)" "unpublished c"] assms
  by (simp add: pending_events_def map_update)

lemma key_exclusive_pending: "key_exclusive s \<longleftrightarrow> distinct (map we_key (pending_events s))"
  by (simp add: key_exclusive_def pending_events_def)

lemma publish_inv_rpc:
  assumes i: "i < length (gs_calls s)" and r: "rpc_step (gs_calls s ! i) (gs_service s) = (c, svc)"
    and inv: "publish_inv s" and ex: "key_exclusive s"
    and ex': "key_exclusive \<lparr>gs_service = svc, gs_calls = (gs_calls s)[i := c]\<rparr>" (is "key_exclusive ?s'")
  shows "publish_inv ?s'"
proof -
  let ?m = "replay (ks_events (gs_service s)) Map.empty"
  note pend = pending_step [OF i, of svc c]
  have store: "replay (pending_events s) ?m = ks_store (gs_service s)"
    using inv by (simp add: publish_inv_def replay_append)
  have new: "publish_inv ?s'"
    if "unpublished (gs_calls s ! i) = []" "unpublished c = [ev]" "ks_events svc = ks_events (gs_service s)"
      "ks_store svc = replay_event (ks_store (gs_service s)) ev" for ev
  proof -
    have "mset (pending_events ?s') = mset (pending_events s @ [ev])" using pend that(1,2) by simp
    then have "replay (pending_events ?s') ?m = replay (pending_events s @ [ev]) ?m"
      using ex' unfolding key_exclusive_pending by (rule replay_perm [rotated])
    then show ?thesis using that store by (simp add: publish_inv_def replay_append) (simp add: replay_def)
  qed
  have same: "publish_inv ?s'"
    if "unpublished (gs_calls s ! i) = []" "unpublished c = []" "ks_events svc = ks_events (gs_service s)"
      "ks_store svc = ks_store (gs_service s)"
  proof -
    have "replay (pending_events ?s') ?m = replay (pending_events s) ?m"
      using ex' pend that(1,2) unfolding key_exclusive_pending by (intro replay_perm) simp_all
    then show ?thesis using that store by (simp add: publish_inv_def replay_append)
  qed
  show ?thesis
  proof (cases "(gs_calls s ! i, gs_service s)" rule: rpc_step.cases)
    case (1 key v svc0)
    show ?thesis by (rule new) (use 1 r in \<open>auto simp: Let_def replay_event_def\<close>)
  next
    case (2 key svc0)
    show ?thesis by (rule same) (use 2 r in \<open>auto split: option.splits\<close>)
  next
    case (3 key svc0)
    show ?thesis
    proof (cases "ks_store svc0 key = None")
      case True
      then have "(ks_store svc0)(key := None) = ks_store svc0" by (simp add: fun_upd_idem)
      with True show ?thesis by (intro same) (use 3 r in \<open>auto simp: Let_def\<close>)
    next
      case False
      show ?thesis by (rule new) (use 3 r False in \<open>auto simp: Let_def replay_event_def\<close>)
    qed
  next
    case (4 ev response svc0)
    then have u: "unpublished (gs_calls s ! i) = [ev]" "unpublished c = []"
      "ks_events svc = ks_events (gs_service s) @ [ev]" "ks_store svc = ks_store (gs_service s)"
      using r by auto
    have "mset (pending_events s) = mset (ev # pending_events ?s')" using pend u(1,2) by simp
    then have "replay (pending_events s) ?m = replay (ev # pending_events ?s') ?m"
      using ex unfolding key_exclusive_pending by (rule replay_perm [rotated])
    then show ?thesis using u store by (simp add: publish_inv_def replay_append replay_def)
  next
    case (5 response svc0)
    then have e: "gs_calls s ! i = Answered response" by simp
    moreover from this have "c = Answered response" "svc = gs_service s" using r by auto
    ultimately show ?thesis by (intro same) simp_all
  qed
qed

lemma publish_inv_step:
  assumes "publish_inv s" "key_exclusive s" "key_exclusive (grpc_step e s)"
  shows "publish_inv (grpc_step e s)"
proof (cases e)
  case (Step i)
  show ?thesis
  proof (cases "i < length (gs_calls s)")
    case True
    obtain c svc where r: "rpc_step (gs_calls s ! i) (gs_service s) = (c, svc)" by fastforce
    with Step True have "grpc_step e s = \<lparr>gs_service = svc, gs_calls = (gs_calls s)[i := c]\<rparr>" by simp
    with publish_inv_rpc [OF True r assms(1,2)] assms(3) show ?thesis by simp
  qed (use assms Step in simp)
qed (use assms in \<open>auto simp: publish_inv_def pending_events_def watch_def Let_def\<close>)

lemma grpc_run_invs:
  "streams_ok s \<Longrightarrow> streams_ok (grpc_run es s)"
  "exclusive_run es s \<Longrightarrow> publish_inv s \<Longrightarrow> publish_inv (grpc_run es s)"
proof (induction es arbitrary: s)
  case (Cons e es)
  {
    case 1
    then show ?case using Cons.IH(1) [OF streams_ok_step] by (simp add: grpc_run_def)
  next
    case 2
    then have "key_exclusive (grpc_step e s)" by (cases es) auto
    with 2 have "publish_inv (grpc_step e s)" by (intro publish_inv_step) auto
    with Cons.IH(2) 2 show ?case by (simp add: grpc_run_def)
  }
qed (simp_all add: grpc_run_def)

section \<open>The properties\<close>

text \<open>C40. Watchers see what happened: in any interleaving of the calls, the subscriptions and the relay
  tasks, what a watcher has received is a subsequence of the published events, in their order; and
  as long as no two writes of one key overlap between the store and the publication, the events
  published, once every call is answered, describe exactly the store.\<close>

theorem watch_describes_store:
  assumes "s = grpc_run es (grpc_start calls)"
  shows "(\<forall>w \<in> set (ks_watchers (gs_service s)). subseq (wa_stream w) (ks_events (gs_service s))) \<and>
    (exclusive_run es (grpc_start calls) \<and> pending_events s = [] \<longrightarrow>
      replay (ks_events (gs_service s)) Map.empty = ks_store (gs_service s))"
proof -
  have none: "pending_events (grpc_start calls) = []" by (simp add: pending_events_def grpc_start_def)
  have "streams_ok (grpc_start calls)" by (simp add: streams_ok_def grpc_start_def kv_service_new_def)
  from grpc_run_invs(1) [OF this, of es] have "streams_ok s" by (simp add: assms)
  then have "subseq (wa_stream w) (ks_events (gs_service s))" if "w \<in> set (ks_watchers (gs_service s))" for w
    using that unfolding streams_ok_def stream_ok_def
    by (metis prefix_imp_subseq subseq_order.trans take_is_prefix)
  moreover have "publish_inv (grpc_start calls)"
    unfolding publish_inv_def none by (simp add: grpc_start_def kv_service_new_def replay_def)
  then have "publish_inv s" if "exclusive_run es (grpc_start calls)"
    using grpc_run_invs(2) [OF that] by (simp add: assms)
  ultimately show ?thesis by (auto simp: publish_inv_def)
qed

lemma watch_describes_store_witness:
  "replay (ks_events (gs_service (grpc_run [Step 0, Step 1, Step 1, Step 0]
     (grpc_start [Put ''user:1'' ''Alice'', Put ''user:2'' ''Bob''])))) Map.empty ''user:2'' = Some ''Bob''"
proof -
  let ?es = "[Step 0, Step 1, Step 1, Step 0]"
  let ?start = "grpc_start [Put ''user:1'' ''Alice'', Put ''user:2'' ''Bob'']"
  have "exclusive_run ?es ?start" by code_simp
  moreover have "pending_events (grpc_run ?es ?start) = []" by code_simp
  moreover have "ks_store (gs_service (grpc_run ?es ?start)) ''user:2'' = Some ''Bob''" by code_simp
  ultimately show ?thesis
    using watch_describes_store [OF refl, of ?es "[Put ''user:1'' ''Alice'', Put ''user:2'' ''Bob'']"] by simp
qed

text \<open>A watcher can be left with the wrong value. Two concurrent puts of one key write the store in
  one order and publish in the other, since the lock is released before the event is sent: when
  both calls are answered and the watcher has received everything, the store holds the second value
  and the events describe the first.\<close>

theorem watch_order_diverges:
  assumes "a \<noteq> b"
  shows "let s = grpc_run [Watch, Step 0, Step 1, Step 1, Step 0, Relay 0, Relay 0]
             (grpc_start [Put key a, Put key b])
    in gs_calls s = [Answered (PutResponse True), Answered (PutResponse False)] \<and>
       ks_store (gs_service s) key = Some b \<and>
       map wa_stream (ks_watchers (gs_service s)) = [ks_events (gs_service s)] \<and>
       replay (ks_events (gs_service s)) Map.empty key = Some a \<and>
       replay (ks_events (gs_service s)) Map.empty key \<noteq> ks_store (gs_service s) key"
  using assms
  by (simp add: grpc_run_def grpc_start_def kv_service_new_def watch_def relay_def watch_capacity_def
      Let_def replay_def replay_event_def)

lemma watch_order_diverges_witness:
  "ks_store (gs_service (grpc_run [Watch, Step 0, Step 1, Step 1, Step 0, Relay 0, Relay 0]
     (grpc_start [Put ''user:1'' ''Alice'', Put ''user:1'' ''Alice Cooper'']))) ''user:1'' = Some ''Alice Cooper''"
  using watch_order_diverges [of "''Alice''" "''Alice Cooper''" "''user:1''"] by (simp add: Let_def)

lemma kind_label_code: "kind_label (kind_code k) = (case k of KindPut \<Rightarrow> ''PUT'' | KindDelete \<Rightarrow> ''DELETE'')"
  by (cases k) (simp_all add: kind_label_def)

end
