(* ===== verification/ServicePrograms.thy ===== *)
theory ServicePrograms
  imports Monitors Percentiles Dispatcher Protobuf Float64
begin

text \<open>
  The programs around the concurrent counters and the percentiles: \<open>main\<close> and the tests of
  \<open>demo06_atomics_cas.rs\<close>, the functional test of \<open>exo06_stats.rs\<close>, the checks of
  \<open>exo01_percentiles.rs\<close>, the sequential tests of \<open>demo05_mutex_rwlock.rs\<close> and
  \<open>exo07_dispatcher.rs\<close>, the sample report of \<open>demo09_serde_formats.rs\<close>. A program is a function
  of what the threads leave open, the order of their atomic operations, and its value is whether
  its assertions hold; printing and timing are left out.
\<close>

section \<open>exo06\_stats.rs\<close>

definition exo06_event :: "nat \<Rightarrow> nat \<Rightarrow> bool \<times> u64" where
  "exo06_event t i =
     (let success = (i + t) mod 10 \<noteq> 0;
          lat = of_nat (((i + t) * 37) mod 900 + 50)
      in (success, lat))"

text \<open>The calls of \<open>record\<close> by \<open>n_threads\<close> threads.\<close>

definition exo06_events :: "nat \<Rightarrow> nat \<Rightarrow> (bool \<times> u64) list" where
  "exo06_events n_threads ops_par_thread =
     concat (map (\<lambda>t. map (exo06_event t) [0..<ops_par_thread]) [0..<n_threads])"

text \<open>\<open>ops\<close> are the atomic operations of all calls in the order in which they take effect.\<close>

definition exo06_main :: "(u64 \<Rightarrow> u64 \<Rightarrow> 'f) \<Rightarrow> 'f \<Rightarrow> stat_op list \<Rightarrow> bool" where
  "exo06_main quot zero ops =
     (let stats = foldl apply_stat_op service_stats_new ops;
          snap = service_stats_snapshot quot zero stats
      in sn_total snap = 160000 \<and> sn_success snap + sn_failed snap = sn_total snap \<and>
         sn_latence_min snap \<le> 60 \<and> sn_latence_max snap \<ge> 940)"

definition orders :: "(bool \<times> u64) list \<Rightarrow> stat_op list \<Rightarrow> bool" where
  "orders evs ops \<longleftrightarrow> mset ops = mset (concat (map (\<lambda>(ok, l). record_ops ok l) evs))"

section \<open>demo06\_atomics\_cas.rs\<close>

text \<open>The statistics of the demo have the same atomic operations, without the sum.\<close>

fun apply_d6_op :: "demo06_stats \<Rightarrow> stat_op \<Rightarrow> demo06_stats" where
  "apply_d6_op s AddTotal = s\<lparr>d6_total_requests := d6_total_requests s + 1\<rparr>"
| "apply_d6_op s AddSuccess = s\<lparr>d6_success := d6_success s + 1\<rparr>"
| "apply_d6_op s AddFailed = s\<lparr>d6_failed := d6_failed s + 1\<rparr>"
| "apply_d6_op s (AddSum l) = s"
| "apply_d6_op s (LowerMin l) = s\<lparr>d6_min_latency_us := demo06_atomic_min (d6_min_latency_us s) l []\<rparr>"
| "apply_d6_op s (RaiseMax l) = s\<lparr>d6_max_latency_us := demo06_atomic_max (d6_max_latency_us s) l []\<rparr>"

definition d6_record_ops :: "bool \<times> u64 \<Rightarrow> stat_op list" where
  "d6_record_ops = (\<lambda>(ok, latency_us).
     [AddTotal, if ok then AddSuccess else AddFailed, RaiseMax latency_us, LowerMin latency_us])"

definition d6_orders :: "(bool \<times> u64) list \<Rightarrow> stat_op list \<Rightarrow> bool" where
  "d6_orders evs ops \<longleftrightarrow> mset ops = mset (concat (map d6_record_ops evs))"

text \<open>Part 1 of \<open>main\<close> and the tests of the counters.\<close>

definition compteurs_ok :: "nat \<Rightarrow> nat \<Rightarrow> nat list \<Rightarrow> nat list \<Rightarrow> bool" where
  "compteurs_ok threads iterations sched_rx sched_sc =
     (run_compteur sched_rx = of_nat threads * of_nat iterations \<and>
      run_compteur_seqcst sched_sc = of_nat threads * of_nat iterations)"

text \<open>Part 3: the data, the slice of thread \<open>t\<close> and the values the four threads submit.\<close>

definition max_data :: "u64 list" where
  "max_data = map (\<lambda>i. (of_nat i * 37 + 13) mod 1000000) [0..<10000]"

definition max_slice :: "nat \<Rightarrow> u64 list" where
  "max_slice t =
     (let chunk_size = length max_data div 4;
          start = t * chunk_size;
          end = (if t = 3 then length max_data else start + chunk_size)
      in take (end - start) (drop start max_data))"

definition max_submitted :: "u64 list" where
  "max_submitted = concat (map max_slice [0..<4])"

definition max_test_submitted :: "u64 list" where
  "max_test_submitted = concat (map (\<lambda>t. map (\<lambda>i. of_nat t * 1000000 + of_nat i) [0..<1000]) [0..<8])"

text \<open>The cell once every call of \<open>atomic_max\<close> has returned, whatever the interleaving of the loads
  and exchanges of all of them.\<close>

definition submitted_to :: "u64 list \<Rightarrow> u64 \<Rightarrow> bool" where
  "submitted_to vals result \<longleftrightarrow>
     (\<exists>s. (cas_step (\<lambda>v current. v > current) vals)\<^sup>*\<^sup>* (cas_init 0 vals) s \<and> all_left s \<and> result = cs_cell s)"

text \<open>Part 4 and the concurrent test of the statistics.\<close>

definition worker_event :: "nat \<Rightarrow> nat \<Rightarrow> bool \<times> u64" where
  "worker_event worker_id i =
     (let latency = of_nat (50 + ((worker_id * 31 + i * 17) mod 900));
          ok = (worker_id * 7 + i) mod 20 \<noteq> 0
      in (ok, latency))"

definition worker_events :: "(bool \<times> u64) list" where
  "worker_events = concat (map (\<lambda>w. map (worker_event w) [0..<1000]) [0..<8])"

definition service_demo :: "stat_op list \<Rightarrow> bool" where
  "service_demo ops =
     (let stats = foldl apply_d6_op demo06_stats_new ops;
          (total, succ, fail, _, _) = demo06_stats_snapshot stats
      in total = 8000 \<and> succ + fail = total)"

definition test_stats_events :: "(bool \<times> u64) list" where
  "test_stats_events = concat (map (\<lambda>_. map (\<lambda>i. (i mod 5 \<noteq> 0, 100 + of_nat i)) [0..<500]) [0..<8])"

definition test_service_stats_concurrent :: "stat_op list \<Rightarrow> bool" where
  "test_service_stats_concurrent ops =
     (let stats = foldl apply_d6_op demo06_stats_new ops;
          (total, succ, fail, max_l, min_l) = demo06_stats_snapshot stats
      in total = 4000 \<and> succ + fail = 4000 \<and> max_l = 599 \<and> min_l = 100)"

definition test_service_stats_record :: bool where
  "test_service_stats_record =
     (let stats = demo06_stats_new;
          stats = demo06_stats_record 100 True stats;
          stats = demo06_stats_record 200 True stats;
          stats = demo06_stats_record 50 False stats;
          stats = demo06_stats_record 500 True stats;
          (total, succ, fail, max_l, min_l) = demo06_stats_snapshot stats
      in total = 4 \<and> succ = 3 \<and> fail = 1 \<and> max_l = 500 \<and> min_l = 50)"

definition test_atomic_max_basique :: bool where
  "test_atomic_max_basique =
     (let m = 0; m = demo06_atomic_max m 10 []; m = demo06_atomic_max m 5 [];
          m = demo06_atomic_max m 100 []; m = demo06_atomic_max m 50 []
      in m = 100)"

definition test_atomic_min_basique :: bool where
  "test_atomic_min_basique =
     (let m = 1000; m = demo06_atomic_min m 500 []; m = demo06_atomic_min m 800 [];
          m = demo06_atomic_min m 50 []; m = demo06_atomic_min m 100 []
      in m = 50)"

section \<open>exo01\_percentiles.rs\<close>

text \<open>The three calls agree; \<open>None\<close> is a panic.\<close>

definition stats_coherent :: "(nat \<Rightarrow> u64 list \<Rightarrow> u64 list) \<Rightarrow> u64 \<Rightarrow> u64 list option \<Rightarrow> bool" where
  "stats_coherent sel borne_max data =
     (case data of
        None \<Rightarrow> False
      | Some data \<Rightarrow>
          (case (stats_par_tri data, stats_par_select sel data, stats_par_histogramme data borne_max) of
             (Some s1, Some s2, Some s3) \<Rightarrow> s1 = s2 \<and> s1 = s3
           | _ \<Rightarrow> False))"

definition exo01_main :: "(nat \<Rightarrow> u64 list \<Rightarrow> u64 list) \<Rightarrow> bool" where
  "exo01_main sel = stats_coherent sel 5000 (dataset_latences 100000 5000)"

definition dataset_test :: "u64 list" where
  "dataset_test = map of_nat [1..<101]"

definition coherence_petite_taille :: "(nat \<Rightarrow> u64 list \<Rightarrow> u64 list) \<Rightarrow> bool" where
  "coherence_petite_taille sel =
     (stats_coherent sel 100 (Some dataset_test) \<and>
      (case stats_par_tri dataset_test of None \<Rightarrow> False | Some s1 \<Rightarrow> st_max s1 = 100))"

definition coherence_grand_dataset :: "(nat \<Rightarrow> u64 list \<Rightarrow> u64 list) \<Rightarrow> bool" where
  "coherence_grand_dataset sel = stats_coherent sel 1000 (dataset_latences 10000 1000)"

definition test_singleton :: bool where
  "test_singleton =
     (case stats_par_tri [42] of None \<Rightarrow> False | Some s \<Rightarrow> st_p50 s = 42 \<and> st_p99 s = 42 \<and> st_max s = 42)"

section \<open>demo05\_mutex\_rwlock.rs\<close>

definition test_config_store_read_write :: bool where
  "test_config_store_read_write =
     (let store = config_store_new (app_config_new 8080 100 ''eu-west-1'');
          port1 = config_get_port store;
          store = config_update (app_config_new 9090 200 ''eu-west-3'') store;
          port2 = config_get_port store;
          snap = config_snapshot store
      in port1 = 8080 \<and> port2 = 9090 \<and> ac_max_connections snap = 200 \<and> ac_region snap = ''eu-west-3'')"

text \<open>The calls of \<open>push\<close> and \<open>pop\<close> of a thread alone; \<open>None\<close> would be a call that waits for ever.\<close>

definition test_bounded_queue_push_pop :: bool where
  "test_bounded_queue_push_pop =
     (case Option.bind (bq_new 3) (\<lambda>q.
        Option.bind (at_once (bq_push (1 :: int) q)) (\<lambda>(_, q).
        Option.bind (at_once (bq_push 2 q)) (\<lambda>(_, q).
        Option.bind (at_once (bq_push 3 q)) (\<lambda>(_, q).
        Option.bind (at_once (bq_pop q)) (\<lambda>(a, q).
        Option.bind (at_once (bq_pop q)) (\<lambda>(b, q).
        Option.bind (at_once (bq_pop q)) (\<lambda>(c, q). Some (a, b, c)))))))) of
        Some (a, b, c) \<Rightarrow> a = 1 \<and> b = 2 \<and> c = 3
      | None \<Rightarrow> False)"

section \<open>exo07\_dispatcher.rs\<close>

definition submit_et_traiter_single_thread :: bool where
  "submit_et_traiter_single_thread =
     (let disp = dispatcher_new;
          disp = submit \<lparr>ta_id = 1, ta_kind = Parse, ta_payload = 42\<rparr> disp;
          disp = submit \<lparr>ta_id = 2, ta_kind = Alerte, ta_payload = 7\<rparr> disp;
          disp = stop disp;
          disp = worker_loop AtPop disp
      in di_stats disp ''parse'' = Some 1 \<and> di_stats disp ''alerte'' = Some 1 \<and> di_queue disp = [])"

definition stop_avant_drain_pas_de_perte :: bool where
  "stop_avant_drain_pas_de_perte =
     (let disp = foldl (\<lambda>d i. submit \<lparr>ta_id = of_nat i, ta_kind = Metrique, ta_payload = of_nat i\<rparr> d)
                   dispatcher_new [0..<100];
          disp = stop disp;
          disp = worker_loop AtPop disp
      in di_stats disp ''metrique'' = Some 100)"

section \<open>demo09\_serde\_formats.rs\<close>

text \<open>The bits of a positive normal \<open>f64\<close>: the biased exponent and the fraction.\<close>

definition f64_bits :: "f64 \<Rightarrow> u64" where
  "f64_bits x =
     (let e = exponent_of x; m = \<lfloor>x * 2 powi (52 - e)\<rfloor>
      in push_bit 52 (word_of_int (e + 1023)) + word_of_int (m - 2 ^ 52))"

definition sample_value :: "nat \<Rightarrow> f64" where
  "sample_value i = rnd64 (rnd64 (42 / 100) + rnd64 (rnd64 (of_nat i) * rnd64 (1 / 100)))"

definition sample_metric :: "nat \<Rightarrow> metric" where
  "sample_metric i =
     \<lparr>me_name = ''cpu_usage_core_'' @ show_nat i, me_value = f64_bits (sample_value i),
      me_labels = [''core'' \<mapsto> show_nat (i mod 16), ''env'' \<mapsto> ''prod'', ''zone'' \<mapsto> ''gra-az1'']\<rparr>"

definition sample :: "nat \<Rightarrow> metric_report" where
  "sample n =
     \<lparr>re_hostname = ''rbx-srv-0142.ovh.net'', re_datacenter = ''rbx7'', re_timestamp = 1715900000,
      re_metrics = map sample_metric [0..<n]\<rparr>"

definition test_sample_report_has_n_metrics :: bool where
  "test_sample_report_has_n_metrics =
     (let r = sample 10 in length (re_metrics r) = 10 \<and> re_hostname r = ''rbx-srv-0142.ovh.net'')"

definition test_varint_encoding :: bool where
  "test_varint_encoding = (let out = write_varint 300 in out = [0xAC, 0x02])"

definition test_protobuf_like_non_empty :: "((string \<rightharpoonup> string) \<Rightarrow> (string \<times> string) list) \<Rightarrow> bool" where
  "test_protobuf_like_non_empty order =
     (let r = sample 3; bytes = protobuf_like_encode order r in bytes \<noteq> [] \<and> bytes ! 0 = 0x0A)"

section \<open>Lemmas\<close>

lemma apply_d6_op_commute: "apply_d6_op (apply_d6_op s a) b = apply_d6_op (apply_d6_op s b) a"
  by (cases a; cases b) (auto simp: demo06_atomic_max_eq demo06_atomic_min_eq ac_simps)

lemma d6_ops_shuffle:
  assumes "d6_orders evs ops"
  shows "foldl apply_d6_op s ops = demo06.run evs s"
proof -
  have "foldl apply_d6_op s ops = foldl apply_d6_op s (concat (map d6_record_ops evs))"
    using assms unfolding d6_orders_def by (rule foldl_perm [rotated]) (rule apply_d6_op_commute)
  also have "\<dots> = demo06.run evs s"
    by (induction evs arbitrary: s) (auto simp: demo06_stats_record_def d6_record_ops_def Let_def)
  finally show ?thesis .
qed

lemma d6_run_view:
  "d6_total_requests (demo06.run evs demo06_stats_new) = of_nat (length evs)"
  "d6_success (demo06.run evs demo06_stats_new) + d6_failed (demo06.run evs demo06_stats_new) = of_nat (length evs)"
  "d6_max_latency_us (demo06.run evs demo06_stats_new) = Max (insert 0 (snd ` set evs))"
  "d6_min_latency_us (demo06.run evs demo06_stats_new) = Min (insert u64_max (snd ` set evs))"
  using demo06.run_total [of demo06_stats_new evs] demo06.run_balance [of demo06_stats_new evs]
    demo06.run_max [of demo06_stats_new evs] demo06.run_min [of demo06_stats_new evs]
  by (simp_all add: demo06.view_start view_new_def) (simp_all add: demo06_view_def)

lemma length_rows: "length (concat (map (\<lambda>t. map (f t) [0..<n]) [0..<m])) = m * n"
  by (induction m) auto

lemma set_rows: "set (concat (map (\<lambda>t. map (f t) [0..<n]) [0..<m])) = (\<lambda>(t, i). f t i) ` ({0..<m} \<times> {0..<n})"
  by auto

lemma exo06_extremes: "snd (exo06_event 0 0) = 50" "snd (exo06_event 0 827) = 949"
  by (simp_all add: exo06_event_def)

lemma exo06_run:
  assumes "orders (exo06_events 16 10000) ops"
  shows "exo06_main quot zero ops"
proof -
  let ?evs = "exo06_events 16 10000"
  have run: "foldl apply_stat_op service_stats_new ops = atomic_stats.run ?evs service_stats_new"
    using stat_ops_shuffle assms by (simp add: orders_def)
  note view = service_run_view [of ?evs]
  have "length ?evs = 160000" unfolding exo06_events_def by (subst length_rows) simp
  moreover have "(50 :: u64) \<in> snd ` set ?evs" "(949 :: u64) \<in> snd ` set ?evs"
    using exo06_extremes unfolding exo06_events_def set_rows by force+
  then have "Min (insert u64_max (snd ` set ?evs)) \<le> 50" "949 \<le> Max (insert 0 (snd ` set ?evs))"
    by (auto intro: Min_le Max_ge)
  then have "Min (insert u64_max (snd ` set ?evs)) \<le> 60" "940 \<le> Max (insert 0 (snd ` set ?evs))"
    by (auto elim: order_trans [rotated] order_trans)
  moreover have "of_nat (length (filter fst ?evs)) + of_nat (length (filter (\<lambda>e. \<not> fst e) ?evs)) =
      (of_nat (length ?evs) :: u64)"
    by (simp flip: of_nat_add add: sum_length_filter_compl)
  ultimately show ?thesis
    using view unfolding exo06_main_def run service_stats_snapshot_def Let_def
    by (simp add: service_view_def)
qed

lemma service_demo_run:
  assumes "d6_orders worker_events ops"
  shows "service_demo ops"
proof -
  have "length worker_events = 8000" unfolding worker_events_def by (subst length_rows) simp
  then show ?thesis
    using d6_run_view [of worker_events]
    by (simp add: service_demo_def d6_ops_shuffle [OF assms] demo06_stats_snapshot_def)
qed

lemma u64_of_nat_le: "n \<le> m \<Longrightarrow> m < 2 ^ 64 \<Longrightarrow> (of_nat n :: u64) \<le> of_nat m"
  by (simp add: word_le_nat_alt unat_of_nat)

lemma test_service_stats_concurrent_run:
  assumes "d6_orders test_stats_events ops"
  shows "test_service_stats_concurrent ops"
proof -
  have "length test_stats_events = 4000" unfolding test_stats_events_def by (subst length_rows) simp
  moreover have "snd ` set test_stats_events = (\<lambda>i. of_nat (100 + i)) ` {0..<500}"
  proof -
    have "snd ` set test_stats_events = (\<lambda>i. of_nat (100 + i)) ` (snd ` ({0..<8 :: nat} \<times> {0..<500}))"
      unfolding test_stats_events_def set_rows image_image split_beta snd_conv by simp
    then show ?thesis by (simp only: snd_image_times) simp
  qed
  moreover have "Max (insert 0 ((\<lambda>i. of_nat (100 + i)) ` {0..<500})) = (599 :: u64)"
  proof (rule Max_eqI)
    have "of_nat (100 + i) \<le> (599 :: u64)" if "i < 500" for i
      using u64_of_nat_le [of "100 + i" 599] that by simp
    then show "y \<le> 599" if "y \<in> insert 0 ((\<lambda>i. of_nat (100 + i)) ` {0..<500})" for y :: u64
      using that by auto
    show "(599 :: u64) \<in> insert 0 ((\<lambda>i. of_nat (100 + i)) ` {0..<500})"
      by (intro insertI2 image_eqI [where x = 499]) simp_all
  qed simp
  moreover have "Min (insert u64_max ((\<lambda>i. of_nat (100 + i)) ` {0..<500})) = (100 :: u64)"
  proof (rule Min_eqI)
    have "(100 :: u64) \<le> of_nat (100 + i)" if "i < 500" for i
      using u64_of_nat_le [of 100 "100 + i"] that by simp
    then show "100 \<le> y" if "y \<in> insert u64_max ((\<lambda>i. of_nat (100 + i)) ` {0..<500})" for y :: u64
      using that by auto
    show "(100 :: u64) \<in> insert u64_max ((\<lambda>i. of_nat (100 + i)) ` {0..<500})"
      by (intro insertI2 image_eqI [where x = 0]) simp_all
  qed simp
  ultimately show ?thesis
    using d6_run_view [of test_stats_events]
    by (simp add: test_service_stats_concurrent_def d6_ops_shuffle [OF assms] demo06_stats_snapshot_def)
qed

lemma max_submitted_eq: "max_submitted = max_data"
proof -
  have slices: "take n xs @ take n (drop n xs) @ take n (drop (2 * n) xs) @ drop (3 * n) xs = xs" for n and xs :: "u64 list"
  proof -
    have "take n (drop (2 * n) xs) @ drop (3 * n) xs = drop (2 * n) xs"
      using append_take_drop_id [of n "drop (2 * n) xs"] by (simp add: mult_2 add_ac numeral_3_eq_3)
    moreover have "take n (drop n xs) @ drop (2 * n) xs = drop n xs"
      using append_take_drop_id [of n "drop n xs"] by (simp add: mult_2)
    ultimately show ?thesis by simp
  qed
  have len: "length max_data = 10000" by (simp add: max_data_def)
  have "[0..<4] = [0, 1, 2, 3 :: nat]" by code_simp
  then have "max_submitted = take 2500 max_data @ take 2500 (drop 2500 max_data) @
      take 2500 (drop 5000 max_data) @ drop 7500 max_data"
    by (simp add: max_submitted_def max_slice_def len Let_def)
  then show ?thesis using slices [of 2500 max_data] by simp
qed

lemma submitted_max: "submitted_to vals r \<Longrightarrow> r = Max (insert 0 (set vals))"
  using cas_max_final by (auto simp: submitted_to_def)

lemma max_test_run:
  assumes "submitted_to max_test_submitted r"
  shows "r = 7000999"
  unfolding submitted_max [OF assms]
proof (rule Max_eqI)
  let ?vals = "insert 0 (set max_test_submitted)"
  have vals: "set max_test_submitted = (\<lambda>(t, i). of_nat (t * 1000000 + i)) ` ({0..<8} \<times> {0..<1000})"
    unfolding max_test_submitted_def set_rows by (simp add: split_beta)
  have "(of_nat (t * 1000000 + i) :: u64) \<le> of_nat 7000999" if "t < 8" "i < 1000" for t i
    using that by (intro u64_of_nat_le) auto
  then show "y \<le> 7000999" if "y \<in> ?vals" for y using that by (auto simp: vals)
  have "(of_nat (7 * 1000000 + 999) :: u64) \<in> set max_test_submitted"
    unfolding vals by (rule image_eqI [where x = "(7, 999)"]) auto
  then show "7000999 \<in> ?vals" by simp
qed simp

lemma stats_coherent_selects:
  assumes "selects sel" "3 \<le> length data" "length data < 2 ^ 32" "borne_max < u64_max" "\<forall>v \<in> set data. v \<le> borne_max"
  shows "stats_coherent sel borne_max (Some data)"
proof -
  have "data \<noteq> []" using assms(2) by auto
  then obtain s where "stats_par_tri data = Some s" by (simp add: stats_par_tri_def Let_def)
  then show ?thesis
    using select_eq_tri [OF assms(1,2)] histogramme_eq_tri [OF \<open>data \<noteq> []\<close> assms(3-5)]
    by (simp add: stats_coherent_def)
qed

lemma dataset_coherent:
  assumes "selects sel" "3 \<le> taille" "taille < 2 ^ 32" "0 < borne_max" "borne_max < u64_max"
  shows "stats_coherent sel borne_max (dataset_latences taille borne_max)"
proof -
  obtain data where data: "dataset_latences taille borne_max = Some data" "length data = taille"
      "\<forall>v \<in> set data. 1 \<le> v \<and> v \<le> borne_max"
    using dataset_latences_range [OF assms(4)] by blast
  then show ?thesis using stats_coherent_selects [OF assms(1), of data borne_max] assms(2-5) by simp
qed

lemma sorted_dataset_test: "sort dataset_test = dataset_test"
proof (rule sorted_sort_id)
  show "sorted dataset_test"
    unfolding dataset_test_def sorted_map
    by (rule sorted_wrt_mono_rel [OF _ sorted_upt]) (auto intro: u64_of_nat_le)
qed

section \<open>Properties\<close>

text \<open>The programs around the counters meet their assertions on every interleaving of the atomic
  operations of their threads: the functional test of exercise 6, the four parts of the atomics
  demo's \<open>main\<close> that count or take a maximum, and its tests.\<close>

theorem counting_programs_pass:
  assumes "orders (exo06_events 16 10000) ops" and "d6_orders worker_events ops4" and "d6_orders test_stats_events ops5"
    and "compteur_schedule threads iterations rx" "compteur_schedule threads iterations sc"
    and "submitted_to max_submitted observed_max" and "submitted_to max_test_submitted m"
  shows "exo06_main quot zero ops \<and> service_demo ops4 \<and> test_service_stats_concurrent ops5 \<and>
    compteurs_ok threads iterations rx sc \<and> observed_max = Max (set max_data) \<and> m = 7000999 \<and>
    test_service_stats_record \<and> test_atomic_max_basique \<and> test_atomic_min_basique"
proof (intro conjI)
  show "exo06_main quot zero ops" by (rule exo06_run [OF assms(1)])
  show "service_demo ops4" by (rule service_demo_run [OF assms(2)])
  show "test_service_stats_concurrent ops5" by (rule test_service_stats_concurrent_run [OF assms(3)])
  show "compteurs_ok threads iterations rx sc"
    using length_compteur_schedule [OF assms(4)] length_compteur_schedule [OF assms(5)]
    by (simp add: compteurs_ok_def run_compteur_seqcst_eq run_compteur_eq)
  have "set max_data \<noteq> {}" by (simp add: max_data_def)
  then have "Max (insert 0 (set max_data)) = max 0 (Max (set max_data))" by (intro Max_insert) simp_all
  then show "observed_max = Max (set max_data)"
    using submitted_max [OF assms(6)] by (simp add: max_submitted_eq)
  show "m = 7000999" by (rule max_test_run [OF assms(7)])
  show test_service_stats_record
    by (simp add: test_service_stats_record_def demo06_stats_new_def demo06_stats_record_def
        demo06_stats_snapshot_def demo06_atomic_max_eq demo06_atomic_min_eq Let_def)
  show test_atomic_max_basique test_atomic_min_basique
    by (simp_all add: test_atomic_max_basique_def test_atomic_min_basique_def demo06_atomic_max_eq demo06_atomic_min_eq Let_def)
qed

text \<open>The checks of exercise 1 hold for every selection that does what the standard library
  documents, and the configuration test of the locks demo passes.\<close>

theorem percentile_programs_pass:
  assumes "selects sel"
  shows "exo01_main sel \<and> coherence_petite_taille sel \<and> coherence_grand_dataset sel \<and> test_singleton \<and>
    test_config_store_read_write"
proof (intro conjI)
  show "exo01_main sel" unfolding exo01_main_def by (rule dataset_coherent [OF assms]) simp_all
  show "coherence_grand_dataset sel" unfolding coherence_grand_dataset_def by (rule dataset_coherent [OF assms]) simp_all
  have "stats_coherent sel 100 (Some dataset_test)"
  proof (rule stats_coherent_selects [OF assms])
    show "\<forall>v \<in> set dataset_test. v \<le> 100"
      using u64_of_nat_le [of _ 100] by (auto simp: dataset_test_def)
  qed (simp_all add: dataset_test_def)
  moreover have "length dataset_test = 100" "dataset_test ! 99 = 100" by (simp_all add: dataset_test_def)
  then have "\<exists>s. stats_par_tri dataset_test = Some s \<and> st_max s = 100"
    unfolding stats_par_tri_def sorted_dataset_test Let_def by auto
  ultimately show "coherence_petite_taille sel" by (auto simp: coherence_petite_taille_def)
  show test_singleton by (simp add: test_singleton_def stats_par_tri_def Let_def)
  show test_config_store_read_write
    by (simp add: test_config_store_read_write_def config_store_new_def app_config_new_def config_update_def
        config_get_port_def config_snapshot_def Let_def)
qed

text \<open>The sequential tests of the queue, of the dispatcher and of the report encoder pass.\<close>

theorem sequential_tests_pass:
  "test_bounded_queue_push_pop \<and> submit_et_traiter_single_thread \<and> stop_avant_drain_pas_de_perte \<and>
   test_sample_report_has_n_metrics \<and> test_varint_encoding \<and> test_protobuf_like_non_empty order"
proof (intro conjI)
  show test_bounded_queue_push_pop
    by (simp add: test_bounded_queue_push_pop_def bq_new_def bq_push_def bq_pop_def at_once_def)
  show submit_et_traiter_single_thread
    by (simp add: submit_et_traiter_single_thread_def worker_loop_drains dispatcher_new_def submit_def stop_def
        kind_stats_def bump_def stat_of_def Let_def)
  show stop_avant_drain_pas_de_perte
  proof -
    let ?t = "\<lambda>i. \<lparr>ta_id = of_nat i, ta_kind = Metrique, ta_payload = of_nat i\<rparr>"
    have q: "foldl (\<lambda>d i. submit (?t i) d) d is = d\<lparr>di_queue := di_queue d @ map ?t is\<rparr>" for d "is"
      by (induction "is" arbitrary: d) (simp_all add: submit_def)
    have k: "kind_stats (map ?t is) m ''metrique'' =
        (if is = [] then m ''metrique'' else Some (stat_of m ''metrique'' + of_nat (length is)))" for m "is"
      by (induction "is" rule: rev_induct) (auto simp: kind_stats_def bump_def stat_of_def)
    show ?thesis
      unfolding stop_avant_drain_pas_de_perte_def Let_def q
      by (simp add: worker_loop_drains stop_def dispatcher_new_def k stat_of_def del: map_map)
  qed
  show test_sample_report_has_n_metrics by (simp add: test_sample_report_has_n_metrics_def sample_def)
  show test_varint_encoding by code_simp
  show "test_protobuf_like_non_empty order"
    by (simp add: test_protobuf_like_non_empty_def protobuf_like_encode_def sample_def write_string_def write_tag_def Let_def
        write_varint.simps)
qed

end
