(* ===== verification/Spec2Isabelle.thy ===== *)
theory Spec2Isabelle
  imports Storage StorageRaces HashRing Protocol Client Metrics Replication Server Cluster NodeMain Startup
    Deadlines Gateway Integration UnitTests
    Atomics WeakMemory LatencyStats RingBuffer Monitors QueueThreads Dispatcher Lockfree
    Crdt Raft Breaker IeeeRounding Float64 Retry Simd
    Percentiles Layouts Pipeline Protobuf GrpcStore ServicePrograms
begin

text \<open>
  \<^bold>\<open>A distributed key-value store and its companions.\<close> The repository holds a replicated key-value
  store (\<open>tp-kv-distributed\<close>) and a set of demonstrations and corrected exercises on concurrency,
  distribution and performance (\<open>demos\<close>). The development models both in HOL, one theory per
  component, and proves what makes each correct; where the code does not do what it means to, a
  theorem shows the execution that goes wrong.

  \<^bold>\<open>The distributed store\<close> (\<open>tp-kv-distributed/src\<close>)

  \<^item> \<open>Storage\<close> (\<open>storage.rs\<close>): the engine as a partial map of versioned entries with a version
    counter and statistics. \<open>engine_get\<close>, \<open>engine_put\<close>, \<open>engine_put_with_version\<close>, \<open>engine_delete\<close>,
    \<open>engine_scan\<close> and \<open>engine_purge_expired\<close> are the methods. Lemmas: the invariant of every
    operation, the refinement of a store of live entries (locale \<open>ttl_store\<close>), versions that only
    grow, delivery of replicated writes in any order. \<open>StorageRaces\<close> has the same methods as their
    sequences of atomic accesses (\<open>call_step\<close>), interleaved by any number of threads: a call that
    runs alone is the transition of \<open>Storage\<close>; the invariant, distinct versions and the writes of
    threads with keys of their own survive every interleaving; three races lose or reorder writes.
  \<^item> \<open>HashRing\<close> (\<open>consistent_hash.rs\<close> and the ring of \<open>demo_3_3a\<close>): the ring as a sorted map of
    hash positions, for any hash function. The locale \<open>consistent_router\<close> gives the routing lemmas
    for both rings.
  \<^item> \<open>Protocol\<close> (\<open>protocol.rs\<close>): messages and length-prefixed frames; bincode is a pair of
    parameters. \<open>Client\<close> (\<open>client.rs\<close>): calls on one connection with its unread responses.
  \<^item> \<open>Metrics\<close> (\<open>metrics.rs\<close>): counters, the moving average of the replication lag, the Prometheus
    text and the HTTP dispatch.
  \<^item> \<open>Replication\<close> (\<open>replication.rs\<close>): quorum writes, reads and deletes over an environment of
    remote calls. \<open>Server\<close> (\<open>server.rs\<close>): the request dispatcher with every branch, and the
    connection loop from bytes to bytes.
  \<^item> \<open>Cluster\<close> ties them together: a world of nodes in which the environment of \<open>Replication\<close> is
    the server of another node. A call carries a fate (lost, late, refused, answered); a held
    connection mutex makes an inner call wait for its deadline. \<open>cluster_call\<close> recurses on a fuel,
    the nesting depth of calls: a forwarded request reaches a replica, which may forward once
    more to a node whose connection is held, so two levels are enough for its theorems, and each
    theorem that returns a result is proved at the stated fuel.
  \<^item> \<open>NodeMain\<close> (\<open>main.rs\<close>, \<open>bin/kvc.rs\<close>): arguments, node names, the initial ring and
    connections, one tick of the heartbeat and of the purge, the command line client.
  \<^item> \<open>Startup\<close> composes the two: the world right after every member has run \<open>node_start\<close>, and the
    first write and read of a key in it.
  \<^item> \<open>Deadlines\<close> has the calls of \<open>Cluster\<close> on a clock: what happens to a call is no longer an
    input but follows from the latency of a hop and the deadlines of \<open>replication.rs\<close> and
    \<open>client.rs\<close>. Three levels of calls are enough for the chains it follows, an absent GET and a
    DELETE at a replica, whose last call finds its connection held.
  \<^item> \<open>Gateway\<close>: a write forwarded by a node that is not a replica, a read that goes past nodes that
    are gone, a write when the other replicas are gone. \<open>Integration\<close>
    (\<open>tests/integration.rs\<close>): the cluster the tests boot, its crash and \<open>abort\<close>, and four of the
    five tests as functions of the hash, at two levels of calls (a forwarded PUT, a GET passed on
    to the second replica). \<open>UnitTests\<close>: the unit tests of the modules, as functions of the clock,
    the iteration order, the hash and the serializer.

  \<^bold>\<open>Concurrency\<close> (\<open>demos/src/bin\<close>). Threads are interleaved step by step; a schedule or a step
  relation ranges over all interleavings of the atomic operations.

  \<^item> \<open>Atomics\<close> (\<open>demo06\<close>, \<open>exo06\<close>): compare-and-swap loops under interference, locale
    \<open>cas_extremum\<close>. \<open>WeakMemory\<close>: the release/acquire publication of \<open>demo06\<close> on a memory whose
    loads may return old stores. \<open>LatencyStats\<close>: the lock-free and the mutex statistics, locale
    \<open>latency_recorder\<close>.
  \<^item> \<open>RingBuffer\<close> (\<open>exo05\<close>): a monitor with two condition variables, \<open>rb_step\<close> with spurious
    wake-ups; FIFO order, no lost wake-up, the test of the exercise. \<open>Monitors\<close> (\<open>demo05\<close>): the
    counters, the configuration store and the bounded queue; locale \<open>blocking_fifo\<close> is the
    contract both queues offer. \<open>QueueThreads\<close>: the threads of \<open>demo05\<close> on its queue and its
    configuration, with the drain that leaves nothing behind.
  \<^item> \<open>Dispatcher\<close> (\<open>exo07\<close>): tasks, workers and shutdown; conservation of tasks, and the run that
    loses one. \<open>Lockfree\<close> (\<open>demo07\<close>): work stealing with its bound on the number of steps, the
    bounded and the unbounded queue, the sharded map.

  \<^bold>\<open>Distributed algorithms and resilience\<close>

  \<^item> \<open>Crdt\<close> (\<open>demo_3_3b\<close>): counters and the observed-remove set, locale \<open>replicated\<close> over
    semilattices. \<open>Raft\<close> (\<open>demo_3_3c\<close>): elections, replication, crashes; election safety and
    the divergence of committed logs.
  \<^item> \<open>Breaker\<close> (\<open>demo_3_4a\<close>): refinement of a three-state automaton by the 32-bit counters.
    \<open>Retry\<close> (\<open>demo_3_4b\<close>) over \<open>Float64\<close>: the backoff arithmetic on rationals with IEEE rounding
    to 53 bits; every conversion is shown not to panic and the loop to end. \<open>IeeeRounding\<close> is the
    rounding to a given precision, with its error bounds, that both formats share.
  \<^item> \<open>GrpcStore\<close> (\<open>app-tokio-tonic\<close>): the store behind the gRPC handlers and what its watchers see.

  \<^bold>\<open>Data processing\<close>

  \<^item> \<open>Percentiles\<close> (\<open>exo01\<close>), \<open>Layouts\<close> (\<open>exo02\<close>, \<open>demo02\<close>), \<open>Pipeline\<close> (\<open>demo03\<close>,
    \<open>lib.rs\<close>), \<open>Protobuf\<close> (\<open>demo09\<close>): equivalence of the optimised variants with the plain ones,
    and a decoder that inverts the hand-written encoder.
  \<^item> \<open>Simd\<close> (\<open>demo04\<close>): the four dot products on single-precision values, the intrinsics lane by
    lane. The locale \<open>rounded_sums\<close> says how an error measure spreads through the sums; its
    interpretations give the error bound and the exactness on integers.
  \<^item> \<open>ServicePrograms\<close> runs the counters, the percentiles, the queue, the dispatcher and the encoder
    as \<open>main\<close> and the tests do: their assertions hold on every order of the threads' atomic
    operations.

  \<^bold>\<open>Conventions.\<close> \<open>Prelude\<close> has the machine types (words wrap as in the release profile, \<open>usize\<close> is
  \<open>nat\<close>), the clock, decimal printing, hash maps and ordered maps, and the lemmas the components
  share. Containers are their abstract values: a vector or a queue is a list, a \<open>HashMap\<close> or
  \<open>DashMap\<close> a partial map that is iterated in any order, a lock-free container's operation one
  atomic step. A panic or an error is a value of an option or a sum. Code that is not in the
  repository is a parameter with its documented behaviour as a hypothesis: the hash function, the
  serializer, the socket address parser, \<open>powi\<close>, the printing of floats, \<open>select_nth_unstable\<close>,
  the way rayon splits an iterator.

  \<^bold>\<open>Not modelled.\<close> Weak memory outside the release/acquire demonstration: the other atomics are
  interleaved sequentially consistently. Infinities and NaN: a float operation that leaves the
  finite range is a failure. The parallel remote calls of a DELETE through a node that is not a
  replica on the clock of \<open>Deadlines\<close>, and with them \<open>test_delete_replicated\<close>; the tests whose
  result depends on the values of the standard library's hash. The scheduling of tokio, sockets, tracing, signals and generated gRPC
  code; timing harnesses and benchmarks; the random number demonstration, whose results belong to
  the crate it calls.
\<close>

end
